(* ===== verification/Kernel_Prelude.thy ===== *)
theory Kernel_Prelude
  imports Main "HOL-Library.Word"
begin

text \<open>
  The vocabulary the component theories share: the machine integers of the i686 target
  (\<open>uint8_t\<close> to \<open>uint64_t\<close> of \<open>kernel/libc/stdint.h\<close>, with \<open>int\<close> and \<open>size_t\<close> of 32 bits),
  the console events that \<open>printf\<close> and the \<open>ASSERT\<close> macro leave behind, the collections of
  rewrite rules the proofs use, and small facts on words and lists that several components
  need.
\<close>

unbundle bit_operations_syntax

subsection \<open>Machine integers\<close>

type_synonym u8 = "8 word"
type_synonym u16 = "16 word"
type_synonym u32 = "32 word"
type_synonym u64 = "64 word"

text \<open>\<open>low_16\<close> and \<open>high_16\<close> of \<open>stdint.h\<close>.\<close>

definition low_16 :: "u32 \<Rightarrow> u16" where
  "low_16 address = ucast (address AND 0xFFFF)"

definition high_16 :: "u32 \<Rightarrow> u16" where
  "high_16 address = ucast (drop_bit 16 address AND 0xFFFF)"

subsection \<open>Console events\<close>

text \<open>
  Components other than the console driver write to the console with \<open>printf\<close>; what they
  leave is the list of their calls, each with its format string and the 32-bit argument
  words. A failing \<open>ASSERT\<close> only prints and goes on, so it is an event as well, with the
  source line it stands on. How a call turns into characters is the business of
  \<open>Libc_Stdio\<close>, and how a character reaches the screen that of \<open>Screen\<close>.
\<close>

datatype console_event =
    Printf string "u32 list"
  | Assert_Failed string nat
  | Printf_Backspace
  | Clear_Screen

definition ASSERT :: "string \<Rightarrow> nat \<Rightarrow> bool \<Rightarrow> console_event list \<Rightarrow> console_event list" where
  "ASSERT file line x out = (if \<not> x then out @ [Assert_Failed file line] else out)"

lemma ASSERT_True [simp]: "ASSERT f l True out = out"
  by (simp add: ASSERT_def)

subsection \<open>Collections of rewrite rules\<close>

named_theorems mem_simps \<open>reads over writes of the byte memory\<close>
named_theorems layout_simps \<open>field offsets of the C structures\<close>
named_theorems bound_simps \<open>addresses as natural numbers, where nothing wraps\<close>

subsection \<open>Words as natural numbers\<close>

lemma unat_lt_2p32 [simp]: "unat (a::u32) < 4294967296"
  using unsigned_less [of a] by simp

lemma unat_add_nowrap [bound_simps]:
  "unat (a::u32) + unat b < 4294967296 \<Longrightarrow> unat (a + b) = unat a + unat b"
  by (simp add: unat_word_ariths)

lemma unat_of_nat_small [bound_simps]:
  "n < 4294967296 \<Longrightarrow> unat (of_nat n :: u32) = n"
  by (simp add: unat_of_nat)

lemma unat_add_numeral_nowrap [bound_simps]:
  assumes "unat (a::u32) + numeral k < 4294967296"
  shows "unat (a + numeral k) = unat a + numeral k"
proof -
  have "(numeral k :: nat) < 4294967296"
    using assms by (rule le_less_trans [OF le_add2])
  then have "unat (of_nat (numeral k) :: u32) = numeral k"
    by (rule unat_of_nat_small)
  then show ?thesis using assms by (simp add: unat_word_ariths)
qed

lemma unat_sub_nowrap [bound_simps]:
  "unat (b::u32) \<le> unat a \<Longrightarrow> unat (a - b) = unat a - unat b"
  by (simp add: unat_sub word_le_nat_alt)

lemma unat_add_of_nat:
  "unat (a::u32) + n < 4294967296 \<Longrightarrow> unat (a + of_nat n) = unat a + n"
  by (simp add: unat_add_nowrap unat_of_nat_small)

lemma of_nat_unat_diff: "unat (b - a :: u32) < n \<Longrightarrow> b = a + of_nat (unat (b - a))"
  by simp

lemma word_add_of_nat_inject:
  "i < 4294967296 \<Longrightarrow> j < 4294967296 \<Longrightarrow>
     (a + of_nat i = (a + of_nat j :: u32)) = (i = j)"
  by (metis add_left_cancel unat_of_nat_small)

lemma of_nat_u32_inject:
  "i < n \<Longrightarrow> j < n \<Longrightarrow> n \<le> 4294967296 \<Longrightarrow> (of_nat i = (of_nat j :: u32)) = (i = j)"
  using word_add_of_nat_inject [of i j 0] by simp

text \<open>A counter below an unsigned bound does not wrap when it is incremented.\<close>

lemma unat_Suc_below: "i < (n::u32) \<Longrightarrow> unat (i + 1) = Suc (unat i)"
  by unat_arith

lemma counter_decreases:
  "i < (n::u32) \<Longrightarrow> 4294967296 - unat (i + 1) < 4294967296 - unat i"
  using unat_Suc_below [of i n] unat_lt_2p32 [of i] by linarith

text \<open>The same for a counter compared as a signed \<open>int\<close>, in either direction.\<close>

lemma sint_bounds: "- 2147483648 \<le> sint (a::u32)" "sint a < 2147483648"
  using sint_greater_eq [of a] sint_less [of a] by simp_all

lemma sint_add_small:
  "- 2147483648 \<le> sint (a::u32) + sint b \<Longrightarrow> sint a + sint b < 2147483648 \<Longrightarrow> sint (a + b) = sint a + sint b"
  by (simp add: sint_word_ariths signed_take_bit_int_eq_self)

lemma sint_Suc_below: "sint (i::u32) < sint (n::u32) \<Longrightarrow> sint (i + 1) = sint i + 1"
  using sint_bounds [of i] sint_bounds [of n] by (subst sint_add_small) simp_all

lemma sint_pred_above: "sint (i::u32) < sint (n::u32) \<Longrightarrow> sint (n - 1) = sint n - 1"
  using sint_bounds [of i] sint_bounds [of n] sint_add_small [of n "- 1"] by simp

lemma sint_of_nat: "n < 2147483648 \<Longrightarrow> sint (of_nat n :: u32) = int n"
  by (simp add: signed_of_nat signed_take_bit_int_eq_self)

lemma sint_nonneg: "unat (a::u32) < 2147483648 \<Longrightarrow> sint a = int (unat a)"
  using sint_of_nat [of "unat a"] by simp

lemma unat_of_sint:
  assumes "0 \<le> sint (a::u32)"
  shows "unat a = nat (sint a)"
proof -
  have "a = of_int (sint a)" by simp
  also have "\<dots> = of_nat (nat (sint a))" using assms by (metis of_int_of_nat_eq int_nat_eq)
  finally have "unat a = unat (of_nat (nat (sint a)) :: u32)" by (rule arg_cong)
  also have "\<dots> = nat (sint a)" using sint_bounds(2) [of a] by (intro unat_of_nat_small) linarith
  finally show ?thesis .
qed

subsection \<open>Lists\<close>

lemma upt_map_update:
  "k < n \<Longrightarrow> (\<And>i. i < n \<Longrightarrow> g i = (if i = k then v else f i)) \<Longrightarrow>
     map g [0..<n] = (map f [0..<n])[k := v]"
  by (auto intro!: nth_equalityI simp: nth_list_update)

end
