(* ===== verification/Machine_Memory.thy ===== *)
theory Machine_Memory
  imports Kernel_Prelude
begin

text \<open>
  The memory the C code reads and writes: one flat, byte-addressed address space with
  little-endian accesses of 1, 2, 4 and 8 bytes, as an i686 has it. This is the semantics of
  the language's loads and stores, not a component of the kernel. Addresses wrap at
  \<open>2 ^ 32\<close>, so the conditions below compare address differences and need no side
  condition on wrapping.
\<close>

type_synonym mem = "u32 \<Rightarrow> u8"

definition load8 :: "mem \<Rightarrow> u32 \<Rightarrow> u8" where
  "load8 m a = m a"

definition load16 :: "mem \<Rightarrow> u32 \<Rightarrow> u16" where
  "load16 m a = ucast (m a) OR push_bit 8 (ucast (m (a + 1)))"

definition load32 :: "mem \<Rightarrow> u32 \<Rightarrow> u32" where
  "load32 m a = ucast (m a) OR push_bit 8 (ucast (m (a + 1)))
     OR push_bit 16 (ucast (m (a + 2))) OR push_bit 24 (ucast (m (a + 3)))"

definition load64 :: "mem \<Rightarrow> u32 \<Rightarrow> u64" where
  "load64 m a = ucast (load32 m a) OR push_bit 32 (ucast (load32 m (a + 4)))"

definition store8 :: "mem \<Rightarrow> u32 \<Rightarrow> u8 \<Rightarrow> mem" where
  "store8 m a v = m(a := v)"

definition store16 :: "mem \<Rightarrow> u32 \<Rightarrow> u16 \<Rightarrow> mem" where
  "store16 m a v = m(a := ucast v, a + 1 := ucast (drop_bit 8 v))"

definition store32 :: "mem \<Rightarrow> u32 \<Rightarrow> u32 \<Rightarrow> mem" where
  "store32 m a v = m(a := ucast v, a + 1 := ucast (drop_bit 8 v),
     a + 2 := ucast (drop_bit 16 v), a + 3 := ucast (drop_bit 24 v))"

definition store64 :: "mem \<Rightarrow> u32 \<Rightarrow> u64 \<Rightarrow> mem" where
  "store64 m a v = store32 (store32 m a (ucast v)) (a + 4) (ucast (drop_bit 32 v))"

subsection \<open>Regions\<close>

text \<open>\<open>within a n b\<close>: the address \<open>b\<close> is one of the \<open>n\<close> bytes from \<open>a\<close>.\<close>

definition within :: "u32 \<Rightarrow> nat \<Rightarrow> u32 \<Rightarrow> bool" where
  "within a n b \<longleftrightarrow> unat (b - a) < n"

text \<open>\<open>apart a n b k\<close>: the \<open>n\<close> bytes from \<open>a\<close> and the \<open>k\<close> bytes from \<open>b\<close> share no byte.\<close>

definition apart :: "u32 \<Rightarrow> nat \<Rightarrow> u32 \<Rightarrow> nat \<Rightarrow> bool" where
  "apart a n b k \<longleftrightarrow> n = 0 \<or> k = 0 \<or> n \<le> unat (b - a) \<and> k \<le> unat (a - b)"

lemma within_self [simp]: "within a n a \<longleftrightarrow> 0 < n"
  by (simp add: within_def)

lemma within_0 [simp]: "\<not> within a 0 b"
  by (simp add: within_def)

lemma within_add_of_nat: "i < n \<Longrightarrow> n \<le> 4294967296 \<Longrightarrow> within a n (a + of_nat i)"
  by (simp add: within_def unat_of_nat_small)

lemma within_mono: "within a n b \<Longrightarrow> n \<le> k \<Longrightarrow> within a k b"
  by (simp add: within_def)

lemma withinE:
  assumes "within a n b"
  obtains i where "i < n" and "i < 4294967296" and "b = a + of_nat i"
  using assms that [of "unat (b - a)"] by (simp add: within_def)

lemma within_1: "within a 1 b \<longleftrightarrow> b = a"
  by (auto simp: within_def unat_eq_zero)

lemma within_2: "within a 2 b \<longleftrightarrow> b = a \<or> b = a + 1"
proof
  assume "within a 2 b"
  then obtain i where "i < 2" "b = a + of_nat i" by (rule withinE)
  then show "b = a \<or> b = a + 1" by (auto simp: less_2_cases_iff)
qed (auto simp: within_def)

lemma within_4: "within a 4 b \<longleftrightarrow> b = a \<or> b = a + 1 \<or> b = a + 2 \<or> b = a + 3"
proof
  assume "within a 4 b"
  then obtain i where "i < 4" "b = a + of_nat i" by (rule withinE)
  then show "b = a \<or> b = a + 1 \<or> b = a + 2 \<or> b = a + 3"
    by (auto simp: numeral_eq_Suc less_Suc_eq)
qed (auto simp: within_def)

lemma within_split:
  assumes "i + k \<le> 4294967296"
  shows "within a (i + k) b \<longleftrightarrow> within a i b \<or> within (a + of_nat i) k b"
proof
  assume "within a (i + k) b"
  then obtain j where j: "j < i + k" "b = a + of_nat j" "j < 4294967296" by (rule withinE)
  show "within a i b \<or> within (a + of_nat i) k b"
  proof (cases "j < i")
    case True
    then show ?thesis using j by (simp add: within_def unat_of_nat_small)
  next
    case False
    then have "b - (a + of_nat i) = of_nat (j - i)" using j by (simp add: of_nat_diff)
    moreover have "unat (of_nat (j - i) :: u32) = j - i" using j by (simp add: unat_of_nat_small)
    moreover have "j - i < k" using j(1) False by linarith
    ultimately show ?thesis by (simp only: within_def simp_thms)
  qed
next
  assume "within a i b \<or> within (a + of_nat i) k b"
  then show "within a (i + k) b"
  proof
    assume "within (a + of_nat i) k b"
    then obtain j where j: "j < k" "b = a + of_nat i + of_nat j" by (rule withinE)
    then have "b = a + of_nat (i + j)" by simp
    then show ?thesis using j(1) assms by (metis add_less_cancel_left within_add_of_nat)
  qed (auto elim: within_mono)
qed

lemma within_field:
  assumes "within (n + of_nat k) j a" "k + j \<le> l" "l < 4294967296"
  shows "within n l a"
proof -
  have "within n (k + j) a" using assms within_split [of k j n a] by simp
  then show ?thesis using assms(2) by (rule within_mono)
qed

lemma within_8: "within a 8 b \<longleftrightarrow> within a 4 b \<or> within (a + 4) 4 b"
  using within_split [of 4 4 a b] by simp

lemma apart_sym: "apart a n b k \<longleftrightarrow> apart b k a n"
  by (auto simp: apart_def)

lemma apart_within:
  assumes ap: "apart a n b k" and wa: "within a n c"
  shows "\<not> within b k c"
proof
  assume wb: "within b k c"
  define x y where "x = c - a" and "y = c - b"
  have d: "b - a = x - y" "a - b = y - x" by (simp_all add: x_def y_def)
  have c: "unat x < n" "unat y < k" using wa wb by (auto simp: within_def x_def y_def)
  then have "n \<le> unat (x - y)" "k \<le> unat (y - x)" using ap by (auto simp: apart_def d)
  with c show False by unat_arith
qed

lemma apartI:
  assumes "\<And>c. within a n c \<Longrightarrow> within b k c \<Longrightarrow> False"
  shows "apart a n b k"
  using assms [of a] assms [of b] by (force simp: apart_def within_def)

lemma apart_iff: "apart a n b k \<longleftrightarrow> (\<forall>c. \<not> (within a n c \<and> within b k c))"
  by (meson apartI apart_within)

lemma apart_nat:
  "unat a + n \<le> unat b \<Longrightarrow> unat b + k \<le> 4294967296 \<Longrightarrow> apart a n b k"
  "unat b + k \<le> unat a \<Longrightarrow> unat a + n \<le> 4294967296 \<Longrightarrow> apart a n b k"
  by (auto simp: apart_def unat_sub_if' split: if_splits)

lemma within_nat:
  "unat a + n \<le> 4294967296 \<Longrightarrow> within a n b \<longleftrightarrow> unat a \<le> unat b \<and> unat b < unat a + n"
  using unat_lt_2p32 [of b] by (auto simp: within_def unat_sub_if' split: if_splits)

lemma apart_sub:
  assumes "apart a n b k" and "\<And>c. within a' n' c \<Longrightarrow> within a n c"
    and "\<And>c. within b' k' c \<Longrightarrow> within b k c"
  shows "apart a' n' b' k'"
  using assms by (meson apart_iff)

lemma not_within_later:
  assumes "within d k a" "k \<le> j" "j + l \<le> 4294967296" "j < 4294967296"
  shows "\<not> within (d + of_nat j) l a"
proof -
  define x where "x = a - d"
  have a: "a - (d + of_nat j) = x - of_nat j" by (simp add: x_def)
  have "unat x < j" using assms(1,2) by (simp add: within_def x_def)
  moreover have "unat (of_nat j :: u32) = j" using assms(4) by (rule unat_of_nat_small)
  ultimately have "l \<le> unat (x - of_nat j)" using assms(3) by (simp add: unat_sub_if')
  then show ?thesis by (simp add: within_def a)
qed

lemma apart_mono: "apart a n b k \<Longrightarrow> n' \<le> n \<Longrightarrow> k' \<le> k \<Longrightarrow> apart a n' b k'"
  by (rule apart_sub [of a n b k]) (auto intro: within_mono)

subsection \<open>Reads over writes\<close>

text \<open>
  A write changes the bytes of its own region only; a read depends on the bytes of its
  region only. Everything else about separation follows from these two groups.
\<close>

lemma store8_other [mem_simps]: "b \<noteq> a \<Longrightarrow> store8 m a v b = m b"
  by (simp add: store8_def)

lemma store16_other: "\<not> within a 2 b \<Longrightarrow> store16 m a v b = m b"
  by (simp add: store16_def within_2)

lemma store32_other: "\<not> within a 4 b \<Longrightarrow> store32 m a v b = m b"
  by (simp add: store32_def within_4)

lemma load16_cong: "(\<And>c. within a 2 c \<Longrightarrow> m c = m' c) \<Longrightarrow> load16 m a = load16 m' a"
  by (simp add: load16_def within_2)

lemma load32_cong: "(\<And>c. within a 4 c \<Longrightarrow> m c = m' c) \<Longrightarrow> load32 m a = load32 m' a"
  by (simp add: load32_def within_4)

lemma load32_field:
  assumes "\<And>a. within n l a \<Longrightarrow> m' a = m a" "k + 4 \<le> l" "l < 4294967296"
  shows "load32 m' (n + of_nat k) = load32 m (n + of_nat k)"
  using assms within_field [OF _ assms(2,3)] by (intro load32_cong) blast

lemma load8_store8 [mem_simps]: "load8 (store8 m a v) b = (if b = a then v else load8 m b)"
  by (simp add: load8_def store8_def)

lemma load16_store16_same [mem_simps]: "load16 (store16 m a v) a = v"
  unfolding load16_def store16_def
  by (rule bit_word_eqI) (auto simp: bit_simps not_le not_less split: if_splits)

lemma load32_store32_same [mem_simps]: "load32 (store32 m a v) a = v"
proof (rule bit_word_eqI)
  fix n assume "n < LENGTH(32)"
  then consider "n < 8" | "8 \<le> n" "n < 16" | "16 \<le> n" "n < 24" | "24 \<le> n" "n < 32"
    by fastforce
  then show "bit (load32 (store32 m a v) a) n = bit v n"
    by cases (auto simp: load32_def store32_def bit_simps)
qed

lemma load32_store32_apart [mem_simps]:
  "apart a 4 b 4 \<Longrightarrow> load32 (store32 m a v) b = load32 m b"
  by (rule load32_cong) (meson apart_within store32_other)

lemma load32_store8_apart [mem_simps]:
  "apart a 1 b 4 \<Longrightarrow> load32 (store8 m a v) b = load32 m b"
  by (rule load32_cong) (metis apart_within store8_other within_self zero_less_one)

lemma load8_store32_apart [mem_simps]:
  "apart a 4 b 1 \<Longrightarrow> load8 (store32 m a v) b = load8 m b"
  unfolding load8_def
  by (rule store32_other) (meson apart_sym apart_within within_self zero_less_one)

text \<open>Two accesses relative to one base: the offsets decide.\<close>

lemma apart_same_base [mem_simps]:
  "apart (a + x) n (a + y) k \<longleftrightarrow> apart x n y k"
  "apart a n (a + y) k \<longleftrightarrow> apart 0 n y k"
  "apart (a + x) n a k \<longleftrightarrow> apart x n 0 k"
  by (simp_all add: apart_def)

subsection \<open>The bytes of a value\<close>

lemma load32_bytes:
  "ucast (load32 m a) = m a"
  "ucast (drop_bit 8 (load32 m a)) = m (a + 1)"
  "ucast (drop_bit 16 (load32 m a)) = m (a + 2)"
  "ucast (drop_bit 24 (load32 m a)) = m (a + 3)"
  subgoal by (rule bit_word_eqI) (auto simp: load32_def bit_simps dest: bit_imp_le_length)
  subgoal by (rule bit_word_eqI) (auto simp: load32_def bit_simps dest: bit_imp_le_length)
  subgoal by (rule bit_word_eqI) (auto simp: load32_def bit_simps dest: bit_imp_le_length)
  subgoal by (rule bit_word_eqI) (auto simp: load32_def bit_simps dest: bit_imp_le_length)
  done

lemma load16_bytes:
  "ucast (load16 m a) = m a"
  "ucast (drop_bit 8 (load16 m a)) = m (a + 1)"
  subgoal by (rule bit_word_eqI) (auto simp: load16_def bit_simps dest: bit_imp_le_length)
  subgoal by (rule bit_word_eqI) (auto simp: load16_def bit_simps dest: bit_imp_le_length)
  done

lemma load64_words:
  "ucast (load64 m a) = load32 m a"
  "ucast (drop_bit 32 (load64 m a)) = load32 m (a + 4)"
  subgoal by (rule bit_word_eqI) (auto simp: load64_def bit_simps dest: bit_imp_le_length)
  subgoal by (rule bit_word_eqI) (auto simp: load64_def bit_simps dest: bit_imp_le_length)
  done

text \<open>Storing what was loaded copies the bytes, whatever the width.\<close>

lemma store16_load16:
  "store16 m a (load16 m' b) = (\<lambda>c. if within a 2 c then m' (b + (c - a)) else m c)"
  by (rule ext) (auto simp: store16_def load16_bytes within_2)

lemma store32_load32:
  "store32 m a (load32 m' b) = (\<lambda>c. if within a 4 c then m' (b + (c - a)) else m c)"
  by (rule ext) (auto simp: store32_def load32_bytes within_4)

lemma store64_load64:
  "store64 m a (load64 m' b) = (\<lambda>c. if within a 8 c then m' (b + (c - a)) else m c)"
  by (rule ext) (auto simp: store64_def load64_words store32_load32 within_8 algebra_simps)

end
