(* ===== verification/Libc_Memory.thy ===== *)
theory Libc_Memory
  imports Machine_Memory
begin

text \<open>
  \<open>memcpy\<close> and \<open>memset\<close> of \<open>kernel/libc/memory.c\<close>. Both loops choose the width of the next
  access from the number of bytes left; the model keeps the loop variables \<open>i\<close> (an \<open>int\<close> in C, a natural
  number here, which is the same for lengths up to \<open>2 ^ 31 - 1\<close>; beyond, the C code has no defined result) and \<open>sz\<close> (an unsigned word) and the choice of the width. The lemmas show
  what the loops compute byte for byte.
\<close>

subsection \<open>The code\<close>

function memcpy_loop :: "u32 \<Rightarrow> u32 \<Rightarrow> nat \<Rightarrow> u32 \<Rightarrow> nat \<Rightarrow> mem \<Rightarrow> mem" where
  "memcpy_loop dest src n sz i m =
     (if i < n then
        (if sz mod 8 = 0 then
           memcpy_loop dest src n (sz - 8) (i + 8)
             (store64 m (dest + of_nat i) (load64 m (src + of_nat i)))
         else if sz mod 4 = 0 then
           memcpy_loop dest src n (sz - 4) (i + 4)
             (store32 m (dest + of_nat i) (load32 m (src + of_nat i)))
         else if sz mod 2 = 0 then
           memcpy_loop dest src n (sz - 2) (i + 2)
             (store16 m (dest + of_nat i) (load16 m (src + of_nat i)))
         else
           memcpy_loop dest src n (sz - 1) (i + 1)
             (store8 m (dest + of_nat i) (load8 m (src + of_nat i))))
      else m)"
  by pat_completeness auto
termination
  by (relation "measure (\<lambda>(dest, src, n, sz, i, m). n - i)") auto

declare memcpy_loop.simps [simp del]

definition memcpy :: "u32 \<Rightarrow> u32 \<Rightarrow> u32 \<Rightarrow> mem \<Rightarrow> u32 \<times> mem" where
  "memcpy dest src n m =
     (if n \<le> 0 then (dest, m) else (dest, memcpy_loop dest src (unat n) n 0 m))"

text \<open>\<open>c\<close> is an \<open>int\<close>: the cast to \<open>uint64_t\<close> extends its sign, the narrower casts truncate.\<close>

function memset_loop :: "u32 \<Rightarrow> u32 \<Rightarrow> nat \<Rightarrow> u32 \<Rightarrow> nat \<Rightarrow> mem \<Rightarrow> mem" where
  "memset_loop dest c n sz i m =
     (if i < n then
        (if sz mod 8 = 0 then
           memset_loop dest c n (sz - 8) (i + 8) (store64 m (dest + of_nat i) (scast c))
         else if sz mod 4 = 0 then
           memset_loop dest c n (sz - 4) (i + 4) (store32 m (dest + of_nat i) c)
         else if sz mod 2 = 0 then
           memset_loop dest c n (sz - 2) (i + 2) (store16 m (dest + of_nat i) (ucast c))
         else
           memset_loop dest c n (sz - 1) (i + 1) (store8 m (dest + of_nat i) (ucast c)))
      else m)"
  by pat_completeness auto
termination
  by (relation "measure (\<lambda>(dest, c, n, sz, i, m). n - i)") auto

declare memset_loop.simps [simp del]

definition memset :: "u32 \<Rightarrow> u32 \<Rightarrow> u32 \<Rightarrow> mem \<Rightarrow> u32 \<times> mem" where
  "memset dest c n m =
     (if n \<le> 0 then (dest, m) else (dest, memset_loop dest c (unat n) n 0 m))"

subsection \<open>Copying and filling, byte by byte\<close>

text \<open>The specifications: the bytes of a region copied from another, or all set to one value.\<close>

definition copy_bytes :: "u32 \<Rightarrow> u32 \<Rightarrow> nat \<Rightarrow> mem \<Rightarrow> mem" where
  "copy_bytes dest src n m = (\<lambda>a. if within dest n a then m (src + (a - dest)) else m a)"

definition fill_bytes :: "u32 \<Rightarrow> nat \<Rightarrow> u8 \<Rightarrow> mem \<Rightarrow> mem" where
  "fill_bytes dest n v m = (\<lambda>a. if within dest n a then v else m a)"

lemma copy_bytes_0 [simp]: "copy_bytes dest src 0 m = m"
  by (simp add: copy_bytes_def)

lemma fill_bytes_0 [simp]: "fill_bytes dest 0 v m = m"
  by (simp add: fill_bytes_def)

lemma copy_bytes_add:
  assumes "i + k \<le> 4294967296"
  shows "copy_bytes dest src (i + k) m a =
    (if within (dest + of_nat i) k a then m (src + (a - dest)) else copy_bytes dest src i m a)"
  using within_split [OF assms] by (auto simp: copy_bytes_def)

lemma fill_bytes_add:
  assumes "i + k \<le> 4294967296"
  shows "fill_bytes dest (i + k) v m a =
    (if within (dest + of_nat i) k a then v else fill_bytes dest i v m a)"
  using within_split [OF assms] by (auto simp: fill_bytes_def)

text \<open>One access of width \<open>k\<close> advances the copy by \<open>k\<close> bytes.\<close>

lemma copy_step:
  assumes ap: "apart dest n src n" and k: "i + k \<le> n" "n \<le> 4294967296"
  shows "(\<lambda>c. if within (dest + of_nat i) k c
               then copy_bytes dest src i m (src + of_nat i + (c - (dest + of_nat i)))
               else copy_bytes dest src i m c) = copy_bytes dest src (i + k) m"
proof (rule ext)
  fix c
  have ik: "i + k \<le> 4294967296" using k by simp
  have "copy_bytes dest src i m (src + (c - dest)) = m (src + (c - dest))"
    if "within (dest + of_nat i) k c"
  proof -
    have "within dest n c" using that ik k(1) within_split [OF ik] within_mono by blast
    then have "within src n (src + (c - dest))" by (simp add: within_def)
    then have "\<not> within dest n (src + (c - dest))" using ap by (meson apart_iff)
    then have "\<not> within dest i (src + (c - dest))" using k within_mono by fastforce
    then show ?thesis by (simp add: copy_bytes_def)
  qed
  then show "(if within (dest + of_nat i) k c
               then copy_bytes dest src i m (src + of_nat i + (c - (dest + of_nat i)))
               else copy_bytes dest src i m c) = copy_bytes dest src (i + k) m c"
    by (simp add: copy_bytes_add [OF ik])
qed

text \<open>When the number of bytes left is a multiple of the width, an access of that width fits.\<close>

lemma chunk_fits:
  assumes "i < n" "n < 4294967296" "(of_nat (n - i) :: u32) mod w = 0"
  shows "i + unat w \<le> n"
proof -
  have "unat ((of_nat (n - i) :: u32) mod w) = (n - i) mod unat w"
    using assms(2) by (simp only: unat_mod_distrib) (simp add: unat_of_nat_small)
  then have "unat w dvd n - i" using assms(3) by (simp add: mod_eq_0_iff_dvd)
  then have "unat w \<le> n - i" using assms(1) by (simp add: dvd_imp_le)
  then show ?thesis using assms(1) by linarith
qed

lemma memcpy_loop_copies:
  assumes ap: "apart dest n src n" and n: "n < 4294967296"
  shows "i \<le> n \<Longrightarrow>
    memcpy_loop dest src n (of_nat (n - i)) i (copy_bytes dest src i m) = copy_bytes dest src n m"
proof (induction "n - i" arbitrary: i rule: less_induct)
  case less
  let ?m = "copy_bytes dest src i m"
  define sz :: u32 where "sz = of_nat (n - i)"
  have step: "memcpy_loop dest src n (sz - of_nat k) (i + k) (copy_bytes dest src (i + k) m)
      = copy_bytes dest src n m" if "0 < k" "i + k \<le> n" for k
    using less.hyps [of "i + k"] that by (simp add: sz_def diff_diff_eq)
  have copy: "(\<lambda>c. if within (dest + of_nat i) k c
         then ?m (src + of_nat i + (c - (dest + of_nat i))) else ?m c)
      = copy_bytes dest src (i + k) m" if "i + k \<le> n" for k
    using copy_step [OF ap that] n by simp
  have fits: "i + unat w \<le> n" if "i < n" "sz mod w = 0" for w
    using chunk_fits [OF that(1) n] that(2) by (simp only: sz_def)
  have "memcpy_loop dest src n sz i ?m = copy_bytes dest src n m"
  proof (cases "i < n")
    case False
    then show ?thesis using less.prems by (simp add: memcpy_loop.simps)
  next
    case True
    consider "sz mod 8 = 0" | "sz mod 8 \<noteq> 0" "sz mod 4 = 0"
      | "sz mod 8 \<noteq> 0" "sz mod 4 \<noteq> 0" "sz mod 2 = 0"
      | "sz mod 8 \<noteq> 0" "sz mod 4 \<noteq> 0" "sz mod 2 \<noteq> 0" by blast
    then show ?thesis
    proof cases
      case 1
      with fits [OF True 1] copy [of 8] step [of 8] True show ?thesis
        by (simp add: memcpy_loop.simps [of dest src n sz i] store64_load64)
    next
      case 2
      with fits [OF True 2(2)] copy [of 4] step [of 4] True show ?thesis
        by (simp add: memcpy_loop.simps [of dest src n sz i] store32_load32)
    next
      case 3
      with fits [OF True 3(3)] copy [of 2] step [of 2] True show ?thesis
        by (simp add: memcpy_loop.simps [of dest src n sz i] store16_load16)
    next
      case 4
      have "store8 ?m (dest + of_nat i) (load8 ?m (src + of_nat i)) x = copy_bytes dest src (i + 1) m x"
        for x
        using fun_cong [OF copy [of 1, unfolded within_1], of x] True
        by (cases "x = dest + of_nat i") (simp_all add: store8_def load8_def)
      then have "store8 ?m (dest + of_nat i) (load8 ?m (src + of_nat i)) = copy_bytes dest src (i + 1) m"
        by (rule ext)
      with 4 step [of 1] True show ?thesis
        by (simp add: memcpy_loop.simps [of dest src n sz i])
    qed
  qed
  then show ?case by (simp only: sz_def)
qed

lemma memcpy_copies:
  assumes "apart dest (unat n) src (unat n)"
  shows "memcpy dest src n m = (dest, copy_bytes dest src (unat n) m)"
proof (cases "n = 0")
  case False
  then show ?thesis
    using memcpy_loop_copies [OF assms, of 0 m] by (simp add: memcpy_def)
qed (simp add: memcpy_def)

lemma store32_zero: "store32 m a 0 = (\<lambda>c. if within a 4 c then 0 else m c)"
  by (rule ext) (auto simp: store32_def within_4)

lemma store16_zero: "store16 m a 0 = (\<lambda>c. if within a 2 c then 0 else m c)"
  by (rule ext) (auto simp: store16_def within_2)

lemma store64_zero: "store64 m a 0 = (\<lambda>c. if within a 8 c then 0 else m c)"
  by (rule ext) (auto simp: store64_def store32_zero within_8)

lemma store8_zero: "store8 m a 0 = (\<lambda>c. if within a 1 c then 0 else m c)"
  by (rule ext) (auto simp: store8_def within_1 [simplified])

lemmas store_zero = store64_zero store32_zero store16_zero store8_zero

lemma memset_loop_zero:
  assumes n: "n < 4294967296"
  shows "i \<le> n \<Longrightarrow>
    memset_loop dest 0 n (of_nat (n - i)) i (fill_bytes dest i 0 m) = fill_bytes dest n 0 m"
proof (induction "n - i" arbitrary: i rule: less_induct)
  case less
  let ?m = "fill_bytes dest i 0 m"
  define sz :: u32 where "sz = of_nat (n - i)"
  have step: "memset_loop dest 0 n (sz - of_nat k) (i + k)
         (\<lambda>c. if within (dest + of_nat i) k c then 0 else ?m c) = fill_bytes dest n 0 m"
    if "0 < k" "i + k \<le> n" for k
  proof -
    have "(\<lambda>c. if within (dest + of_nat i) k c then 0 else ?m c) = fill_bytes dest (i + k) 0 m"
      using that n by (simp add: fill_bytes_add fun_eq_iff)
    then show ?thesis using less.hyps [of "i + k"] that by (simp add: sz_def diff_diff_eq)
  qed
  have fits: "i + unat w \<le> n" if "i < n" "sz mod w = 0" for w
    using chunk_fits [OF that(1) n] that(2) by (simp only: sz_def)
  have "memset_loop dest 0 n sz i ?m = fill_bytes dest n 0 m"
  proof (cases "i < n")
    case False
    then show ?thesis using less.prems by (simp add: memset_loop.simps)
  next
    case True
    note unfold = memset_loop.simps [of dest 0 n sz i] store_zero
    show ?thesis
      using step [of 8] step [of 4] step [of 2] step [of 1] True
        fits [OF True, of 8] fits [OF True, of 4] fits [OF True, of 2]
      by (simp add: unfold)
  qed
  then show ?case by (simp only: sz_def)
qed

lemma memset_zero_fills:
  "memset dest 0 n m = (dest, fill_bytes dest (unat n) 0 m)"
proof (cases "n = 0")
  case False
  then show ?thesis using memset_loop_zero [of "unat n" 0 dest m] by (simp add: memset_def)
qed (simp add: memset_def)

text \<open>
  With a nonzero value each access stores the value itself, not its low byte repeated: for a
  multiple of eight bytes, every eighth byte is the low byte and the others are the higher
  bytes of the sign-extended \<open>int\<close>.
\<close>

lemma store64_bytes:
  "store64 m a v = (\<lambda>c. if within a 8 c then ucast (drop_bit (8 * unat (c - a)) v) else m c)"
proof (rule ext)
  fix c
  show "store64 m a v c = (if within a 8 c then ucast (drop_bit (8 * unat (c - a)) v) else m c)"
  proof (cases "within a 8 c")
    case False
    then show ?thesis by (simp add: store64_def store32_other within_8)
  next
    case True
    have byte: "ucast (drop_bit k (ucast (drop_bit 32 v) :: u32)) = (ucast (drop_bit (k + 32) v) :: u8)"
      "ucast (drop_bit k (ucast v :: u32)) = (ucast (drop_bit k v) :: u8)" if "k \<le> 24" for k
      using that by (rule_tac [!] bit_word_eqI) (auto simp: bit_simps ac_simps)
    show ?thesis
      using True byte [of 0] byte [of 8] byte [of 16] byte [of 24]
      by (auto simp: within_8 within_4 store64_def store32_def)
  qed
qed

definition pattern_bytes :: "u32 \<Rightarrow> nat \<Rightarrow> u32 \<Rightarrow> mem \<Rightarrow> mem" where
  "pattern_bytes dest n c m = (\<lambda>a. if within dest n a
     then ucast (drop_bit (8 * (unat (a - dest) mod 8)) (scast c :: u64)) else m a)"

lemma pattern_step:
  assumes "8 dvd i" "i + 8 \<le> 4294967296"
  shows "store64 (pattern_bytes dest i c m) (dest + of_nat i) (scast c)
    = pattern_bytes dest (i + 8) c m"
proof (rule ext)
  fix a
  have "unat (a - (dest + of_nat i)) = unat (a - dest) mod 8" if w: "within (dest + of_nat i) 8 a"
  proof -
    obtain j where j: "j < 8" "a = dest + of_nat i + of_nat j" using w by (rule withinE)
    have "a - dest = of_nat (i + j)" using j by simp
    then have "unat (a - dest) = i + j" using j assms by (simp only: unat_of_nat_small)
    moreover have "unat (a - (dest + of_nat i)) = j" using j by (simp add: unat_of_nat_small)
    moreover have "(i + j) mod 8 = j" using assms(1) j(1) by (auto elim: dvdE)
    ultimately show ?thesis by simp
  qed
  then show "store64 (pattern_bytes dest i c m) (dest + of_nat i) (scast c) a
      = pattern_bytes dest (i + 8) c m a"
    using within_split [OF assms(2)] by (auto simp: store64_bytes pattern_bytes_def)
qed

lemma memset_loop_pattern:
  assumes n: "n < 4294967296" "8 dvd n"
  shows "i \<le> n \<Longrightarrow> 8 dvd i \<Longrightarrow>
    memset_loop dest c n (of_nat (n - i)) i (pattern_bytes dest i c m) = pattern_bytes dest n c m"
proof (induction "n - i" arbitrary: i rule: less_induct)
  case less
  define sz :: u32 where "sz = of_nat (n - i)"
  have "memset_loop dest c n sz i (pattern_bytes dest i c m) = pattern_bytes dest n c m"
  proof (cases "i < n")
    case False
    then show ?thesis using less.prems by (simp add: memset_loop.simps)
  next
    case True
    have "8 dvd n - i" using n(2) less.prems by (simp add: dvd_diff_nat)
    then have i8: "i + 8 \<le> n" using True by (auto dest: dvd_imp_le)
    have "unat (sz mod 8) = 0"
      unfolding sz_def using \<open>8 dvd n - i\<close> n
      by (simp only: unat_mod_distrib) (simp add: unat_of_nat_small)
    then have "sz mod 8 = 0" by (simp only: unat_eq_zero)
    moreover have "memset_loop dest c n (sz - 8) (i + 8) (pattern_bytes dest (i + 8) c m)
        = pattern_bytes dest n c m"
      using less.hyps [of "i + 8"] less.prems i8 True by (simp add: sz_def diff_diff_eq)
    ultimately show ?thesis
      using less.prems i8 True n(1) pattern_step [of i dest c m]
      by (simp add: memset_loop.simps [of dest c n sz i])
  qed
  then show ?case by (simp only: sz_def)
qed

lemma memset_pattern:
  assumes "8 dvd unat n"
  shows "memset dest c n m = (dest, pattern_bytes dest (unat n) c m)"
proof (cases "n = 0")
  case False
  have "pattern_bytes dest 0 c m = m" by (simp add: pattern_bytes_def)
  then show ?thesis
    using False memset_loop_pattern [of "unat n" 0 dest c m] assms by (simp add: memset_def)
qed (simp add: memset_def pattern_bytes_def)

subsection \<open>Properties\<close>

text \<open>C27: \<open>memcpy\<close> between regions that do not overlap copies byte for byte, whatever widths its
  loop chooses, changes nothing else, and returns its destination.\<close>

theorem memcpy_copies_bytes:
  assumes "apart dest (unat n) src (unat n)"
  shows "memcpy dest src n m = (dest, copy_bytes dest src (unat n) m)"
  by (rule memcpy_copies [OF assms])

theorem memcpy_copies_bytes_witness:
  "snd (memcpy 0x2000 0x1000 7 (\<lambda>a. ucast a)) 0x2003 = 3"
  using memcpy_copies_bytes [of "0x2000" 7 "0x1000"]
  by (simp add: apart_def copy_bytes_def within_def)

text \<open>C33: \<open>memset\<close> is a byte fill for the value \<open>0\<close> only: with \<open>0\<close> it clears exactly the
  region; for a length that is a multiple of eight it writes the sign-extended \<open>int\<close> itself
  into each eight-byte group, not its low byte everywhere.\<close>

theorem memset_clears_but_does_not_fill:
  "memset dest 0 n m = (dest, fill_bytes dest (unat n) 0 m)
   \<and> (8 dvd unat n \<longrightarrow> memset dest c n m = (dest, pattern_bytes dest (unat n) c m))"
  by (simp add: memset_zero_fills memset_pattern)

theorem memset_clears_but_does_not_fill_witness:
  "snd (memset 0x1000 0x20 8 (\<lambda>_. 1)) 0x1000 = 0x20 \<and> snd (memset 0x1000 0x20 8 (\<lambda>_. 1)) 0x1001 = 0"
  using memset_clears_but_does_not_fill [of "0x1000" 8 "\<lambda>_. 1" "0x20"]
  by (simp add: pattern_bytes_def within_def signed_take_bit_eq_if_positive)

end
