(* ===== verification/Word_Array.thy ===== *)
theory Word_Array
  imports Machine_Memory
begin

text \<open>
  Arrays of 32-bit words in memory, seen as lists: what a store to one slot does to the list,
  that the slots do not overlap, and the frame predicate \<open>only_changes base n m m'\<close>: the two
  memories agree outside the \<open>n\<close> bytes from \<open>base\<close>. The ordered array and the frame bitmap
  share these facts.
\<close>

subsection \<open>Words in memory as a list\<close>

definition array_list :: "mem \<Rightarrow> u32 \<Rightarrow> nat \<Rightarrow> u32 list" where
  "array_list m base n = map (\<lambda>i. load32 m (base + 4 * of_nat i)) [0..<n]"

lemma length_array_list [simp]: "length (array_list m base n) = n"
  by (simp add: array_list_def)

lemma array_list_nth [simp]: "i < n \<Longrightarrow> array_list m base n ! i = load32 m (base + 4 * of_nat i)"
  by (simp add: array_list_def)

lemma take_array_list: "k \<le> n \<Longrightarrow> take k (array_list m base n) = array_list m base k"
  by (simp add: array_list_def take_map)

lemma unat_slot: "unat base + 4 * n \<le> 4294967296 \<Longrightarrow> i < n \<Longrightarrow>
    unat (base + 4 * of_nat i :: u32) = unat base + 4 * i"
  using unat_add_of_nat [of base "4 * i"] by simp

lemma slots_apart:
  assumes "unat base + 4 * n \<le> 4294967296" "i < n" "k < n" "i \<noteq> k"
  shows "apart (base + 4 * of_nat i) 4 (base + 4 * of_nat k) 4"
proof (cases "i < k")
  case True
  then show ?thesis
    using assms by (intro apart_nat(1)) (simp_all add: unat_slot [OF assms(1)])
next
  case False
  then show ?thesis
    using assms by (intro apart_nat(2)) (simp_all add: unat_slot [OF assms(1)])
qed

lemma slot_within:
  assumes "unat base + 4 * n \<le> 4294967296" "i < n" "within (base + 4 * of_nat i) 4 c"
  shows "within base (4 * n) c"
proof -
  obtain j where j: "j < 4" "c = base + 4 * of_nat i + of_nat j" using assms(3) by (rule withinE)
  then have c: "c = base + of_nat (4 * i + j)" by simp
  show ?thesis unfolding c by (rule within_add_of_nat) (use assms(1,2) j(1) in auto)
qed

lemma array_list_store:
  assumes "unat base + 4 * n \<le> 4294967296" "k < n"
  shows "array_list (store32 m (base + 4 * of_nat k) v) base n = (array_list m base n)[k := v]"
  unfolding array_list_def
  by (rule upt_map_update [OF assms(2)])
    (auto simp: load32_store32_same load32_store32_apart slots_apart [OF assms])

lemma array_list_cong:
  assumes "unat base + 4 * n \<le> 4294967296" "\<And>c. within base (4 * n) c \<Longrightarrow> m c = m' c"
  shows "array_list m base n = array_list m' base n"
  unfolding array_list_def
  by (auto intro!: load32_cong assms(2) dest: slot_within [OF assms(1)])

subsection \<open>What a write leaves alone\<close>

definition only_changes :: "u32 \<Rightarrow> nat \<Rightarrow> mem \<Rightarrow> mem \<Rightarrow> bool" where
  "only_changes base n m m' \<longleftrightarrow> (\<forall>c. \<not> within base n c \<longrightarrow> m' c = m c)"

lemma only_changes_refl [simp]: "only_changes base n m m"
  by (simp add: only_changes_def)

lemma only_changes_trans [trans]:
  "only_changes base n m m' \<Longrightarrow> only_changes base n m' m'' \<Longrightarrow> only_changes base n m m''"
  by (simp add: only_changes_def)

lemma only_changes_load32:
  "only_changes base n m m' \<Longrightarrow> apart base n a 4 \<Longrightarrow> load32 m' a = load32 m a"
  by (rule load32_cong) (auto simp: only_changes_def apart_iff)

lemma slot_store_only_changes:
  assumes "unat base + 4 * cap \<le> 4294967296" "k < cap"
  shows "only_changes base (4 * cap) m (store32 m (base + 4 * of_nat k) v)"
  using slot_within [OF assms] by (auto simp: only_changes_def intro!: store32_other)

end
