(* ===== verification/Ordered_Array.thy ===== *)
theory Ordered_Array
  imports Libc_Memory Word_Array "HOL-Library.Multiset"
begin

text \<open>
  The ordered array of \<open>kernel/libc/data_structures/ordered_array.c\<close>: a structure of four
  words in memory (\<open>array\<close>, \<open>size\<close>, \<open>max_size\<close>, \<open>less_than\<close>) and the pointers it orders, also
  in memory. The operations are the code's loops over that memory; the comparison the
  structure's function pointer names is an argument. The lemmas relate them to lists:
  insertion puts the item before the first element that is not smaller, removal drops the
  element at the index, and nothing else in memory changes.
\<close>

subsection \<open>The structure\<close>

record ordered_array =
  oa_array :: u32
  oa_size :: u32
  oa_max_size :: u32
  oa_less_than :: u32

definition oa_array_at :: "mem \<Rightarrow> u32 \<Rightarrow> u32" where
  "oa_array_at m arr = load32 m arr"

definition oa_size_at :: "mem \<Rightarrow> u32 \<Rightarrow> u32" where
  "oa_size_at m arr = load32 m (arr + 4)"

definition oa_max_size_at :: "mem \<Rightarrow> u32 \<Rightarrow> u32" where
  "oa_max_size_at m arr = load32 m (arr + 8)"

definition oa_less_than_at :: "mem \<Rightarrow> u32 \<Rightarrow> u32" where
  "oa_less_than_at m arr = load32 m (arr + 12)"

text \<open>Assigning a structure returned by value writes its four words.\<close>

definition put_ordered_array :: "mem \<Rightarrow> u32 \<Rightarrow> ordered_array \<Rightarrow> mem" where
  "put_ordered_array m arr oa =
     store32 (store32 (store32 (store32 m arr (oa_array oa)) (arr + 4) (oa_size oa))
       (arr + 8) (oa_max_size oa)) (arr + 12) (oa_less_than oa)"

type_synonym lessthan = "mem \<Rightarrow> u32 \<Rightarrow> u32 \<Rightarrow> u8"

subsection \<open>The operations\<close>

definition standard_lessthan_predicate :: "u32 \<Rightarrow> u32 \<Rightarrow> u32" where
  "standard_lessthan_predicate a b = (if a < b then 1 else 0)"

definition place_ordered_array :: "u32 \<Rightarrow> u32 \<Rightarrow> u32 \<Rightarrow> mem \<Rightarrow> ordered_array \<times> mem" where
  "place_ordered_array addr max_size less_than_fn m =
     (let m = snd (memset addr 0 (max_size * 4) m)
      in (\<lparr>oa_array = addr, oa_size = 0, oa_max_size = max_size, oa_less_than = less_than_fn\<rparr>, m))"

text \<open>The first loop of \<open>insert_ordered_array\<close>: skip the smaller elements.\<close>

function insert_find :: "lessthan \<Rightarrow> u32 \<Rightarrow> u32 \<Rightarrow> mem \<Rightarrow> u32 \<Rightarrow> u32" where
  "insert_find lt item arr m iterator =
     (if iterator < oa_size_at m arr
         \<and> lt m (load32 m (oa_array_at m arr + 4 * iterator)) item \<noteq> 0
      then insert_find lt item arr m (iterator + 1) else iterator)"
  by pat_completeness auto
termination
  by (relation "measure (\<lambda>(lt, item, arr, m, iterator). 4294967296 - unat iterator)")
    (auto intro: counter_decreases)

declare insert_find.simps [simp del]

text \<open>The second loop: move the elements from \<open>iterator\<close> on one place up.\<close>

function insert_shift :: "u32 \<Rightarrow> u32 \<Rightarrow> u32 \<Rightarrow> mem \<Rightarrow> mem" where
  "insert_shift arr iterator tmp m =
     (if iterator < oa_size_at m arr then
        (let iterator' = iterator + 1;
             tmp2 = load32 m (oa_array_at m arr + 4 * iterator')
         in insert_shift arr iterator' tmp2
              (store32 m (oa_array_at m arr + 4 * iterator') tmp))
      else m)"
  by pat_completeness auto
termination
  by (relation "measure (\<lambda>(arr, iterator, tmp, m). 4294967296 - unat iterator)")
    (auto intro: counter_decreases)

declare insert_shift.simps [simp del]

definition insert_ordered_array ::
    "lessthan \<Rightarrow> u32 \<Rightarrow> u32 \<Rightarrow> mem \<times> console_event list \<Rightarrow> mem \<times> console_event list" where
  "insert_ordered_array lt item arr = (\<lambda>(m, out).
     let out = ASSERT ''ordered_array.c'' 42 (oa_less_than_at m arr \<noteq> 0) out;
         iterator = insert_find lt item arr m 0
     in if iterator = oa_size_at m arr then
          (let m = store32 m (oa_array_at m arr + 4 * oa_size_at m arr) item;
               m = store32 m (arr + 4) (oa_size_at m arr + 1)
           in (m, out))
        else
          (let tmp = load32 m (oa_array_at m arr + 4 * iterator);
               m = store32 m (oa_array_at m arr + 4 * iterator) item;
               m = insert_shift arr iterator tmp m;
               m = store32 m (arr + 4) (oa_size_at m arr + 1)
           in (m, out)))"

definition lookup_ordered_array ::
    "u32 \<Rightarrow> u32 \<Rightarrow> mem \<Rightarrow> console_event list \<Rightarrow> u32 \<times> console_event list" where
  "lookup_ordered_array i arr m out =
     (load32 m (oa_array_at m arr + 4 * i),
      ASSERT ''ordered_array.c'' 72 (i < oa_size_at m arr) out)"

function remove_shift :: "u32 \<Rightarrow> u32 \<Rightarrow> mem \<Rightarrow> mem" where
  "remove_shift i arr m =
     (if i < oa_size_at m arr then
        remove_shift (i + 1) arr
          (store32 m (oa_array_at m arr + 4 * i) (load32 m (oa_array_at m arr + 4 * (i + 1))))
      else m)"
  by pat_completeness auto
termination
  by (relation "measure (\<lambda>(i, arr, m). 4294967296 - unat i)")
    (auto intro: counter_decreases)

declare remove_shift.simps [simp del]

definition remove_ordered_array :: "u32 \<Rightarrow> u32 \<Rightarrow> mem \<Rightarrow> mem" where
  "remove_ordered_array i arr m =
     (let m = remove_shift i arr m in store32 m (arr + 4) (oa_size_at m arr - 1))"

subsection \<open>The layout the operations rely on\<close>

text \<open>
  The structure at \<open>arr\<close> names an array at \<open>base\<close> with room for \<open>cap\<close> words, and the two do
  not overlap.
\<close>

definition oa_layout :: "mem \<Rightarrow> u32 \<Rightarrow> u32 \<Rightarrow> nat \<Rightarrow> bool" where
  "oa_layout m arr base cap \<longleftrightarrow>
     oa_array_at m arr = base \<and> unat base + 4 * cap \<le> 4294967296 \<and> apart arr 16 base (4 * cap)"

definition oa_list :: "mem \<Rightarrow> u32 \<Rightarrow> u32 list" where
  "oa_list m arr = array_list m (oa_array_at m arr) (unat (oa_size_at m arr))"

lemma struct_word_within: "off \<le> 12 \<Longrightarrow> within (arr + of_nat off) 4 c \<Longrightarrow> within arr 16 c"
  using within_split [of off 4 arr c] by (auto intro: within_mono)

lemma struct_words_within:
  "within arr 4 c \<Longrightarrow> within arr 16 c" "within (arr + 4) 4 c \<Longrightarrow> within arr 16 c"
  "within (arr + 8) 4 c \<Longrightarrow> within arr 16 c" "within (arr + 12) 4 c \<Longrightarrow> within arr 16 c"
  using struct_word_within [of 0 arr c] struct_word_within [of 4 arr c]
    struct_word_within [of 8 arr c] struct_word_within [of 12 arr c] by simp_all

lemma only_changes_struct:
  assumes "only_changes base n m m'" "apart arr 16 base n"
  shows "oa_array_at m' arr = oa_array_at m arr" "oa_size_at m' arr = oa_size_at m arr"
    "oa_max_size_at m' arr = oa_max_size_at m arr" "oa_less_than_at m' arr = oa_less_than_at m arr"
  unfolding oa_array_at_def oa_size_at_def oa_max_size_at_def oa_less_than_at_def
  using assms struct_words_within
  by (auto intro!: only_changes_load32 [of base n] simp: apart_iff)

lemma oa_layout_only_changes:
  "oa_layout m arr base cap \<Longrightarrow> only_changes base (4 * cap) m m' \<Longrightarrow> oa_layout m' arr base cap"
  by (simp add: oa_layout_def only_changes_struct)

text \<open>Writing the \<open>size\<close> field leaves the array and the other fields alone.\<close>

lemma put_size:
  assumes "oa_layout m arr base cap"
  shows "oa_array_at (store32 m (arr + 4) s) arr = base"
    "oa_size_at (store32 m (arr + 4) s) arr = s"
    "oa_max_size_at (store32 m (arr + 4) s) arr = oa_max_size_at m arr"
    "oa_less_than_at (store32 m (arr + 4) s) arr = oa_less_than_at m arr"
    "n \<le> cap \<Longrightarrow> array_list (store32 m (arr + 4) s) base n = array_list m base n"
proof -
  show "oa_array_at (store32 m (arr + 4) s) arr = base"
    using assms by (simp add: oa_layout_def oa_array_at_def mem_simps apart_def)
  show "n \<le> cap \<Longrightarrow> array_list (store32 m (arr + 4) s) base n = array_list m base n"
  proof (rule array_list_cong)
    fix c assume n: "n \<le> cap" and c: "within base (4 * n) c"
    then have "within base (4 * cap) c" by (auto elim: within_mono)
    then have "\<not> within (arr + 4) 4 c"
      using assms struct_words_within(2) by (auto simp: oa_layout_def apart_iff)
    then show "store32 m (arr + 4) s c = m c" by (rule store32_other)
  qed (use assms in \<open>auto simp: oa_layout_def\<close>)
qed (simp_all add: oa_size_at_def oa_max_size_at_def oa_less_than_at_def mem_simps apart_def)

subsection \<open>What the loops compute\<close>

lemma insert_find_takeWhile:
  assumes "oa_layout m arr base cap" "unat (oa_size_at m arr) \<le> cap"
  shows "iterator \<le> oa_size_at m arr \<Longrightarrow>
    unat (insert_find lt item arr m iterator) = unat iterator
      + length (takeWhile (\<lambda>x. lt m x item \<noteq> 0) (drop (unat iterator) (oa_list m arr)))"
proof (induction lt item arr m iterator rule: insert_find.induct)
  case (1 lt item arr m iterator)
  let ?P = "\<lambda>x. lt m x item \<noteq> 0" and ?xs = "oa_list m arr" and ?i = "unat iterator"
  have len: "length ?xs = unat (oa_size_at m arr)" by (simp add: oa_list_def)
  show ?case
  proof (cases "iterator < oa_size_at m arr")
    case False
    then show ?thesis using "1.prems" len
      by (subst insert_find.simps) (simp add: word_le_nat_alt word_less_nat_alt)
  next
    case True
    then have i: "?i < length ?xs" by (simp add: len word_less_nat_alt)
    then have x: "?xs ! ?i = load32 m (oa_array_at m arr + 4 * iterator)"
      by (simp add: oa_list_def)
    have d: "drop ?i ?xs = ?xs ! ?i # drop (Suc ?i) ?xs" using i by (rule Cons_nth_drop_Suc [symmetric])
    show ?thesis
    proof (cases "?P (?xs ! ?i)")
      case False
      then show ?thesis using x by (subst insert_find.simps) (simp add: d)
    next
      case P: True
      have "iterator + 1 \<le> oa_size_at m arr" using True by (simp add: inc_le)
      then show ?thesis
        using "1.IH" True P x by (subst insert_find.simps) (simp add: d unat_Suc_below)
    qed
  qed
qed

text \<open>
  Moving up: the element at \<open>iterator\<close> stays, \<open>tmp\<close> comes after it, the rest follows, and
  the slack word behind the array takes the last element.
\<close>

lemma shift_list_step:
  assumes "Suc i < length ys"
  shows "take n (take (Suc (Suc i)) (ys[Suc i := x]) @ ys ! Suc i # drop (Suc (Suc i)) (ys[Suc i := x]))
       = take n (take (Suc i) ys @ x # drop (Suc i) ys)"
proof -
  have "take (Suc (Suc i)) (ys[Suc i := x]) = take (Suc i) ys @ [x]"
    using assms by (simp add: take_Suc_conv_app_nth)
  moreover have "ys ! Suc i # drop (Suc (Suc i)) (ys[Suc i := x]) = drop (Suc i) ys"
    using assms by (simp add: Cons_nth_drop_Suc)
  ultimately show ?thesis by simp
qed

lemma insert_shift_list:
  "oa_layout m arr base cap \<Longrightarrow> unat (oa_size_at m arr) < cap \<Longrightarrow> iterator \<le> oa_size_at m arr \<Longrightarrow>
    n = Suc (unat (oa_size_at m arr)) \<Longrightarrow>
    array_list (insert_shift arr iterator tmp m) base n
      = take n (take (Suc (unat iterator)) (array_list m base n)
          @ tmp # drop (Suc (unat iterator)) (array_list m base n))
    \<and> only_changes base (4 * cap) m (insert_shift arr iterator tmp m)"
proof (induction arr iterator tmp m rule: insert_shift.induct)
  case (1 arr iterator tmp m)
  note [simp] = insert_shift.simps [of arr iterator tmp m]
  have base: "oa_array_at m arr = base" "unat base + 4 * cap \<le> 4294967296"
    using "1.prems"(1) by (simp_all add: oa_layout_def)
  show ?case
  proof (cases "iterator < oa_size_at m arr")
    case False
    then have "iterator = oa_size_at m arr" using "1.prems"(3) by simp
    then show ?thesis
      by (simp add: "1.prems"(4) insert_shift.simps [of arr "oa_size_at m arr" tmp m])
  next
    case True
    let ?i = "unat iterator" and ?it = "iterator + 1"
    let ?m = "store32 m (base + 4 * ?it) tmp" and ?ys = "array_list m base n"
    have it: "unat ?it = Suc ?i" using True by (rule unat_Suc_below)
    then have off: "4 * ?it = 4 * of_nat (Suc ?i)" by (simp add: algebra_simps)
    have i: "Suc ?i < n" using True by (simp add: "1.prems"(4) word_less_nat_alt)
    have nc: "n \<le> cap" using "1.prems"(2,4) by simp
    have ch: "only_changes base (4 * cap) m ?m"
      unfolding off by (rule slot_store_only_changes) (use base i nc in auto)
    have lay: "oa_layout ?m arr base cap" by (rule oa_layout_only_changes [OF "1.prems"(1) ch])
    have sz: "oa_size_at ?m arr = oa_size_at m arr"
      using only_changes_struct(2) [OF ch] "1.prems"(1) by (simp add: oa_layout_def)
    have ys: "array_list ?m base n = ?ys[Suc ?i := tmp]"
      unfolding off using base i nc by (intro array_list_store) auto
    have t2: "load32 m (base + 4 * ?it) = ?ys ! Suc ?i"
      unfolding off using i by (simp add: array_list_nth)
    have le: "?it \<le> oa_size_at m arr" using True by (simp add: inc_le)
    note ih = "1.IH" [OF True refl refl, unfolded base, OF lay, unfolded sz,
        OF "1.prems"(2) le "1.prems"(4), unfolded t2 ys it]
    have "length ?ys = n" by simp
    then show ?thesis
      using ih only_changes_trans [OF ch] shift_list_step [of ?i ?ys n tmp] i True base t2
      by (simp add: Let_def)
  qed
qed

lemma insert_at_end: "length ys = Suc n \<Longrightarrow> ys[n := x] = take n ys @ [x]"
  by (simp add: upd_conv_take_nth_drop)

lemma insert_at_index:
  assumes "length ys = Suc n" "k < n"
  shows "take (Suc n) (take (Suc k) (ys[k := x]) @ ys ! k # drop (Suc k) (ys[k := x]))
    = take k ys @ x # drop k (take n ys)"
proof -
  have "take (Suc k) (ys[k := x]) = take k ys @ [x]"
    using assms by (simp add: take_Suc_conv_app_nth)
  moreover have "ys ! k # drop (Suc k) (ys[k := x]) = drop k ys"
    using assms by (simp add: Cons_nth_drop_Suc)
  ultimately show ?thesis using assms by (simp add: drop_take Suc_diff_le)
qed

text \<open>The element is put in its place and the ones behind it move up by one.\<close>

definition inserted_at :: "u32 \<Rightarrow> u32 \<Rightarrow> u32 \<Rightarrow> u32 \<Rightarrow> mem \<Rightarrow> mem" where
  "inserted_at arr base k item m = (if k = oa_size_at m arr then store32 m (base + 4 * k) item
     else insert_shift arr k (load32 m (base + 4 * k)) (store32 m (base + 4 * k) item))"

lemma inserted_at_list:
  assumes lay: "oa_layout m arr base cap" and room: "unat (oa_size_at m arr) < cap" and k: "k \<le> oa_size_at m arr"
  shows "array_list (inserted_at arr base k item m) base (Suc (unat (oa_size_at m arr)))
      = take (unat k) (oa_list m arr) @ item # drop (unat k) (oa_list m arr)"
    and "only_changes base (4 * cap) m (inserted_at arr base k item m)"
proof -
  let ?s = "oa_size_at m arr" and ?m1 = "store32 m (base + 4 * k) item"
  have base: "oa_array_at m arr = base" "unat base + 4 * cap \<le> 4294967296" using lay by (simp_all add: oa_layout_def)
  have kle: "unat k \<le> unat ?s" using k by (simp add: word_le_nat_alt)
  define ys where "ys = array_list m base (Suc (unat ?s))"
  have ys: "take (unat ?s) ys = oa_list m arr" "length ys = Suc (unat ?s)" "length (oa_list m arr) = unat ?s"
    by (simp_all add: ys_def oa_list_def base take_array_list)
  have word: "4 * k = 4 * of_nat (unat k)" by simp
  have ch1: "only_changes base (4 * cap) m ?m1"
    unfolding word by (rule slot_store_only_changes) (use base kle room in auto)
  have lay1: "oa_layout ?m1 arr base cap" by (rule oa_layout_only_changes [OF lay ch1])
  have sz1: "oa_size_at ?m1 arr = ?s" using only_changes_struct(2) [OF ch1] lay by (simp add: oa_layout_def)
  have ys1: "array_list ?m1 base (Suc (unat ?s)) = ys[unat k := item]"
    unfolding word ys_def using base kle room by (intro array_list_store) auto
  note shift = insert_shift_list [OF lay1, of k "Suc (unat ?s)" "load32 m (base + 4 * k)"]
  show "array_list (inserted_at arr base k item m) base (Suc (unat ?s)) = take (unat k) (oa_list m arr) @ item # drop (unat k) (oa_list m arr)"
  proof (cases "k = ?s")
    case True
    then show ?thesis using ys1 ys insert_at_end [OF ys(2), of item] by (simp add: inserted_at_def)
  next
    case False
    then have kl: "unat k < unat ?s" using kle by (metis le_neq_implies_less word_unat_eq_iff)
    have "load32 m (base + 4 * k) = ys ! unat k" unfolding word ys_def using kl by simp
    moreover have "take (unat k) ys = take (unat k) (oa_list m arr)"
      using ys(1) kl by (metis less_imp_le min.absorb1 take_take)
    ultimately show ?thesis
      using shift False room k insert_at_index [OF ys(2) kl, of item] ys(1) by (simp add: inserted_at_def sz1 ys1)
  qed
  show "only_changes base (4 * cap) m (inserted_at arr base k item m)"
    using ch1 shift room k by (auto simp: inserted_at_def sz1 intro: only_changes_trans)
qed

text \<open>\<open>insert_ordered_array\<close> on the list of its elements.\<close>

lemma insert_ordered_array_list:
  assumes lay: "oa_layout m arr base cap" and room: "unat (oa_size_at m arr) < cap"
    and room32: "cap < 4294967296"
    and ins: "insert_ordered_array lt item arr (m, out) = (m', out')"
  defines "xs \<equiv> oa_list m arr"
  shows "oa_list m' arr = takeWhile (\<lambda>x. lt m x item \<noteq> 0) xs @ item # dropWhile (\<lambda>x. lt m x item \<noteq> 0) xs"
    and "unat (oa_size_at m' arr) = Suc (unat (oa_size_at m arr))"
    and "oa_layout m' arr base cap"
    and "oa_max_size_at m' arr = oa_max_size_at m arr"
    and "oa_less_than_at m' arr = oa_less_than_at m arr"
    and "\<not> within base (4 * cap) c \<Longrightarrow> \<not> within (arr + 4) 4 c \<Longrightarrow> m' c = m c"
proof -
  let ?s = "oa_size_at m arr" and ?P = "\<lambda>x. lt m x item \<noteq> 0"
  define k where "k = insert_find lt item arr m 0"
  define ms where "ms = inserted_at arr base k item m"
  have base: "oa_array_at m arr = base" using lay by (simp add: oa_layout_def)
  have k: "unat k = length (takeWhile ?P xs)"
    using insert_find_takeWhile [OF lay less_imp_le [OF room], of 0 lt item] by (simp add: k_def xs_def)
  have "length xs = unat ?s" by (simp add: xs_def oa_list_def)
  then have kle: "k \<le> ?s" using k length_takeWhile_le [of ?P xs] by (simp add: word_le_nat_alt)
  have "take (unat k) xs = takeWhile ?P xs" "drop (unat k) xs = dropWhile ?P xs"
    unfolding k by (rule takeWhile_eq_take [symmetric], rule dropWhile_eq_drop [symmetric])
  then have ms_list: "array_list ms base (Suc (unat ?s)) = takeWhile ?P xs @ item # dropWhile ?P xs"
    using inserted_at_list(1) [OF lay room kle, of item] by (simp add: ms_def xs_def)
  have ch: "only_changes base (4 * cap) m ms" unfolding ms_def by (rule inserted_at_list(2) [OF lay room kle])
  have layms: "oa_layout ms arr base cap" by (rule oa_layout_only_changes [OF lay ch])
  have szms: "oa_size_at ms arr = ?s" "oa_max_size_at ms arr = oa_max_size_at m arr"
    "oa_less_than_at ms arr = oa_less_than_at m arr"
    using only_changes_struct [OF ch] lay by (simp_all add: oa_layout_def)
  have bms: "oa_array_at ms arr = base" using layms by (simp add: oa_layout_def)
  have m': "m' = store32 ms (arr + 4) (?s + 1)"
    using ins szms base by (auto simp: insert_ordered_array_def inserted_at_def ms_def Let_def k_def)
  have s1: "unat (?s + 1) = Suc (unat ?s)"
    using unat_add_nowrap [of ?s 1] room room32 by simp
  note put = put_size [OF layms, where s = "?s + 1", folded m']
  show "unat (oa_size_at m' arr) = Suc (unat ?s)" by (simp add: put s1)
  show "oa_max_size_at m' arr = oa_max_size_at m arr" "oa_less_than_at m' arr = oa_less_than_at m arr"
    by (simp_all add: put szms)
  show "oa_layout m' arr base cap" using layms by (simp add: oa_layout_def put)
  show "oa_list m' arr = takeWhile ?P xs @ item # dropWhile ?P xs"
    using room ms_list by (simp add: oa_list_def put s1)
  show "m' c = m c" if "\<not> within base (4 * cap) c" "\<not> within (arr + 4) 4 c"
    using ch that by (simp add: m' only_changes_def store32_other)
qed

text \<open>
  Removal: the loop copies each later element one place down. Its last step reads the word
  behind the array, which the list that remains does not contain.
\<close>

lemma remove_list_step:
  assumes "Suc i < length xs"
  shows "take (Suc i) (xs[i := xs ! Suc i]) @ drop (Suc (Suc i)) (xs[i := xs ! Suc i])
       = take i xs @ drop (Suc i) xs"
proof -
  have "take (Suc i) (xs[i := xs ! Suc i]) = take i xs @ [xs ! Suc i]"
    using assms by (simp add: take_Suc_conv_app_nth)
  then show ?thesis using assms by (simp add: Cons_nth_drop_Suc)
qed

lemma remove_shift_list:
  "oa_layout m arr base cap \<Longrightarrow> n \<le> cap \<Longrightarrow> unat (oa_size_at m arr) = n \<Longrightarrow> i \<le> oa_size_at m arr \<Longrightarrow>
    array_list (remove_shift i arr m) base (n - 1)
      = take (n - 1) (take (unat i) (array_list m base n) @ drop (Suc (unat i)) (array_list m base n))
    \<and> only_changes base (4 * cap) m (remove_shift i arr m)"
proof (induction i arr m rule: remove_shift.induct)
  case (1 i arr m)
  have base: "oa_array_at m arr = base" "unat base + 4 * cap \<le> 4294967296"
    using "1.prems"(1) by (simp_all add: oa_layout_def)
  have n: "length (array_list m base n) = n" by simp
  show ?case
  proof (cases "i < oa_size_at m arr")
    case False
    then have "unat i = n" using "1.prems"(3,4) by simp
    moreover have "remove_shift i arr m = m" using False by (subst remove_shift.simps) simp
    ultimately show ?thesis by (simp add: take_array_list)
  next
    case True
    let ?i = "unat i"
    have off: "4 * i = 4 * of_nat ?i" "4 * (i + 1) = 4 * of_nat (Suc ?i)" by (simp_all add: algebra_simps)
    have i: "?i < n" using True "1.prems"(3) by (simp add: word_less_nat_alt)
    define m1 where "m1 = store32 m (base + 4 * i) (load32 m (base + 4 * (i + 1)))"
    have ch: "only_changes base (4 * cap) m m1"
      unfolding m1_def off(1) by (rule slot_store_only_changes) (use base i "1.prems"(2) in auto)
    have lay: "oa_layout m1 arr base cap" by (rule oa_layout_only_changes [OF "1.prems"(1) ch])
    have sz: "oa_size_at m1 arr = oa_size_at m arr"
      using only_changes_struct(2) [OF ch] "1.prems"(1) by (simp add: oa_layout_def)
    have xs1: "array_list m1 base n = (array_list m base n)[?i := load32 m (base + 4 * (i + 1))]"
      unfolding m1_def off(1) using base i "1.prems"(2) by (intro array_list_store) auto
    have le: "i + 1 \<le> oa_size_at m arr" using True by (simp add: inc_le)
    note ih = "1.IH" [OF True, unfolded base, folded m1_def, OF lay "1.prems"(2), unfolded sz,
        OF "1.prems"(3) le, unfolded xs1 unat_Suc_below [OF True]]
    have "take (n - 1) (take (Suc ?i) (array_list m1 base n) @ drop (Suc (Suc ?i)) (array_list m1 base n))
        = take (n - 1) (take ?i (array_list m base n) @ drop (Suc ?i) (array_list m base n))"
    proof (cases "Suc ?i < n")
      case True
      then have "load32 m (base + 4 * (i + 1)) = array_list m base n ! Suc ?i"
        unfolding off(2) by (simp add: array_list_nth)
      then show ?thesis using remove_list_step [of ?i "array_list m base n"] True xs1 by simp
    next
      case False
      then have "n = Suc ?i" using i by simp
      then show ?thesis using xs1 by simp
    qed
    moreover have "remove_shift i arr m = remove_shift (i + 1) arr m1"
      using True base by (subst remove_shift.simps) (simp add: m1_def)
    ultimately show ?thesis using ih only_changes_trans [OF ch] by (simp add: xs1)
  qed
qed

lemma remove_ordered_array_list:
  assumes lay: "oa_layout m arr base cap" and cap: "unat (oa_size_at m arr) \<le> cap"
    and i: "i < oa_size_at m arr"
  defines "m' \<equiv> remove_ordered_array i arr m" and "xs \<equiv> oa_list m arr"
  shows "oa_list m' arr = take (unat i) xs @ drop (Suc (unat i)) xs"
    and "unat (oa_size_at m' arr) = unat (oa_size_at m arr) - 1"
    and "oa_layout m' arr base cap"
    and "oa_max_size_at m' arr = oa_max_size_at m arr"
    and "oa_less_than_at m' arr = oa_less_than_at m arr"
    and "\<not> within base (4 * cap) c \<Longrightarrow> \<not> within (arr + 4) 4 c \<Longrightarrow> m' c = m c"
proof -
  let ?s = "oa_size_at m arr" and ?ms = "remove_shift i arr m"
  have base: "oa_array_at m arr = base" using lay by (simp add: oa_layout_def)
  have ms: "array_list ?ms base (unat ?s - 1) = take (unat ?s - 1) (take (unat i) xs @ drop (Suc (unat i)) xs)"
    and ch: "only_changes base (4 * cap) m ?ms"
    using remove_shift_list [OF lay cap refl, of i] i by (simp_all add: xs_def oa_list_def base)
  have layms: "oa_layout ?ms arr base cap" by (rule oa_layout_only_changes [OF lay ch])
  have szms: "oa_size_at ?ms arr = ?s" "oa_max_size_at ?ms arr = oa_max_size_at m arr"
    "oa_less_than_at ?ms arr = oa_less_than_at m arr"
    using only_changes_struct [OF ch] lay by (simp_all add: oa_layout_def)
  have m': "m' = store32 ?ms (arr + 4) (?s - 1)"
    by (simp add: m'_def remove_ordered_array_def szms)
  have pos: "0 < unat ?s" using i by (simp add: word_less_nat_alt)
  then have s1: "unat (?s - 1) = unat ?s - 1" by (simp add: unat_sub_nowrap)
  note put = put_size [OF layms, where s = "?s - 1", folded m']
  show "unat (oa_size_at m' arr) = unat ?s - 1" by (simp add: put s1)
  show "oa_max_size_at m' arr = oa_max_size_at m arr" "oa_less_than_at m' arr = oa_less_than_at m arr"
    by (simp_all add: put szms)
  show "oa_layout m' arr base cap" using layms by (simp add: oa_layout_def put)
  have "length xs = unat ?s" by (simp add: xs_def oa_list_def)
  then have "length (take (unat i) xs @ drop (Suc (unat i)) xs) \<le> unat ?s - 1"
    using i by (simp add: word_less_nat_alt)
  from ms [unfolded take_all [OF this]]
  show "oa_list m' arr = take (unat i) xs @ drop (Suc (unat i)) xs"
    using cap by (simp only: oa_list_def put s1)
  show "m' c = m c" if "\<not> within base (4 * cap) c" "\<not> within (arr + 4) 4 c"
    using ch that by (simp add: m' only_changes_def store32_other)
qed

lemma place_ordered_array_empty:
  assumes "place_ordered_array addr max_size fn m = (oa, m0)" and "m' = put_ordered_array m0 arr oa"
  shows "oa_array_at m' arr = addr" "oa_size_at m' arr = 0" "oa_max_size_at m' arr = max_size"
    "oa_less_than_at m' arr = fn" "oa_list m' arr = []"
    "\<not> within arr 16 c \<Longrightarrow> m' c = fill_bytes addr (unat (max_size * 4)) 0 m c"
proof -
  have m0: "m0 = fill_bytes addr (unat (max_size * 4)) 0 m"
    and oa: "oa = \<lparr>oa_array = addr, oa_size = 0, oa_max_size = max_size, oa_less_than = fn\<rparr>"
    using assms(1) by (simp_all add: place_ordered_array_def memset_zero_fills Let_def)
  show "oa_array_at m' arr = addr" "oa_size_at m' arr = 0" "oa_max_size_at m' arr = max_size"
    "oa_less_than_at m' arr = fn"
    by (simp_all add: assms(2) oa put_ordered_array_def oa_array_at_def oa_size_at_def
        oa_max_size_at_def oa_less_than_at_def mem_simps apart_def)
  then show "oa_list m' arr = []" by (simp add: oa_list_def array_list_def)
  show "m' c = fill_bytes addr (unat (max_size * 4)) 0 m c" if "\<not> within arr 16 c"
  proof -
    have "\<not> within arr 4 c" "\<not> within (arr + 4) 4 c" "\<not> within (arr + 8) 4 c" "\<not> within (arr + 12) 4 c"
      using that struct_words_within by auto
    then show ?thesis by (simp add: assms(2) put_ordered_array_def store32_other m0)
  qed
qed

subsection \<open>The interface: an index kept in the order of a key\<close>

text \<open>
  What a client relies on: insertion places the item before the first element that is not
  smaller, deletion drops the element at a position. Everything about the contents and the
  order follows from these laws.
\<close>

locale ordered_index =
  fixes elems :: "'s \<Rightarrow> 'a list"
    and ok :: "'s \<Rightarrow> bool"
    and room :: "'s \<Rightarrow> bool"
    and smaller :: "'s \<Rightarrow> 'a \<Rightarrow> 'a \<Rightarrow> bool"
    and ins :: "'a \<Rightarrow> 's \<Rightarrow> 's"
    and del :: "nat \<Rightarrow> 's \<Rightarrow> 's"
  assumes elems_ins: "ok s \<Longrightarrow> room s \<Longrightarrow>
      elems (ins x s) = takeWhile (\<lambda>y. smaller s y x) (elems s) @ x # dropWhile (\<lambda>y. smaller s y x) (elems s)"
    and ok_ins: "ok s \<Longrightarrow> room s \<Longrightarrow> ok (ins x s)"
    and elems_del: "ok s \<Longrightarrow> i < length (elems s) \<Longrightarrow>
      elems (del i s) = take i (elems s) @ drop (Suc i) (elems s)"
    and ok_del: "ok s \<Longrightarrow> i < length (elems s) \<Longrightarrow> ok (del i s)"
begin

lemma mset_ins: "ok s \<Longrightarrow> room s \<Longrightarrow> mset (elems (ins x s)) = add_mset x (mset (elems s))"
proof -
  assume "ok s" "room s"
  then have "mset (elems (ins x s)) = add_mset x (mset (takeWhile (\<lambda>y. smaller s y x) (elems s)
      @ dropWhile (\<lambda>y. smaller s y x) (elems s)))"
    by (simp add: elems_ins del: takeWhile_dropWhile_id)
  then show ?thesis by (simp only: takeWhile_dropWhile_id)
qed

lemma mset_del:
  assumes "ok s" "i < length (elems s)"
  shows "add_mset (elems s ! i) (mset (elems (del i s))) = mset (elems s)"
proof -
  have "mset (elems s) = mset (take i (elems s) @ elems s ! i # drop (Suc i) (elems s))"
    using assms(2) by (simp add: Cons_nth_drop_Suc)
  then show ?thesis by (simp add: elems_del [OF assms])
qed

lemma sorted_ins:
  fixes key :: "'a \<Rightarrow> 'k::linorder"
  assumes "ok s" "room s" "sorted (map key (elems s))"
    and key: "\<And>y. y \<in> set (elems s) \<Longrightarrow> smaller s y x \<longleftrightarrow> key y < key x"
  shows "sorted (map key (elems (ins x s)))"
proof -
  let ?P = "\<lambda>y. smaller s y x" and ?xs = "elems s"
  have app: "sorted (map key (takeWhile ?P ?xs @ dropWhile ?P ?xs))" using assms(3) by simp
  have "key y < key x" if "y \<in> set (takeWhile ?P ?xs)" for y
    using that key by (auto dest: set_takeWhileD)
  moreover have "key x \<le> key y" if y: "y \<in> set ys" and ys: "ys = dropWhile ?P ?xs" for y ys
  proof (cases ys)
    case (Cons z zs)
    have "\<not> ?P z" using ys Cons by (metis hd_dropWhile list.distinct(1) list.sel(1))
    moreover have "z \<in> set ?xs" using ys Cons by (metis list.set_intros(1) set_dropWhileD)
    ultimately have "key x \<le> key z" using key by auto
    moreover have "key z \<le> key y"
      using app y unfolding ys [symmetric] Cons by (auto simp: sorted_append)
    ultimately show ?thesis by simp
  qed (use y in simp)
  ultimately show ?thesis
    using app [unfolded map_append sorted_append]
    by (auto simp: elems_ins [OF assms(1,2)] sorted_append less_imp_le)
qed

lemma sorted_del:
  fixes key :: "'a \<Rightarrow> 'k::linorder"
  assumes "ok s" "i < length (elems s)" "sorted (map key (elems s))"
  shows "sorted (map key (elems (del i s)))"
proof -
  have "elems s = take i (elems s) @ elems s ! i # drop (Suc i) (elems s)"
    using assms(2) by (simp add: Cons_nth_drop_Suc)
  then have "sorted (map key (take i (elems s) @ elems s ! i # drop (Suc i) (elems s)))"
    using assms(3) by simp
  then show ?thesis by (auto simp: elems_del [OF assms(1,2)] sorted_append)
qed

end

text \<open>The code's array provides it, for any comparison and any structure address.\<close>

definition oa_ok :: "u32 \<Rightarrow> mem \<times> console_event list \<Rightarrow> bool" where
  "oa_ok arr s \<longleftrightarrow> (let m = fst s; cap = unat (oa_max_size_at m arr) in
     oa_layout m arr (oa_array_at m arr) cap \<and> unat (oa_size_at m arr) \<le> cap)"

definition oa_room :: "u32 \<Rightarrow> mem \<times> console_event list \<Rightarrow> bool" where
  "oa_room arr s \<longleftrightarrow> oa_size_at (fst s) arr < oa_max_size_at (fst s) arr"

interpretation oa: ordered_index "\<lambda>s. oa_list (fst s) arr" "oa_ok arr" "oa_room arr"
  "\<lambda>s x y. lt (fst s) x y \<noteq> 0" "\<lambda>x s. insert_ordered_array lt x arr s"
  "\<lambda>i s. (remove_ordered_array (of_nat i) arr (fst s), snd s)" for lt arr
proof unfold_locales
  fix s x assume ok: "oa_ok arr s" and room: "oa_room arr s"
  obtain m out m' out' where s: "s = (m, out)" and ins: "insert_ordered_array lt x arr (m, out) = (m', out')"
    by (metis surj_pair)
  note facts = insert_ordered_array_list [of m arr "oa_array_at m arr" "unat (oa_max_size_at m arr)", OF _ _ _ ins]
  have pre: "oa_layout m arr (oa_array_at m arr) (unat (oa_max_size_at m arr))"
    "unat (oa_size_at m arr) < unat (oa_max_size_at m arr)" "unat (oa_max_size_at m arr) < 4294967296"
    using ok room by (simp_all add: s oa_ok_def oa_room_def Let_def word_less_nat_alt)
  show "oa_list (fst (insert_ordered_array lt x arr s)) arr
      = takeWhile (\<lambda>y. lt (fst s) y x \<noteq> 0) (oa_list (fst s) arr) @ x
        # dropWhile (\<lambda>y. lt (fst s) y x \<noteq> 0) (oa_list (fst s) arr)"
    using facts(1) [OF pre] by (simp add: s ins)
  show "oa_ok arr (insert_ordered_array lt x arr s)"
    using facts(2-4) [OF pre] pre(2) by (auto simp: s ins oa_ok_def Let_def oa_layout_def)
next
  fix s i assume ok: "oa_ok arr s" and i: "i < length (oa_list (fst s) arr)"
  obtain m out where s: "s = (m, out)" by (rule prod.exhaust)
  have len: "i < unat (oa_size_at m arr)" using i by (simp add: s oa_list_def)
  then have ui: "unat (of_nat i :: u32) = i"
    using unat_lt_2p32 [of "oa_size_at m arr"] by (intro unat_of_nat_small) linarith
  moreover have "(of_nat i :: u32) < oa_size_at m arr" using len ui by (simp only: word_less_nat_alt)
  moreover have "oa_layout m arr (oa_array_at m arr) (unat (oa_max_size_at m arr))"
    "unat (oa_size_at m arr) \<le> unat (oa_max_size_at m arr)"
    using ok by (simp_all add: s oa_ok_def Let_def)
  ultimately have facts: "oa_list (remove_ordered_array (of_nat i) arr m) arr
      = take i (oa_list m arr) @ drop (Suc i) (oa_list m arr)"
    "oa_ok arr (remove_ordered_array (of_nat i) arr m, out)"
    using remove_ordered_array_list [of m arr "oa_array_at m arr" "unat (oa_max_size_at m arr)" "of_nat i"]
    by (auto simp: oa_ok_def Let_def oa_layout_def)
  then show "oa_list (fst (remove_ordered_array (of_nat i) arr (fst s), snd s)) arr
      = take i (oa_list (fst s) arr) @ drop (Suc i) (oa_list (fst s) arr)"
    "oa_ok arr (remove_ordered_array (of_nat i) arr (fst s), snd s)"
    by (simp_all add: s)
qed

subsection \<open>Properties\<close>

text \<open>C12: Inserting into an array with room, ordered by a key that the comparison reflects, keeps
  it ordered and adds exactly the new item; only the array's slots and its \<open>size\<close> field
  change in memory.\<close>

theorem insert_ordered_array_keeps_order:
  fixes key :: "u32 \<Rightarrow> 'k::linorder"
  assumes "oa_ok arr (m, out)" "oa_room arr (m, out)" "sorted (map key (oa_list m arr))"
    and "\<And>y. y \<in> set (oa_list m arr) \<Longrightarrow> lt m y item \<noteq> 0 \<longleftrightarrow> key y < key item"
    and "insert_ordered_array lt item arr (m, out) = (m', out')"
  shows "sorted (map key (oa_list m' arr)) \<and> mset (oa_list m' arr) = add_mset item (mset (oa_list m arr))
    \<and> oa_ok arr (m', out')
    \<and> (\<forall>c. \<not> within (oa_array_at m arr) (4 * unat (oa_max_size_at m arr)) c \<longrightarrow> \<not> within (arr + 4) 4 c \<longrightarrow> m' c = m c)"
proof -
  have "oa_layout m arr (oa_array_at m arr) (unat (oa_max_size_at m arr))"
    "unat (oa_size_at m arr) < unat (oa_max_size_at m arr)" "unat (oa_max_size_at m arr) < 4294967296"
    using assms(1,2) by (simp_all add: oa_ok_def oa_room_def Let_def word_less_nat_alt)
  note frame = insert_ordered_array_list(6) [OF this assms(5)]
  show ?thesis
    using oa.sorted_ins [OF assms(1,2), of key lt item] oa.mset_ins [OF assms(1,2), of lt item]
      oa.ok_ins [OF assms(1,2), of lt item] frame assms(3-5) by simp
qed

text \<open>An empty array of four slots at \<open>0x2000\<close>, its structure at \<open>0x1000\<close>.\<close>

definition small_array :: mem where
  "small_array = (let (oa, m) = place_ordered_array 0x2000 4 1 (\<lambda>_. 0) in put_ordered_array m 0x1000 oa)"

lemma small_array_ok:
  "oa_ok 0x1000 (small_array, [])" "oa_room 0x1000 (small_array, [])" "oa_list small_array 0x1000 = []"
proof -
  obtain oa m where "place_ordered_array 0x2000 4 1 (\<lambda>_. 0) = (oa, m)" by fastforce
  note f = place_ordered_array_empty [OF this refl, of "0x1000"]
  then show "oa_ok 0x1000 (small_array, [])" "oa_room 0x1000 (small_array, [])" "oa_list small_array 0x1000 = []"
    using \<open>place_ordered_array 0x2000 4 1 (\<lambda>_. 0) = (oa, m)\<close>
    by (simp_all add: small_array_def oa_ok_def oa_room_def oa_layout_def apart_def Let_def)
qed

theorem insert_ordered_array_keeps_order_witness:
  "oa_list (fst (insert_ordered_array (\<lambda>m a b. if a < b then 1 else 0) 7 0x1000 (small_array, []))) 0x1000 = [7]"
proof -
  let ?r = "insert_ordered_array (\<lambda>m a b. if a < b then 1 else 0) 7 0x1000 (small_array, [])"
  have "mset (oa_list (fst ?r) 0x1000) = {#7#}"
    using insert_ordered_array_keeps_order [OF small_array_ok(1,2), of unat "\<lambda>m a b. if a < b then 1 else 0" 7 "fst ?r" "snd ?r"]
      small_array_ok(3) by simp
  then show ?thesis by simp
qed

text \<open>C23: Removing the element at a position of the array drops exactly it: the others keep
  their order, and only the array's slots and its \<open>size\<close> field change in memory.\<close>

theorem remove_ordered_array_drops:
  assumes "oa_ok arr (m, out)" "i < oa_size_at m arr"
  shows "oa_list (remove_ordered_array i arr m) arr
      = take (unat i) (oa_list m arr) @ drop (Suc (unat i)) (oa_list m arr)
    \<and> oa_ok arr (remove_ordered_array i arr m, out)
    \<and> (\<forall>c. \<not> within (oa_array_at m arr) (4 * unat (oa_max_size_at m arr)) c \<longrightarrow> \<not> within (arr + 4) 4 c
        \<longrightarrow> remove_ordered_array i arr m c = m c)"
proof -
  have "oa_layout m arr (oa_array_at m arr) (unat (oa_max_size_at m arr))"
    "unat (oa_size_at m arr) \<le> unat (oa_max_size_at m arr)"
    using assms(1) by (simp_all add: oa_ok_def Let_def)
  note facts = remove_ordered_array_list [OF this assms(2)]
  show ?thesis
    using facts(1-4,6) assms(1) by (auto simp: oa_ok_def Let_def oa_layout_def)
qed

theorem remove_ordered_array_drops_witness:
  "\<exists>m. oa_list m 0x1000 = [7] \<and> oa_list (remove_ordered_array 0 0x1000 m) 0x1000 = []"
proof -
  let ?r = "insert_ordered_array (\<lambda>m a b. if a < b then 1 else 0) 7 0x1000 (small_array, [])"
  have one: "oa_list (fst ?r) 0x1000 = [7]"
    using oa.elems_ins [OF small_array_ok(1,2), of "\<lambda>m a b. if a < b then 1 else 0" 7] small_array_ok(3) by simp
  then have "unat (oa_size_at (fst ?r) 0x1000) = 1"
    using arg_cong [OF one, of length] unfolding oa_list_def length_array_list by simp
  then have "0 < oa_size_at (fst ?r) 0x1000" by (simp add: word_less_nat_alt)
  moreover have "oa_ok 0x1000 (fst ?r, snd ?r)"
    using oa.ok_ins [OF small_array_ok(1,2), of "\<lambda>m a b. if a < b then 1 else 0" 7] by simp
  ultimately have "oa_list (remove_ordered_array 0 0x1000 (fst ?r)) 0x1000 = []"
    using remove_ordered_array_drops [of "0x1000" "fst ?r" "snd ?r" 0] one by simp
  then show ?thesis using one by blast
qed

end
