(* ===== verification/Kernel_State.thy ===== *)
theory Kernel_State
  imports Machine_Memory
begin

text \<open>
  The global variables the memory manager shares: \<open>free_mem_addr\<close> and \<open>kheap\<close> of
  \<open>kernel/libc/memory.c\<close>, and \<open>kernel_directory\<close>, \<open>current_directory\<close>, \<open>frames\<close> and
  \<open>nframes\<close> of \<open>kernel/cpu/paging/paging.c\<close>, with the byte memory and the console events.
  Pointers are addresses, \<open>0\<close> is the null pointer.
\<close>

record kstate =
  memory :: mem
  console :: "console_event list"
  free_mem_addr :: u32
  kheap :: u32
  kernel_directory :: u32
  current_directory :: u32
  frames :: u32
  nframes :: u32

text \<open>Steps on the memory and on the console alone.\<close>

definition upd_mem :: "(mem \<Rightarrow> mem) \<Rightarrow> kstate \<Rightarrow> kstate" where
  "upd_mem f s = s\<lparr>memory := f (memory s)\<rparr>"

definition assert_s :: "string \<Rightarrow> nat \<Rightarrow> bool \<Rightarrow> kstate \<Rightarrow> kstate" where
  "assert_s file line x s = s\<lparr>console := ASSERT file line x (console s)\<rparr>"

definition printf_s :: "string \<Rightarrow> u32 list \<Rightarrow> kstate \<Rightarrow> kstate" where
  "printf_s fmt args s = s\<lparr>console := console s @ [Printf fmt args]\<rparr>"

lemma upd_mem_simps [simp]:
  "memory (upd_mem f s) = f (memory s)" "console (upd_mem f s) = console s"
  "free_mem_addr (upd_mem f s) = free_mem_addr s" "kheap (upd_mem f s) = kheap s"
  "kernel_directory (upd_mem f s) = kernel_directory s"
  "current_directory (upd_mem f s) = current_directory s"
  "frames (upd_mem f s) = frames s" "nframes (upd_mem f s) = nframes s"
  by (simp_all add: upd_mem_def)

lemma assert_s_True [simp]: "assert_s file line True s = s"
  by (simp add: assert_s_def)

lemma memory_assert_s [simp]: "memory (assert_s file line x s) = memory s"
  by (simp add: assert_s_def)

end
