(* ===== verification/Frame_Allocator.thy ===== *)
theory Frame_Allocator
  imports Kernel_State Word_Array
begin

text \<open>
  The physical frames of \<open>kernel/cpu/paging/paging.c\<close>: a bitmap in memory with one bit for
  each 4 KiB frame, and the page entries that name frames. A \<open>page_t\<close> is one word of bit
  fields; its fields are read and written with masks as the compiler does.
\<close>

subsection \<open>The bit fields of \<open>page_t\<close>\<close>

definition pg_present :: "u32 \<Rightarrow> bool" where "pg_present w = bit w 0"
definition pg_rw :: "u32 \<Rightarrow> bool" where "pg_rw w = bit w 1"
definition pg_user :: "u32 \<Rightarrow> bool" where "pg_user w = bit w 2"
definition pg_accessed :: "u32 \<Rightarrow> bool" where "pg_accessed w = bit w 3"
definition pg_dirty :: "u32 \<Rightarrow> bool" where "pg_dirty w = bit w 4"
definition pg_frame :: "u32 \<Rightarrow> u32" where "pg_frame w = drop_bit 12 w"

definition put_flag :: "nat \<Rightarrow> bool \<Rightarrow> u32 \<Rightarrow> u32" where
  "put_flag n b w = (if b then set_bit n w else unset_bit n w)"

definition put_frame :: "u32 \<Rightarrow> u32 \<Rightarrow> u32" where
  "put_frame f w = (w AND 0xFFF) OR push_bit 12 f"

subsection \<open>The bitmap\<close>

definition INDEX_FROM_BIT :: "u32 \<Rightarrow> u32" where "INDEX_FROM_BIT a = a div (8 * 4)"
definition OFFSET_FROM_BIT :: "u32 \<Rightarrow> u32" where "OFFSET_FROM_BIT a = a mod (8 * 4)"

definition frame_word :: "kstate \<Rightarrow> u32 \<Rightarrow> u32" where
  "frame_word s idx = load32 (memory s) (frames s + 4 * idx)"

definition set_frame :: "u32 \<Rightarrow> kstate \<Rightarrow> kstate" where
  "set_frame frame_addr s =
     (let frame = frame_addr div 0x1000; idx = INDEX_FROM_BIT frame; off = OFFSET_FROM_BIT frame
      in upd_mem (\<lambda>m. store32 m (frames s + 4 * idx) (frame_word s idx OR push_bit (unat off) 1)) s)"

definition clear_frame :: "u32 \<Rightarrow> kstate \<Rightarrow> kstate" where
  "clear_frame frame_addr s =
     (let frame = frame_addr div 0x1000; idx = INDEX_FROM_BIT frame; off = OFFSET_FROM_BIT frame
      in upd_mem (\<lambda>m. store32 m (frames s + 4 * idx) (frame_word s idx AND NOT (push_bit (unat off) 1))) s)"

definition test_frame :: "u32 \<Rightarrow> kstate \<Rightarrow> u32" where
  "test_frame frame_addr s =
     (let frame = frame_addr div 0x1000; idx = INDEX_FROM_BIT frame; off = OFFSET_FROM_BIT frame
      in frame_word s idx AND push_bit (unat off) 1)"

text \<open>
  \<open>first_frame\<close> scans the words, then the bits of a word that is not full. A function that
  reaches its closing brace without a \<open>return\<close> has no value: that is \<open>None\<close>.
\<close>

function first_frame_bit :: "u32 \<Rightarrow> u32 \<Rightarrow> u32 option" where
  "first_frame_bit w j =
     (if j < 32 then
        (if w AND push_bit (unat j) 1 = 0 then Some j else first_frame_bit w (j + 1))
      else None)"
  by pat_completeness auto
termination
  by (relation "measure (\<lambda>(w, j). 4294967296 - unat j)") (auto intro: counter_decreases)

declare first_frame_bit.simps [simp del]

function first_frame_from :: "kstate \<Rightarrow> u32 \<Rightarrow> u32 option" where
  "first_frame_from s i =
     (if i < INDEX_FROM_BIT (nframes s) then
        (if frame_word s i \<noteq> 0xFFFFFFFF then
           (case first_frame_bit (frame_word s i) 0 of
              Some j \<Rightarrow> Some (i * 4 * 8 + j)
            | None \<Rightarrow> first_frame_from s (i + 1))
         else first_frame_from s (i + 1))
      else None)"
  by pat_completeness auto
termination
  by (relation "measure (\<lambda>(s, i). 4294967296 - unat i)") (auto intro: counter_decreases)

declare first_frame_from.simps [simp del]

definition first_frame :: "kstate \<Rightarrow> u32 option" where
  "first_frame s = first_frame_from s 0"

text \<open>
  \<open>alloc_frame\<close>. With no free frame \<open>first_frame\<close> has no value and neither has the call
  (\<open>None\<close>); the test against \<open>-1\<close> concerns a value \<open>first_frame\<close> never returns, and is
  kept: it prints, executes \<open>hlt\<close>, and goes on when an interrupt resumes it.
\<close>

definition alloc_frame :: "u32 \<Rightarrow> bool \<Rightarrow> bool \<Rightarrow> kstate \<Rightarrow> kstate option" where
  "alloc_frame page is_kernel is_writeable s =
     (if pg_frame (load32 (memory s) page) \<noteq> 0 then Some s
      else case first_frame s of
        None \<Rightarrow> None
      | Some idx \<Rightarrow>
          (let s = (if idx = - 1 then printf_s ''No free frames!\<newline>'' [] s else s);
               s = set_frame (idx * 0x1000) s
           in Some (upd_mem (\<lambda>m. store32 m page
                (put_frame idx (put_flag 2 (\<not> is_kernel) (put_flag 1 is_writeable
                   (put_flag 0 True (load32 m page)))))) s)))"

definition free_frame :: "u32 \<Rightarrow> kstate \<Rightarrow> kstate" where
  "free_frame page s =
     (let frame = pg_frame (load32 (memory s) page)
      in if frame = 0 then s
         else upd_mem (\<lambda>m. store32 m page (put_frame 0 (load32 m page))) (clear_frame frame s))"

subsection \<open>The bitmap as a set of used frames\<close>

text \<open>
  Frame numbers fit in 20 bits. \<open>bitmap_ok\<close>: the bitmap's words lie in memory without
  wrapping; \<open>frame_used\<close> reads the bit of a frame.
\<close>

definition bitmap_ok :: "kstate \<Rightarrow> bool" where
  "bitmap_ok s \<longleftrightarrow> unat (nframes s) \<le> 1048576
     \<and> unat (frames s) + 4 * (unat (nframes s) div 32) \<le> 4294967296"

definition frame_used :: "kstate \<Rightarrow> nat \<Rightarrow> bool" where
  "frame_used s f \<longleftrightarrow> bit (frame_word s (of_nat (f div 32))) (f mod 32)"

definition tracked :: "kstate \<Rightarrow> nat \<Rightarrow> bool" where
  "tracked s f \<longleftrightarrow> f < 32 * (unat (nframes s) div 32)"

lemma tracked_bound: "bitmap_ok s \<Longrightarrow> tracked s f \<Longrightarrow> f < 1048576"
  by (auto simp: bitmap_ok_def tracked_def)

lemma tracked_word: "tracked s f \<Longrightarrow> f div 32 < unat (nframes s) div 32"
  by (simp add: tracked_def less_mult_imp_div_less mult.commute)

lemma unat_div_numeral: "unat (a div numeral k :: u32) = unat a div unat (numeral k :: u32)"
  by (rule unat_div_distrib)

lemma frame_index:
  assumes "f < 1048576"
  shows "of_nat f * 0x1000 div 0x1000 = (of_nat f :: u32)"
    "INDEX_FROM_BIT (of_nat f) = of_nat (f div 32)"
    "unat (OFFSET_FROM_BIT (of_nat f)) = f mod 32"
proof -
  have u: "unat (of_nat f :: u32) = f" using assms by (simp add: unat_of_nat_small)
  show "of_nat f * 0x1000 div 0x1000 = (of_nat f :: u32)"
    unfolding word_unat_eq_iff unat_div_distrib
    using assms by (simp add: unat_word_ariths u)
  show "INDEX_FROM_BIT (of_nat f) = of_nat (f div 32)"
    unfolding word_unat_eq_iff INDEX_FROM_BIT_def unat_div_distrib
    using assms by (simp add: u unat_of_nat_small)
  show "unat (OFFSET_FROM_BIT (of_nat f)) = f mod 32"
    unfolding OFFSET_FROM_BIT_def unat_mod_distrib using assms by (simp add: u)
qed

lemma test_frame_used:
  assumes "f < 1048576"
  shows "test_frame (of_nat f * 0x1000) s \<noteq> 0 \<longleftrightarrow> frame_used s f"
proof -
  have "w AND push_bit n 1 \<noteq> 0 \<longleftrightarrow> bit w n" if "n < 32" for w :: u32 and n
    using that by (metis and_exp_eq_0_iff_not_bit push_bit_of_1)
  then show ?thesis by (simp add: test_frame_def frame_index [OF assms] frame_used_def)
qed

lemma frame_word_store:
  assumes "bitmap_ok s" "i < unat (nframes s) div 32" "k < unat (nframes s) div 32"
  shows "load32 (store32 m (frames s + 4 * of_nat k) v) (frames s + 4 * of_nat i)
    = (if i = k then v else load32 m (frames s + 4 * of_nat i))"
proof (cases "i = k")
  case False
  then have "apart (frames s + 4 * of_nat k) 4 (frames s + 4 * of_nat i) 4"
    using assms slots_apart [of "frames s" _ k i] by (auto simp: bitmap_ok_def)
  then show ?thesis using False by (simp add: mem_simps)
qed (simp add: mem_simps)

lemma div_mod_32_eq: "(f::nat) div 32 = g div 32 \<and> f mod 32 = g mod 32 \<longleftrightarrow> f = g"
  by (metis div_mult_mod_eq)

lemma frame_used_set:
  assumes ok: "bitmap_ok s" and f: "tracked s f" and g: "tracked s g"
  shows "frame_used (set_frame (of_nat f * 0x1000) s) g \<longleftrightarrow> g = f \<or> frame_used s g"
proof -
  note f20 = tracked_bound [OF ok f]
  note w = frame_word_store [OF ok tracked_word [OF g] tracked_word [OF f]]
  show ?thesis
    using div_mod_32_eq [of g f]
    by (auto simp: set_frame_def frame_index [OF f20] frame_used_def frame_word_def w bit_simps
        possible_bit_def Let_def)
qed

lemma frame_used_clear:
  assumes ok: "bitmap_ok s" and f: "tracked s f" and g: "tracked s g"
  shows "frame_used (clear_frame (of_nat f * 0x1000) s) g \<longleftrightarrow> g \<noteq> f \<and> frame_used s g"
proof -
  note f20 = tracked_bound [OF ok f]
  note w = frame_word_store [OF ok tracked_word [OF g] tracked_word [OF f]]
  show ?thesis
    using div_mod_32_eq [of g f]
    by (auto simp: clear_frame_def frame_index [OF f20] frame_used_def frame_word_def w bit_simps
        possible_bit_def Let_def)
qed

lemma set_frame_frame:
  "frames (set_frame a s) = frames s" "nframes (set_frame a s) = nframes s"
  "frames (clear_frame a s) = frames s" "nframes (clear_frame a s) = nframes s"
  by (simp_all add: set_frame_def clear_frame_def Let_def)

subsection \<open>The scan\<close>

lemma and_bit_zero: "n < 32 \<Longrightarrow> (w::u32) AND push_bit n 1 = 0 \<longleftrightarrow> \<not> bit w n"
  by (metis and_exp_eq_0_iff_not_bit push_bit_of_1)

lemma first_frame_bit_some:
  "first_frame_bit w j = Some k \<Longrightarrow>
     unat k < 32 \<and> \<not> bit w (unat k) \<and> unat j \<le> unat k \<and> (\<forall>i. unat j \<le> i \<and> i < unat k \<longrightarrow> bit w i)"
proof (induction w j rule: first_frame_bit.induct)
  case (1 w j)
  show ?case
  proof (cases "j < 32 \<and> w AND push_bit (unat j) 1 \<noteq> 0")
    case True
    then have "unat j < 32" by (simp add: word_less_nat_alt)
    moreover have "first_frame_bit w (j + 1) = Some k"
      using "1.prems" True by (subst (asm) first_frame_bit.simps) auto
    ultimately show ?thesis
      using "1.IH" True unat_Suc_below [of j 32] and_bit_zero [of "unat j" w]
      by (auto simp: le_Suc_eq dest: le_neq_implies_less)
  next
    case False
    then have "j < 32 \<and> w AND push_bit (unat j) 1 = 0 \<and> k = j"
      using "1.prems" by (auto simp: first_frame_bit.simps [of w j] split: if_splits)
    then show ?thesis using and_bit_zero [of "unat j" w] by (auto simp: word_less_nat_alt)
  qed
qed

lemma first_frame_bit_none:
  "first_frame_bit w j = None \<Longrightarrow> unat j \<le> i \<Longrightarrow> i < 32 \<Longrightarrow> bit w i"
proof (induction w j rule: first_frame_bit.induct)
  case (1 w j)
  have j: "j < 32" using "1.prems"(2,3) by (simp add: word_less_nat_alt)
  then have "w AND push_bit (unat j) 1 \<noteq> 0 \<and> first_frame_bit w (j + 1) = None"
    using "1.prems"(1) by (auto simp: first_frame_bit.simps [of w j] split: if_splits)
  then have nz: "w AND push_bit (unat j) 1 \<noteq> 0" and none: "first_frame_bit w (j + 1) = None"
    by simp_all
  have "bit w (unat j)" using nz j and_bit_zero [of "unat j" w] by (simp add: word_less_nat_alt)
  then show ?case
    using "1.IH" [OF j nz none _ "1.prems"(3)] "1.prems"(2) unat_Suc_below [OF j]
    by (cases "unat j = i") auto
qed

lemma bit_all_ones: "bit (0xFFFFFFFF::u32) n \<longleftrightarrow> n < 32"
proof -
  have "(0xFFFFFFFF::u32) = -1" by simp
  then show ?thesis by (simp only: bit_minus_1_iff possible_bit_word) simp
qed

lemma full_word: "first_frame_bit w 0 = None \<longleftrightarrow> w = 0xFFFFFFFF"
proof
  assume "first_frame_bit w 0 = None"
  then have "bit w i" if "i < 32" for i using first_frame_bit_none that by simp
  then have "bit w i = bit (0xFFFFFFFF::u32) i" if "i < LENGTH(32)" for i
    using that by (simp only: bit_all_ones) simp
  then show "w = 0xFFFFFFFF" by (rule bit_word_eqI)
next
  assume w: "w = 0xFFFFFFFF"
  show "first_frame_bit w 0 = None"
  proof (rule ccontr)
    assume "first_frame_bit w 0 \<noteq> None"
    then obtain k where "first_frame_bit w 0 = Some k" by auto
    then have "\<not> bit w (unat k)" "unat k < 32" using first_frame_bit_some [of w 0 k] by auto
    then show False by (simp only: w bit_all_ones simp_thms)
  qed
qed

text \<open>The word \<open>i\<close> holds the frames \<open>32 i\<close> to \<open>32 i + 31\<close>.\<close>

lemma first_frame_from_some:
  "first_frame_from s i = Some k \<Longrightarrow> bitmap_ok s \<Longrightarrow>
     tracked s (unat k) \<and> \<not> frame_used s (unat k) \<and> 32 * unat i \<le> unat k
     \<and> (\<forall>f. 32 * unat i \<le> f \<and> f < unat k \<longrightarrow> frame_used s f)"
proof (induction s i rule: first_frame_from.induct)
  case (1 s i)
  have i: "i < INDEX_FROM_BIT (nframes s)" using "1.prems"(1)
    by (auto simp: first_frame_from.simps [of s i] split: if_splits)
  have n: "unat (INDEX_FROM_BIT (nframes s)) = unat (nframes s) div 32"
    by (simp add: INDEX_FROM_BIT_def unat_div_distrib)
  have ib: "unat i < unat (nframes s) div 32" "unat (nframes s) \<le> 1048576"
    using i n "1.prems"(2) by (simp_all add: word_less_nat_alt bitmap_ok_def)
  show ?case
  proof (cases "first_frame_bit (frame_word s i) 0")
    case None
    then have w: "frame_word s i = 0xFFFFFFFF" by (simp add: full_word)
    then have rest: "first_frame_from s (i + 1) = Some k"
      using "1.prems"(1) i by (simp add: first_frame_from.simps [of s i])
    note ih = "1.IH"(2) [OF i _ rest "1.prems"(2)]
    have used: "frame_used s f" if "32 * unat i \<le> f" "f < 32 * Suc (unat i)" for f
    proof -
      have "f div 32 = unat i" using that by (simp add: div_nat_eqI)
      then have "frame_used s f \<longleftrightarrow> bit (0xFFFFFFFF::u32) (f mod 32)"
        by (simp only: frame_used_def of_nat_unat ucast_id w)
      then show ?thesis by (simp only: bit_all_ones)
    qed
    show ?thesis using ih w used unat_Suc_below [OF i] by (auto simp: not_less) (meson not_less)
  next
    case (Some j)
    note j = first_frame_bit_some [OF Some]
    have "frame_word s i \<noteq> 0xFFFFFFFF" using Some full_word [of "frame_word s i"] by auto
    then have k: "k = i * 4 * 8 + j"
      using "1.prems"(1) i Some by (simp add: first_frame_from.simps [of s i])
    have "32 * unat i + unat j < 4294967296" using ib j by linarith
    then have "unat k = 32 * unat i + unat j" unfolding k by (simp add: unat_word_ariths)
    moreover have "frame_used s f \<longleftrightarrow> bit (frame_word s i) (f - 32 * unat i)"
      if "32 * unat i \<le> f" "f < 32 * Suc (unat i)" for f
    proof -
      have "f div 32 = unat i" using that by (simp add: div_nat_eqI)
      moreover from this have "f mod 32 = f - 32 * unat i" by (simp add: modulo_nat_def)
      ultimately show ?thesis by (simp add: frame_used_def)
    qed
    ultimately show ?thesis using j ib by (auto simp: tracked_def)
  qed
qed

lemma first_frame_from_none:
  "first_frame_from s i = None \<Longrightarrow> bitmap_ok s \<Longrightarrow> tracked s f \<Longrightarrow> 32 * unat i \<le> f \<Longrightarrow> frame_used s f"
proof (induction s i rule: first_frame_from.induct)
  case (1 s i)
  have n: "unat (INDEX_FROM_BIT (nframes s)) = unat (nframes s) div 32"
    by (simp add: INDEX_FROM_BIT_def unat_div_distrib)
  have i: "i < INDEX_FROM_BIT (nframes s)"
    using "1.prems"(3,4) n by (simp add: tracked_def word_less_nat_alt)
  then have "frame_word s i = 0xFFFFFFFF \<and> first_frame_from s (i + 1) = None"
    using "1.prems"(1) full_word [of "frame_word s i"]
    by (auto simp: first_frame_from.simps [of s i] split: if_splits option.splits)
  then have w: "frame_word s i = 0xFFFFFFFF" and rest: "first_frame_from s (i + 1) = None" by simp_all
  show ?case
  proof (cases "f < 32 * Suc (unat i)")
    case True
    then have "f div 32 = unat i" using "1.prems"(4) by (simp add: div_nat_eqI)
    then have "frame_used s f \<longleftrightarrow> bit (0xFFFFFFFF::u32) (f mod 32)"
      by (simp only: frame_used_def of_nat_unat ucast_id w)
    then show ?thesis by (simp only: bit_all_ones)
  next
    case False
    then show ?thesis
      using "1.IH"(2) [OF i _ rest "1.prems"(2,3)] w unat_Suc_below [OF i] by simp
  qed
qed

lemmas first_frame_some = first_frame_from_some [of _ 0, folded first_frame_def, simplified]
lemmas first_frame_none = first_frame_from_none [of _ 0, folded first_frame_def, simplified]

subsection \<open>Taking and releasing a frame\<close>

lemma pg_fields_put [simp]:
  "f < 0x100000 \<Longrightarrow> pg_frame (put_frame f w) = f"
  "pg_present (put_frame f w) = pg_present w" "pg_rw (put_frame f w) = pg_rw w"
  "pg_user (put_frame f w) = pg_user w" "pg_accessed (put_frame f w) = pg_accessed w"
  "pg_dirty (put_frame f w) = pg_dirty w"
proof -
  assume "f < 0x100000"
  then have f: "unat f < 2 ^ 20" by (simp add: word_less_nat_alt)
  have "take_bit 20 f = f"
    using f by (simp add: word_unat_eq_iff unsigned_take_bit_eq take_bit_nat_eq_self)
  moreover have "pg_frame (put_frame f w) = take_bit 20 f"
    unfolding pg_frame_def put_frame_def
    by (rule bit_word_eqI) (auto simp: bit_simps dest: bit_imp_le_length)
  ultimately show "pg_frame (put_frame f w) = f" by simp
qed (simp_all add: put_frame_def pg_present_def pg_rw_def pg_user_def pg_accessed_def pg_dirty_def
    bit_simps)

lemma pg_flags_put [simp]:
  "pg_present (put_flag n b w) = (if n = 0 then b else pg_present w)"
  "pg_rw (put_flag n b w) = (if n = 1 then b else pg_rw w)"
  "pg_user (put_flag n b w) = (if n = 2 then b else pg_user w)"
  "pg_accessed (put_flag n b w) = (if n = 3 then b else pg_accessed w)"
  "pg_dirty (put_flag n b w) = (if n = 4 then b else pg_dirty w)"
  "n < 12 \<Longrightarrow> pg_frame (put_flag n b w) = pg_frame w"
  by (auto simp: put_flag_def pg_present_def pg_rw_def pg_user_def pg_accessed_def pg_dirty_def
      pg_frame_def bit_simps intro!: bit_word_eqI)

text \<open>The bits a page entry's store leaves alone.\<close>

definition page_apart :: "u32 \<Rightarrow> kstate \<Rightarrow> bool" where
  "page_apart page s \<longleftrightarrow> apart page 4 (frames s) (4 * (unat (nframes s) div 32))"

lemma page_apart_word:
  assumes "bitmap_ok s" "page_apart page s" "tracked s f"
  shows "apart page 4 (frames s + 4 * of_nat (f div 32)) 4"
proof (rule apart_sub [OF assms(2) [unfolded page_apart_def]])
  show "within (frames s) (4 * (unat (nframes s) div 32)) c"
    if "within (frames s + 4 * of_nat (f div 32)) 4 c" for c
    using slot_within [OF _ tracked_word [OF assms(3)] that] assms(1) by (simp add: bitmap_ok_def)
qed

lemma frame_used_page_store:
  assumes "bitmap_ok s" "page_apart page s" "tracked s f"
  shows "frame_used (upd_mem (\<lambda>m. store32 m page (g m)) s) f \<longleftrightarrow> frame_used s f"
  using page_apart_word [OF assms] by (simp add: frame_used_def frame_word_def mem_simps)

lemma page_word_set_frame:
  assumes "bitmap_ok s" "page_apart page s" "tracked s f"
  shows "load32 (memory (set_frame (of_nat f * 0x1000) s)) page = load32 (memory s) page"
    "load32 (memory (clear_frame (of_nat f * 0x1000) s)) page = load32 (memory s) page"
  using page_apart_word [OF assms]
  by (simp_all add: set_frame_def clear_frame_def Let_def mem_simps apart_sym
      frame_index [OF tracked_bound [OF assms(1,3)]])

text \<open>
  An entry without a frame gets the lowest free one, which becomes used; no other frame
  changes, and the entry is present with the permissions asked for.
\<close>

lemma alloc_frame_takes_lowest:
  assumes ok: "bitmap_ok s" and ap: "page_apart page s"
    and no: "pg_frame (load32 (memory s) page) = 0"
    and free: "first_frame s = Some idx"
  obtains s' where "alloc_frame page is_kernel is_writeable s = Some s'"
    and "pg_frame (load32 (memory s') page) = idx"
    and "pg_present (load32 (memory s') page)"
    and "pg_rw (load32 (memory s') page) = is_writeable"
    and "pg_user (load32 (memory s') page) = (\<not> is_kernel)"
    and "\<And>f. tracked s f \<Longrightarrow> frame_used s' f \<longleftrightarrow> f = unat idx \<or> frame_used s f"
proof -
  note ff = first_frame_some [OF free ok]
  have tr: "tracked s (unat idx)" using ff by simp
  note b = tracked_bound [OF ok tr]
  have i20: "idx < 0x100000" using b by (simp add: word_less_nat_alt)
  then have m1: "idx \<noteq> - 1" by auto
  define s1 where "s1 = set_frame (idx * 0x1000) s"
  have s1: "s1 = set_frame (of_nat (unat idx) * 0x1000) s" by (simp add: s1_def)
  have w: "load32 (memory s1) page = load32 (memory s) page"
    unfolding s1 by (rule page_word_set_frame [OF ok ap tr])
  have fr: "frames s1 = frames s" "nframes s1 = nframes s" by (simp_all add: s1 set_frame_frame)
  define g where "g = (\<lambda>m. put_frame idx (put_flag 2 (\<not> is_kernel) (put_flag 1 is_writeable
      (put_flag 0 True (load32 m page)))))"
  define s' where "s' = upd_mem (\<lambda>m. store32 m page (g m)) s1"
  have run: "alloc_frame page is_kernel is_writeable s = Some s'"
    using no free m1 by (simp add: alloc_frame_def s'_def g_def s1_def)
  have entry: "load32 (memory s') page = g (memory s1)" by (simp add: s'_def mem_simps)
  have used: "frame_used s' f \<longleftrightarrow> f = unat idx \<or> frame_used s f" if "tracked s f" for f
  proof -
    have "frame_used s' f \<longleftrightarrow> frame_used s1 f"
      unfolding s'_def
      by (rule frame_used_page_store)
        (use ok ap that fr in \<open>simp_all add: bitmap_ok_def page_apart_def tracked_def\<close>)
    then show ?thesis using frame_used_set [OF ok tr that] by (simp add: s1)
  qed
  show ?thesis
    by (rule that [OF run]) (simp_all add: entry g_def i20 used)
qed

text \<open>
  \<open>free_frame\<close> hands the frame number where \<open>clear_frame\<close> expects an address, so below
  frame 4096 it is the bit of frame 0 that is cleared.
\<close>

lemma free_frame_clears_frame_0:
  assumes ok: "bitmap_ok s" and ap: "page_apart page s"
    and fr: "pg_frame (load32 (memory s) page) \<noteq> 0" "pg_frame (load32 (memory s) page) < 0x1000"
    and t: "tracked s f"
  shows "frame_used (free_frame page s) f \<longleftrightarrow> f \<noteq> 0 \<and> frame_used s f"
proof -
  let ?n = "pg_frame (load32 (memory s) page)" and ?c = "clear_frame (of_nat 0 * 0x1000) s"
  have "?n div 0x1000 = 0"
    unfolding word_unat_eq_iff unat_div_distrib using fr(2) by (simp add: word_less_nat_alt)
  then have "clear_frame ?n s = ?c" by (simp add: clear_frame_def)
  then have eq: "free_frame page s = upd_mem (\<lambda>m. store32 m page (put_frame 0 (load32 m page))) ?c"
    using fr(1) by (simp add: free_frame_def)
  have t0: "tracked s 0" using t by (simp add: tracked_def)
  have "frame_used (free_frame page s) f \<longleftrightarrow> frame_used ?c f"
    unfolding eq
    by (rule frame_used_page_store)
      (use ok ap t in \<open>simp_all add: bitmap_ok_def page_apart_def tracked_def set_frame_frame\<close>)
  then show ?thesis using frame_used_clear [OF ok t0 t] by simp
qed

subsection \<open>Properties\<close>

text \<open>C19: \<open>alloc_frame\<close> on an entry without a frame takes the lowest frame that is not used: the
  frame was free and every lower one used, it becomes used and no other bit changes, and the
  entry is present, with the permissions asked for and this frame.\<close>

theorem alloc_frame_lowest:
  assumes "bitmap_ok s" "page_apart page s" "pg_frame (load32 (memory s) page) = 0"
    and "tracked s f" "\<not> frame_used s f"
  shows "\<exists>idx s'. alloc_frame page is_kernel is_writeable s = Some s'
    \<and> tracked s (unat idx) \<and> \<not> frame_used s (unat idx) \<and> (\<forall>g < unat idx. frame_used s g)
    \<and> (\<forall>g. tracked s g \<longrightarrow> (frame_used s' g \<longleftrightarrow> g = unat idx \<or> frame_used s g))
    \<and> (let e = load32 (memory s') page in pg_frame e = idx \<and> pg_present e
        \<and> pg_rw e = is_writeable \<and> pg_user e = (\<not> is_kernel))"
proof -
  obtain idx where idx: "first_frame s = Some idx"
    using first_frame_none [of s f] assms by (cases "first_frame s") auto
  show ?thesis
    using first_frame_some [OF idx assms(1)]
    by (intro exI [of _ idx]) (rule alloc_frame_takes_lowest [OF assms(1-3) idx, of is_kernel is_writeable],
      simp add: Let_def)
qed

text \<open>Sixty-four frames, all free, with the bitmap at \<open>0x3000\<close>.\<close>

definition free_frames :: kstate where
  "free_frames = \<lparr>memory = (\<lambda>_. 0), console = [], free_mem_addr = 0, kheap = 0,
     kernel_directory = 0, current_directory = 0, frames = 0x3000, nframes = 64\<rparr>"

lemma free_frames_ok:
  "bitmap_ok free_frames" "page_apart 0x5000 free_frames" "tracked free_frames 0" "tracked free_frames 1"
  "\<not> frame_used free_frames n" "load32 (memory free_frames) a = 0"
  by (simp_all add: free_frames_def bitmap_ok_def page_apart_def apart_def tracked_def frame_used_def
      frame_word_def load32_def)

theorem alloc_frame_lowest_witness:
  "\<exists>s'. alloc_frame 0x5000 True False free_frames = Some s' \<and> pg_present (load32 (memory s') 0x5000)"
  using alloc_frame_lowest [OF free_frames_ok(1,2) _ free_frames_ok(3,5), of True False]
  by (auto simp: free_frames_ok pg_frame_def Let_def)

text \<open>C34: \<open>free_frame\<close> of an entry whose frame number is below 4096 empties the entry but frees
  frame 0, whatever frame the entry had: the number is passed where an address is expected.\<close>

theorem free_frame_releases_frame_0:
  assumes "bitmap_ok s" "page_apart page s"
    and "pg_frame (load32 (memory s) page) \<noteq> 0" "pg_frame (load32 (memory s) page) < 0x1000"
  shows "pg_frame (load32 (memory (free_frame page s)) page) = 0
    \<and> (\<forall>f. tracked s f \<longrightarrow> (frame_used (free_frame page s) f \<longleftrightarrow> f \<noteq> 0 \<and> frame_used s f))"
proof -
  have "pg_frame (load32 (memory (free_frame page s)) page) = 0"
    using assms(3) by (simp add: free_frame_def Let_def mem_simps)
  then show ?thesis using free_frame_clears_frame_0 [OF assms] by blast
qed

theorem free_frame_releases_frame_0_witness:
  "\<exists>s. pg_frame (load32 (memory s) 0x5000) = 1 \<and> frame_used s 1
     \<and> frame_used (free_frame 0x5000 s) 1 \<and> \<not> frame_used (free_frame 0x5000 s) 0"
proof -
  define s where "s = upd_mem (\<lambda>m. store32 m 0x5000 0x1000) (set_frame (of_nat 1 * 0x1000) free_frames)"
  have pg: "load32 (memory s) 0x5000 = 0x1000" by (simp add: s_def mem_simps)
  have fr: "frames s = 0x3000" "nframes s = 64"
    by (simp_all add: s_def set_frame_frame) (simp_all add: free_frames_def)
  then have ok: "bitmap_ok s" "page_apart 0x5000 s" "tracked s 0" "tracked s 1"
    by (simp_all add: bitmap_ok_def page_apart_def apart_def tracked_def)
  have "frame_used s 1 = frame_used (set_frame (of_nat 1 * 0x1000) free_frames) 1"
    unfolding s_def by (rule frame_used_page_store)
      (simp_all add: bitmap_ok_def page_apart_def apart_def tracked_def set_frame_frame free_frames_def)
  then have "frame_used s 1" using frame_used_set [OF free_frames_ok(1,4,4)] by simp
  then show ?thesis
    using free_frame_releases_frame_0 [OF ok(1,2)] ok(3,4) pg
    by (intro exI [of _ s]) (simp add: pg_frame_def)
qed

end
