(* ===== verification/Page_Table.thy ===== *)
theory Page_Table
  imports Frame_Allocator Libc_Memory
begin

text \<open>
  \<open>get_page\<close> of \<open>kernel/cpu/paging/paging.c\<close>. A page directory is \<open>tables\<close> (1024 pointers),
  \<open>tablesPhysical\<close> (1024 words) and \<open>physicalAddr\<close>; a page table is 1024 words. Making a
  missing table calls \<open>kmalloc_ap\<close>, and \<open>kmalloc_ap\<close> may grow the heap, which calls
  \<open>get_page\<close> again, so the allocator is an argument here and the knot is tied in
  \<open>Kernel_Heap\<close>. It returns the address, the physical address it stores through its
  pointer, and the state; \<open>None\<close> when it does not return.
\<close>

type_synonym kmalloc_fn = "u32 \<Rightarrow> kstate \<Rightarrow> (u32 \<times> u32 \<times> kstate) option"

definition dir_table :: "mem \<Rightarrow> u32 \<Rightarrow> u32 \<Rightarrow> u32" where
  "dir_table m dir i = load32 m (dir + 4 * i)"

definition dir_table_phys :: "mem \<Rightarrow> u32 \<Rightarrow> u32 \<Rightarrow> u32" where
  "dir_table_phys m dir i = load32 m (dir + 4096 + 4 * i)"

definition dir_physicalAddr :: "mem \<Rightarrow> u32 \<Rightarrow> u32" where
  "dir_physicalAddr m dir = load32 m (dir + 8192)"

definition get_page :: "kmalloc_fn \<Rightarrow> u32 \<Rightarrow> bool \<Rightarrow> u32 \<Rightarrow> kstate \<Rightarrow> (u32 \<times> kstate) option" where
  "get_page kmalloc_ap address mk dir s =
     (let address = address div 0x1000; table_idx = address div 1024
      in if dir_table (memory s) dir table_idx \<noteq> 0 then
           Some (dir_table (memory s) dir table_idx + 4 * (address mod 1024), s)
         else if mk then
           (case kmalloc_ap 4096 s of
              None \<Rightarrow> None
            | Some (table, tmp, s) \<Rightarrow>
                (let s = upd_mem (\<lambda>m. store32 m (dir + 4 * table_idx) table) s;
                     s = upd_mem (\<lambda>m. snd (memset (dir_table m dir table_idx) 0 0x1000 m)) s;
                     s = upd_mem (\<lambda>m. store32 m (dir + 4096 + 4 * table_idx) (tmp OR 0x7)) s
                 in Some (dir_table (memory s) dir table_idx + 4 * (address mod 1024), s)))
         else Some (0, s))"

end
