(* ===== verification/Kernel_Heap.thy ===== *)
theory Kernel_Heap
  imports Ordered_Array Page_Table
begin

text \<open>
  The kernel heap of \<open>kernel/libc/memory.c\<close>: blocks and holes with a header and a footer in
  memory, an ordered array of the holes by size, \<open>alloc\<close>, \<open>free\<close>, \<open>expand\<close>, \<open>contract\<close>,
  \<open>create_heap\<close> and the \<open>kmalloc\<close> family. This theory holds the code; \<open>Heap_Blocks\<close> and
  \<open>Heap_Alloc\<close> hold the properties. Structures are at their addresses with the offsets of
  the i386 ABI: a \<open>header_t\<close> is 12 bytes (\<open>magic\<close> at 0, \<open>is_hole\<close> at 4, \<open>size\<close> at 8), a
  \<open>footer_t\<close> 8 (\<open>magic\<close>, \<open>header\<close>), a \<open>heap_t\<close> 32 (\<open>index\<close>, then \<open>start_address\<close> at 16,
  \<open>end_address\<close>, \<open>max_address\<close>, \<open>supervisor\<close>, \<open>readonly\<close>).
\<close>

subsection \<open>Structures in memory\<close>

definition HEAP_INDEX_SIZE :: u32 where "HEAP_INDEX_SIZE = 0x20000"
definition HEAP_MAGIC :: u32 where "HEAP_MAGIC = 0x123890AB"
definition HEAP_MIN_SIZE :: u32 where "HEAP_MIN_SIZE = 0x70000"
definition KHEAP_START :: u32 where "KHEAP_START = 0xC0000000"
definition KHEAP_INITIAL_SIZE :: u32 where "KHEAP_INITIAL_SIZE = 0x100000"

definition hdr_magic :: "mem \<Rightarrow> u32 \<Rightarrow> u32" where "hdr_magic m a = load32 m a"
definition hdr_is_hole :: "mem \<Rightarrow> u32 \<Rightarrow> u8" where "hdr_is_hole m a = load8 m (a + 4)"
definition hdr_size :: "mem \<Rightarrow> u32 \<Rightarrow> u32" where "hdr_size m a = load32 m (a + 8)"

definition ftr_magic :: "mem \<Rightarrow> u32 \<Rightarrow> u32" where "ftr_magic m a = load32 m a"
definition ftr_header :: "mem \<Rightarrow> u32 \<Rightarrow> u32" where "ftr_header m a = load32 m (a + 4)"

definition put_header :: "u32 \<Rightarrow> u8 \<Rightarrow> u32 \<Rightarrow> mem \<Rightarrow> mem" where
  "put_header a is_hole sz m = store32 (store8 (store32 m a HEAP_MAGIC) (a + 4) is_hole) (a + 8) sz"

definition put_footer :: "u32 \<Rightarrow> u32 \<Rightarrow> mem \<Rightarrow> mem" where
  "put_footer a header m = store32 (store32 m a HEAP_MAGIC) (a + 4) header"

definition heap_start :: "mem \<Rightarrow> u32 \<Rightarrow> u32" where "heap_start m heap = load32 m (heap + 16)"
definition heap_end :: "mem \<Rightarrow> u32 \<Rightarrow> u32" where "heap_end m heap = load32 m (heap + 20)"
definition heap_max :: "mem \<Rightarrow> u32 \<Rightarrow> u32" where "heap_max m heap = load32 m (heap + 24)"
definition heap_supervisor :: "mem \<Rightarrow> u32 \<Rightarrow> u8" where "heap_supervisor m heap = load8 m (heap + 28)"
definition heap_readonly :: "mem \<Rightarrow> u32 \<Rightarrow> u8" where "heap_readonly m heap = load8 m (heap + 29)"

definition header_t_less_than :: lessthan where
  "header_t_less_than m a b = (if hdr_size m a < hdr_size m b then 1 else 0)"

text \<open>The index is the first field of the heap structure, so both have one address.\<close>

definition lookup_s :: "u32 \<Rightarrow> u32 \<Rightarrow> kstate \<Rightarrow> u32 \<times> kstate" where
  "lookup_s i heap s =
     (let (v, out) = lookup_ordered_array i heap (memory s) (console s)
      in (v, s\<lparr>console := out\<rparr>))"

definition insert_s :: "u32 \<Rightarrow> u32 \<Rightarrow> kstate \<Rightarrow> kstate" where
  "insert_s item heap s =
     (let (m, out) = insert_ordered_array header_t_less_than item heap (memory s, console s)
      in s\<lparr>memory := m, console := out\<rparr>)"

definition remove_s :: "u32 \<Rightarrow> u32 \<Rightarrow> kstate \<Rightarrow> kstate" where
  "remove_s i heap s = upd_mem (remove_ordered_array i heap) s"

subsection \<open>\<open>find_smallest_hole\<close>\<close>

text \<open>The signed comparison is on the two's complement values of the words.\<close>

function find_smallest_hole_from :: "u32 \<Rightarrow> u8 \<Rightarrow> u32 \<Rightarrow> u32 \<Rightarrow> kstate \<Rightarrow> u32 \<times> kstate" where
  "find_smallest_hole_from sz page_align heap iterator s =
     (if iterator < oa_size_at (memory s) heap then
        (let (header, s) = lookup_s iterator heap s
         in if page_align > 0 then
              (let location = header;
                   offset = (if (location + 12) AND 0xFFFFF000 \<noteq> 0
                             then 0x1000 - (location + 12) mod 0x1000 else 0);
                   hole_size = hdr_size (memory s) header - offset
               in if sint hole_size \<ge> sint sz then (iterator, s)
                  else find_smallest_hole_from sz page_align heap (iterator + 1) s)
            else if hdr_size (memory s) header \<ge> sz then (iterator, s)
            else find_smallest_hole_from sz page_align heap (iterator + 1) s)
      else (iterator, s))"
  by pat_completeness auto
termination
  by (relation "measure (\<lambda>(sz, page_align, heap, iterator, s). 4294967296 - unat iterator)")
    (auto intro: counter_decreases)

declare find_smallest_hole_from.simps [simp del]

definition find_smallest_hole :: "u32 \<Rightarrow> u8 \<Rightarrow> u32 \<Rightarrow> kstate \<Rightarrow> u32 \<times> kstate" where
  "find_smallest_hole sz page_align heap s =
     (let (iterator, s) = find_smallest_hole_from sz page_align heap 0 s
      in if iterator = oa_size_at (memory s) heap then (- 1, s) else (iterator, s))"

subsection \<open>\<open>expand\<close> and \<open>contract\<close>\<close>

text \<open>
  In \<open>expand\<close> the test \<open>new_size & 0xFFFFF000 != 0\<close> is \<open>new_size & (0xFFFFF000 != 0)\<close>, the
  lowest bit, because \<open>!=\<close> binds tighter than \<open>&\<close>. The loops have no bound of their own:
  \<open>None\<close> means that they do not end (or that a frame was taken when none is free).
\<close>

partial_function (option) expand_loop ::
    "kmalloc_fn \<Rightarrow> u32 \<Rightarrow> u32 \<Rightarrow> u32 \<Rightarrow> kstate \<Rightarrow> kstate option" where
  "expand_loop km new_size heap i s =
     (if i < new_size then
        Option.bind (get_page km (heap_start (memory s) heap + i) True (kernel_directory s) s)
          (\<lambda>(page, s).
            Option.bind (alloc_frame page (heap_supervisor (memory s) heap \<noteq> 0)
                (heap_readonly (memory s) heap = 0) s)
              (\<lambda>s. expand_loop km new_size heap (i + 0x1000) s))
      else Some s)"

definition expand :: "kmalloc_fn \<Rightarrow> u32 \<Rightarrow> u32 \<Rightarrow> kstate \<Rightarrow> kstate option" where
  "expand km new_size heap s =
     (let s = assert_s ''memory.c'' 239
                (new_size > heap_end (memory s) heap - heap_start (memory s) heap) s;
          new_size = (if new_size AND 1 \<noteq> 0 then (new_size AND 0xFFFFF000) + 0x1000 else new_size);
          s = assert_s ''memory.c'' 249 (heap_start (memory s) heap + new_size \<le> heap_max (memory s) heap) s;
          old_size = heap_end (memory s) heap - heap_start (memory s) heap
      in Option.bind (expand_loop km new_size heap old_size s)
           (\<lambda>s. Some (upd_mem (\<lambda>m. store32 m (heap + 20) (heap_start m heap + new_size)) s)))"

partial_function (option) contract_loop :: "u32 \<Rightarrow> u32 \<Rightarrow> u32 \<Rightarrow> kstate \<Rightarrow> kstate option" where
  "contract_loop new_size heap i s =
     (if new_size < i then
        Option.bind (get_page (\<lambda>_ _. None) (heap_start (memory s) heap + i) False (kernel_directory s) s)
          (\<lambda>(page, s). contract_loop new_size heap (i - 0x1000) (free_frame page s))
      else Some s)"

definition contract :: "u32 \<Rightarrow> u32 \<Rightarrow> kstate \<Rightarrow> (u32 \<times> kstate) option" where
  "contract new_size heap s =
     (let s = assert_s ''memory.c'' 267
                (new_size < heap_end (memory s) heap - heap_start (memory s) heap) s;
          new_size = (if new_size AND 0x1000 \<noteq> 0 then (new_size AND 0x1000) + 0x1000 else new_size);
          new_size = (if new_size < HEAP_MIN_SIZE then HEAP_MIN_SIZE else new_size);
          old_size = heap_end (memory s) heap - heap_start (memory s) heap
      in Option.bind (contract_loop new_size heap (old_size - 0x1000) s)
           (\<lambda>s. Some (new_size, upd_mem (\<lambda>m. store32 m (heap + 20) (heap_start m heap + new_size)) s)))"

subsection \<open>\<open>alloc\<close>\<close>

text \<open>The search for the hole with the highest address; \<open>idx\<close> starts at \<open>-1\<close>.\<close>

function find_last_hole :: "u32 \<Rightarrow> u32 \<Rightarrow> u32 \<Rightarrow> u32 \<Rightarrow> kstate \<Rightarrow> u32 \<times> kstate" where
  "find_last_hole heap iterator idx val s =
     (if iterator < oa_size_at (memory s) heap then
        (let (tmp, s) = lookup_s iterator heap s
         in if tmp > val then find_last_hole heap (iterator + 1) iterator tmp s
            else find_last_hole heap (iterator + 1) idx val s)
      else (idx, s))"
  by pat_completeness auto
termination
  by (relation "measure (\<lambda>(heap, iterator, idx, val, s). 4294967296 - unat iterator)")
    (auto intro: counter_decreases)

declare find_last_hole.simps [simp del]

text \<open>After \<open>expand\<close>: the new space becomes a hole, or is added to the last hole's size.\<close>

definition alloc_grow :: "u32 \<Rightarrow> u32 \<Rightarrow> u32 \<Rightarrow> u32 \<Rightarrow> kstate \<Rightarrow> kstate" where
  "alloc_grow old_length old_end_address new_length heap s =
     (let (idx, s) = find_last_hole heap 0 (- 1) 0 s
      in if idx = - 1 then
           (let header = old_end_address;
                s = upd_mem (put_header header 1 (new_length - old_length)) s;
                footer = old_end_address + hdr_size (memory s) header - 8;
                s = upd_mem (put_footer footer header) s
            in insert_s header heap s)
         else
           (let (header, s) = lookup_s idx heap s;
                s = upd_mem (\<lambda>m. store32 m (header + 8)
                       (hdr_size m header + (new_length - old_length))) s;
                footer = header + hdr_size (memory s) header - 8
            in upd_mem (put_footer footer header) s))"

text \<open>
  Placing the block in the hole at position \<open>iterator\<close> of the index. \<open>new_size\<close> counts the
  header and the footer.
\<close>

definition alloc_place :: "u32 \<Rightarrow> u32 \<Rightarrow> u32 \<Rightarrow> u8 \<Rightarrow> u32 \<Rightarrow> kstate \<Rightarrow> u32 \<times> kstate" where
  "alloc_place iterator sz new_size page_align heap s =
     (let (orig_hole_header, s) = lookup_s iterator heap s;
          orig_hole_pos = orig_hole_header;
          orig_hole_size = hdr_size (memory s) orig_hole_header;
          (sz, new_size) =
            (if orig_hole_size - new_size < 12 + 8
             then (sz + (orig_hole_size - new_size), orig_hole_size) else (sz, new_size));
          (orig_hole_pos, orig_hole_size, s) =
            (if page_align \<noteq> 0 \<and> orig_hole_pos AND 0xFFFFF000 \<noteq> 0 then
               (let new_location = orig_hole_pos + 0x1000 - (orig_hole_pos AND 0xFFF) - 12;
                    s = upd_mem (put_header orig_hole_pos 1 (0x1000 - (orig_hole_pos AND 0xFFF) - 12)) s;
                    s = upd_mem (put_footer (new_location - 8) orig_hole_pos) s
                in (new_location, orig_hole_size - hdr_size (memory s) orig_hole_pos, s))
             else (orig_hole_pos, orig_hole_size, remove_s iterator heap s));
          block_header = orig_hole_pos;
          s = upd_mem (put_header block_header 0 new_size) s;
          s = upd_mem (put_footer (orig_hole_pos + 12 + sz) block_header) s;
          s = (if orig_hole_size - new_size > 0 then
                 (let hole_header = orig_hole_pos + 12 + sz + 8;
                      s = upd_mem (put_header hole_header 1 (orig_hole_size - new_size)) s;
                      hole_footer = hole_header + orig_hole_size - new_size - 8;
                      s = (if hole_footer < heap_end (memory s) heap
                           then upd_mem (put_footer hole_footer hole_header) s else s)
                  in insert_s hole_header heap s)
               else s)
      in (block_header + 12, s))"

subsection \<open>\<open>free\<close>\<close>

text \<open>The search of the index for a header; the result is its position or the index's size.\<close>

function find_index :: "u32 \<Rightarrow> u32 \<Rightarrow> u32 \<Rightarrow> kstate \<Rightarrow> u32 \<times> kstate" where
  "find_index test_header heap iterator s =
     (if iterator < oa_size_at (memory s) heap then
        (let (v, s) = lookup_s iterator heap s
         in if v \<noteq> test_header then find_index test_header heap (iterator + 1) s
            else (iterator, s))
      else (iterator, s))"
  by pat_completeness auto
termination
  by (relation "measure (\<lambda>(test_header, heap, iterator, s). 4294967296 - unat iterator)")
    (auto intro: counter_decreases)

declare find_index.simps [simp del]

definition free_unify_left :: "u32 \<Rightarrow> u32 \<Rightarrow> kstate \<Rightarrow> u32 \<times> bool \<times> kstate" where
  "free_unify_left header footer s =
     (let test_footer = header - 8; m = memory s
      in if ftr_magic m test_footer = HEAP_MAGIC \<and> hdr_is_hole m (ftr_header m test_footer) = 1 then
           (let cache_size = hdr_size m header;
                header = ftr_header m test_footer;
                s = upd_mem (\<lambda>m. store32 m (footer + 4) header) s;
                s = upd_mem (\<lambda>m. store32 m (header + 8) (hdr_size m header + cache_size)) s
            in (header, False, s))
         else (header, True, s))"

definition free_unify_right :: "u32 \<Rightarrow> u32 \<Rightarrow> u32 \<Rightarrow> kstate \<Rightarrow> u32 \<times> u32 \<times> kstate" where
  "free_unify_right header footer heap s =
     (let test_header = footer + 8
      in if hdr_magic (memory s) test_header = HEAP_MAGIC \<and> hdr_is_hole (memory s) test_header \<noteq> 0 then
           (let s = upd_mem (\<lambda>m. store32 m (header + 8) (hdr_size m header + hdr_size m test_header)) s;
                test_footer = test_header + hdr_size (memory s) test_header - 8;
                (iterator, s) = find_index test_header heap 0 s;
                s = assert_s ''memory.c'' 467 (iterator < oa_size_at (memory s) heap) s;
                s = remove_s iterator heap s
            in (test_footer, test_header, s))
         else (footer, test_header, s))"

definition free_contract :: "u32 \<Rightarrow> u32 \<Rightarrow> u32 \<Rightarrow> u32 \<Rightarrow> kstate \<Rightarrow> kstate option" where
  "free_contract header footer test_header heap s =
     (if footer + 8 = heap_end (memory s) heap then
        (let old_length = heap_end (memory s) heap - heap_start (memory s) heap
         in Option.bind (contract (header - heap_start (memory s) heap) heap s) (\<lambda>(new_length, s).
              if hdr_size (memory s) header - (old_length - new_length) > 0 then
                (let s = upd_mem (\<lambda>m. store32 m (header + 8)
                           (hdr_size m header - (old_length - new_length))) s;
                     footer = header + hdr_size (memory s) header - 8
                 in Some (upd_mem (put_footer footer header) s))
              else
                (let (iterator, s) = find_index test_header heap 0 s
                 in if iterator < oa_size_at (memory s) heap then Some (remove_s iterator heap s)
                    else Some s)))
      else Some s)"

definition free :: "u32 \<Rightarrow> u32 \<Rightarrow> kstate \<Rightarrow> kstate option" where
  "free p heap s =
     (if p = 0 then Some s
      else
        (let header = p - 12;
             footer = header + hdr_size (memory s) header - 8;
             s = assert_s ''memory.c'' 429 (hdr_magic (memory s) header = HEAP_MAGIC) s;
             s = assert_s ''memory.c'' 430 (ftr_magic (memory s) footer = HEAP_MAGIC) s;
             s = upd_mem (\<lambda>m. store8 m (header + 4) 1) s;
             (header, do_add, s) = free_unify_left header footer s;
             (footer, test_header, s) = free_unify_right header footer heap s
         in Option.bind (free_contract header footer test_header heap s)
              (\<lambda>s. Some (if do_add then insert_s header heap s else s))))"

subsection \<open>\<open>kmalloc\<close>\<close>

text \<open>
  \<open>kmalloc_int\<close> with the heap's \<open>alloc\<close> as an argument. It returns the address, the word it
  stores through \<open>phys_addr\<close> (\<open>0\<close> when the pointer is null), and the state. Before the heap
  exists it only moves \<open>free_mem_addr\<close>.
\<close>

definition kmalloc_int_with ::
    "(u32 \<Rightarrow> u8 \<Rightarrow> u32 \<Rightarrow> kstate \<Rightarrow> (u32 \<times> kstate) option) \<Rightarrow>
      u32 \<Rightarrow> u32 \<Rightarrow> bool \<Rightarrow> kstate \<Rightarrow> (u32 \<times> u32 \<times> kstate) option" where
  "kmalloc_int_with al sz align phys_addr s =
     (if kheap s \<noteq> 0 then
        Option.bind (al sz (ucast align) (kheap s) s) (\<lambda>(addr, s).
          if phys_addr then
            Option.bind (get_page (\<lambda>_ _. None) addr False (kernel_directory s) s) (\<lambda>(page, s).
              Some (addr, pg_frame (load32 (memory s) page) * 0x1000 + (addr AND 0xFFF), s))
          else Some (addr, 0, s))
      else
        (let s = (if align = 1 \<and> free_mem_addr s AND 0x00000FFF \<noteq> 0
                  then s\<lparr>free_mem_addr := (free_mem_addr s AND 0xFFFFF000) + 0x1000\<rparr> else s);
             phys = (if phys_addr then free_mem_addr s else 0);
             ret = free_mem_addr s
         in Some (ret, phys, s\<lparr>free_mem_addr := free_mem_addr s + sz\<rparr>)))"

text \<open>
  \<open>alloc\<close> calls itself after growing the heap, and growing the heap may call it again for a
  new page table. The first argument bounds this depth; \<open>None\<close> means that the bound was too
  small or that the heap could not grow.
\<close>

fun alloc :: "nat \<Rightarrow> u32 \<Rightarrow> u8 \<Rightarrow> u32 \<Rightarrow> kstate \<Rightarrow> (u32 \<times> kstate) option" where
  "alloc 0 sz page_align heap s = None"
| "alloc (Suc fuel) sz page_align heap s =
     (let new_size = sz + 12 + 8;
          (iterator, s) = find_smallest_hole new_size page_align heap s
      in if iterator = - 1 then
           (let old_length = heap_end (memory s) heap - heap_start (memory s) heap;
                old_end_address = heap_end (memory s) heap
            in Option.bind
                 (expand (\<lambda>n. kmalloc_int_with (alloc fuel) n 1 True) (old_length + new_size) heap s)
                 (\<lambda>s. let new_length = heap_end (memory s) heap - heap_start (memory s) heap;
                          s = alloc_grow old_length old_end_address new_length heap s
                      in alloc fuel sz page_align heap s))
         else Some (alloc_place iterator sz new_size page_align heap s))"

definition kmalloc_int :: "nat \<Rightarrow> u32 \<Rightarrow> u32 \<Rightarrow> bool \<Rightarrow> kstate \<Rightarrow> (u32 \<times> u32 \<times> kstate) option" where
  "kmalloc_int fuel = kmalloc_int_with (alloc fuel)"

definition kmalloc_a :: "nat \<Rightarrow> u32 \<Rightarrow> kstate \<Rightarrow> (u32 \<times> kstate) option" where
  "kmalloc_a fuel sz s = map_option (\<lambda>(a, _, s). (a, s)) (kmalloc_int fuel sz 1 False s)"

definition kmalloc_p :: "nat \<Rightarrow> u32 \<Rightarrow> kstate \<Rightarrow> (u32 \<times> u32 \<times> kstate) option" where
  "kmalloc_p fuel sz s = kmalloc_int fuel sz 0 True s"

definition kmalloc_ap :: "nat \<Rightarrow> u32 \<Rightarrow> kstate \<Rightarrow> (u32 \<times> u32 \<times> kstate) option" where
  "kmalloc_ap fuel sz s = kmalloc_int fuel sz 1 True s"

definition kmalloc :: "nat \<Rightarrow> u32 \<Rightarrow> kstate \<Rightarrow> (u32 \<times> kstate) option" where
  "kmalloc fuel sz s = map_option (\<lambda>(a, _, s). (a, s)) (kmalloc_int fuel sz 0 False s)"

definition kfree :: "u32 \<Rightarrow> kstate \<Rightarrow> kstate option" where
  "kfree ptr s = (if kheap s \<noteq> 0 then free ptr (kheap s) s else Some s)"

subsection \<open>\<open>create_heap\<close>\<close>

text \<open>
  \<open>less_than_fn\<close> is the address of \<open>header_t_less_than\<close>, which the linker chooses. The test
  \<open>start & 0xFFFFF000 != 0\<close> again reads the lowest bit only.
\<close>

definition create_heap ::
    "nat \<Rightarrow> u32 \<Rightarrow> u32 \<Rightarrow> u32 \<Rightarrow> u32 \<Rightarrow> u8 \<Rightarrow> u8 \<Rightarrow> kstate \<Rightarrow> (u32 \<times> kstate) option" where
  "create_heap fuel less_than_fn start end_addr max_addr supervisor readonly s =
     Option.bind (kmalloc fuel 32 s) (\<lambda>(heap, s).
       let s = assert_s ''memory.c'' 203 (start mod 0x1000 = 0) s;
           s = assert_s ''memory.c'' 204 (end_addr mod 0x1000 = 0) s;
           (oa, m) = place_ordered_array start HEAP_INDEX_SIZE less_than_fn (memory s);
           s = s\<lparr>memory := put_ordered_array m heap oa\<rparr>;
           start = start + 4 * HEAP_INDEX_SIZE;
           start = (if start AND 1 \<noteq> 0 then (start AND 0xFFFFF000) + 0x1000 else start);
           s = upd_mem (\<lambda>m. store8 (store8 (store32 (store32 (store32 m
                 (heap + 16) start) (heap + 20) end_addr) (heap + 24) max_addr)
                 (heap + 28) supervisor) (heap + 29) readonly) s;
           hole = start;
           s = upd_mem (put_header hole 1 (end_addr - start)) s
       in Some (heap, insert_s hole heap s))"

definition create_ordered_array ::
    "nat \<Rightarrow> u32 \<Rightarrow> u32 \<Rightarrow> kstate \<Rightarrow> (ordered_array \<times> kstate) option" where
  "create_ordered_array fuel max_size less_than_fn s =
     map_option (\<lambda>(a, s).
       (\<lparr>oa_array = a, oa_size = 0, oa_max_size = max_size, oa_less_than = less_than_fn\<rparr>,
        upd_mem (\<lambda>m. snd (memset a 0 (max_size * 4) m)) s)) (kmalloc fuel (max_size * 4) s)"

definition destroy_ordered_array :: "u32 \<Rightarrow> kstate \<Rightarrow> kstate option" where
  "destroy_ordered_array arr s = kfree (oa_array_at (memory s) arr) s"

end
