(* ===== verification/Heap_Blocks.thy ===== *)
theory Heap_Blocks
  imports Kernel_Heap
begin

text \<open>
  The heap as a list of blocks. The area from \<open>start_address\<close> to \<open>end_address\<close> is tiled by
  blocks and holes, each with its header and its footer; \<open>chain\<close> says so, block by block, and
  depends on the bytes of the area only. \<open>heap_inv\<close> adds the index: it holds exactly the
  holes, and the heap structure, the index and the area do not overlap. The footer of a hole
  that ends at \<open>end_address\<close> is not required, because \<open>create_heap\<close> does not write it.
\<close>

subsection \<open>Blocks\<close>

type_synonym block = "nat \<times> bool"

definition footer_at :: "mem \<Rightarrow> u32 \<Rightarrow> nat \<Rightarrow> bool" where
  "footer_at m a n \<longleftrightarrow>
     ftr_magic m (a + of_nat n - 8) = HEAP_MAGIC \<and> ftr_header m (a + of_nat n - 8) = a"

definition block_at :: "mem \<Rightarrow> u32 \<Rightarrow> u32 \<Rightarrow> block \<Rightarrow> bool" where
  "block_at m e a b \<longleftrightarrow> (let (n, hole) = b in
     hdr_magic m a = HEAP_MAGIC \<and> hdr_is_hole m a = (if hole then 1 else 0)
     \<and> hdr_size m a = of_nat n \<and> 20 \<le> n \<and> unat a + n < 4294967296
     \<and> (hole \<and> a + of_nat n = e \<or> footer_at m a n))"

fun chain :: "mem \<Rightarrow> u32 \<Rightarrow> u32 \<Rightarrow> block list \<Rightarrow> bool" where
  "chain m e a [] = True"
| "chain m e a (b # bs) = (block_at m e a b \<and> chain m e (a + of_nat (fst b)) bs)"

definition total :: "block list \<Rightarrow> nat" where
  "total bs = sum_list (map fst bs)"

text \<open>The addresses of the holes, and the address and size of each hole.\<close>

fun holes :: "u32 \<Rightarrow> block list \<Rightarrow> u32 list" where
  "holes a [] = []"
| "holes a (b # bs) = (if snd b then [a] else []) @ holes (a + of_nat (fst b)) bs"

lemma total_simps [simp]:
  "total [] = 0" "total (b # bs) = fst b + total bs" "total (xs @ ys) = total xs + total ys"
  by (simp_all add: total_def)

lemma chain_append:
  "chain m e a (xs @ ys) \<longleftrightarrow> chain m e a xs \<and> chain m e (a + of_nat (total xs)) ys"
  by (induction xs arbitrary: a) (auto simp: add.assoc)

lemma holes_append: "holes a (xs @ ys) = holes a xs @ holes (a + of_nat (total xs)) ys"
  by (induction xs arbitrary: a) (auto simp: add.assoc)

lemma block_atD:
  assumes "block_at m e a (n, h)"
  shows "20 \<le> n" "unat a + n < 4294967296" "unat (hdr_size m a) = n"
    "hdr_magic m a = HEAP_MAGIC" "hdr_is_hole m a = (if h then 1 else 0)"
  using assms by (auto simp: block_at_def unat_of_nat_small)

text \<open>The words of a block lie in its bytes.\<close>

lemma block_words_within:
  assumes "20 \<le> n" "unat (a::u32) + n < 4294967296"
  shows "within a 4 c \<Longrightarrow> within a n c" "within (a + 4) 1 c \<Longrightarrow> within a n c"
    "within (a + 8) 4 c \<Longrightarrow> within a n c"
    "within (a + of_nat n - 8) 4 c \<Longrightarrow> within a n c"
    "within (a + of_nat n - 8 + 4) 4 c \<Longrightarrow> within a n c"
proof -
  have "of_nat n - 8 = (of_nat (n - 8) :: u32)" using assms by (simp add: of_nat_diff)
  then have e: "a + of_nat n - 8 = a + of_nat (n - 8)" by (simp add: add_diff_eq)
  have sub: "within a n c" if "within (a + of_nat k) w c" "k + w \<le> n" for k w
    using within_split [of k w a c] that assms by (auto intro: within_mono)
  show "within a 4 c \<Longrightarrow> within a n c" "within (a + 4) 1 c \<Longrightarrow> within a n c"
    "within (a + 8) 4 c \<Longrightarrow> within a n c"
    using sub [of 0 4] sub [of 4 1] sub [of 8 4] assms(1) by simp_all
  show "within (a + of_nat n - 8) 4 c \<Longrightarrow> within a n c"
    using sub [of "n - 8" 4] assms(1) by (simp add: e)
  have e4: "a + of_nat n - 8 + 4 = a + of_nat (n - 4)"
    using assms(1) by (simp add: of_nat_diff)
  show "within (a + of_nat n - 8 + 4) 4 c \<Longrightarrow> within a n c"
    unfolding e4 using sub [of "n - 4" 4] assms(1) by simp
qed

lemma block_at_cong:
  assumes b: "block_at m e a b" and eq: "\<And>c. within a (fst b) c \<Longrightarrow> m' c = m c"
  shows "block_at m' e a b"
proof (cases b)
  case (Pair n h)
  note bd = block_atD(1,2) [OF b [unfolded Pair]]
  have loads: "load32 m' a = load32 m a" "load32 m' (a + 8) = load32 m (a + 8)"
    "load32 m' (a + of_nat n - 8) = load32 m (a + of_nat n - 8)"
    "load32 m' (a + of_nat n - 8 + 4) = load32 m (a + of_nat n - 8 + 4)"
    using block_words_within [OF bd] eq by (auto simp: Pair intro!: load32_cong)
  have "load8 m' (a + 4) = load8 m (a + 4)"
    using block_words_within(2) [OF bd] eq by (simp add: Pair load8_def)
  then show ?thesis
    using b loads by (simp add: Pair block_at_def footer_at_def hdr_magic_def hdr_is_hole_def
        hdr_size_def ftr_magic_def ftr_header_def)
qed

lemma chain_cong:
  "chain m e a bs \<Longrightarrow> unat a + total bs < 4294967296 \<Longrightarrow>
     (\<And>c. within a (total bs) c \<Longrightarrow> m' c = m c) \<Longrightarrow> chain m' e a bs"
proof (induction bs arbitrary: a)
  case (Cons b bs)
  have n: "fst b + total bs \<le> 4294967296" "unat (a + of_nat (fst b)) = unat a + fst b"
    using Cons.prems(2) unat_add_of_nat [of a "fst b"] by simp_all
  have "block_at m' e a b"
  proof (rule block_at_cong)
    show "block_at m e a b" using Cons.prems(1) by simp
    fix c assume "within a (fst b) c"
    then have "within a (total (b # bs)) c" by (rule within_mono) simp
    then show "m' c = m c" by (rule Cons.prems(3))
  qed
  moreover have "chain m' e (a + of_nat (fst b)) bs"
    using Cons.prems within_split [OF n(1)] by (intro Cons.IH) (auto simp: n(2))
  ultimately show ?case by simp
qed simp

lemma holes_blocks:
  "x \<in> set (holes a bs) \<longleftrightarrow>
     (\<exists>xs n ys. bs = xs @ (n, True) # ys \<and> x = a + of_nat (total xs))"
proof (induction bs arbitrary: a)
  case (Cons b bs)
  have "(\<exists>xs n ys. b # bs = xs @ (n, True) # ys \<and> x = a + of_nat (total xs)) \<longleftrightarrow>
      snd b \<and> x = a \<or> (\<exists>xs n ys. bs = xs @ (n, True) # ys \<and> x = a + of_nat (fst b) + of_nat (total xs))"
    (is "?l \<longleftrightarrow> ?r")
  proof
    assume ?l
    then obtain xs n ys where l: "b # bs = xs @ (n, True) # ys" "x = a + of_nat (total xs)" by auto
    then show ?r by (cases xs) (auto simp: add.assoc)
  next
    assume ?r
    then show ?l
    proof (elim disjE exE conjE)
      assume "snd b" "x = a"
      then show ?thesis by (intro exI [of _ "[]"] exI [of _ "fst b"] exI [of _ bs]) (simp add: prod_eq_iff)
    next
      fix xs n ys assume "bs = xs @ (n, True) # ys" "x = a + of_nat (fst b) + of_nat (total xs)"
      then show ?thesis
        by (intro exI [of _ "b # xs"] exI [of _ n] exI [of _ ys]) (simp add: add.assoc)
    qed
  qed
  then show ?case using Cons.IH by auto
qed simp

subsection \<open>Writing a block\<close>

text \<open>Header and footer stores stay in the block's bytes, and make it a block.\<close>

lemma put_header_other:
  "\<not> within a 4 c \<Longrightarrow> \<not> within (a + 4) 1 c \<Longrightarrow> \<not> within (a + 8) 4 c \<Longrightarrow>
     put_header a h n m c = m c"
  by (simp add: put_header_def store32_other store8_def within_1 [simplified])

lemma put_footer_other:
  "\<not> within a 4 c \<Longrightarrow> \<not> within (a + 4) 4 c \<Longrightarrow> put_footer a h m c = m c"
  by (simp add: put_footer_def store32_other)

lemma put_header_outside:
  "20 \<le> n \<Longrightarrow> unat (a::u32) + n < 4294967296 \<Longrightarrow> \<not> within a n c \<Longrightarrow> put_header a h k m c = m c"
  by (rule put_header_other) (auto dest: block_words_within)

lemma put_footer_outside:
  "20 \<le> n \<Longrightarrow> unat (a::u32) + n < 4294967296 \<Longrightarrow> \<not> within a n c \<Longrightarrow>
     put_footer (a + of_nat n - 8) k m c = m c"
  by (rule put_footer_other) (auto dest: block_words_within)

lemma header_put:
  "hdr_magic (put_header a h n m) a = HEAP_MAGIC" "hdr_is_hole (put_header a h n m) a = h"
  "hdr_size (put_header a h n m) a = n"
  by (simp_all add: put_header_def hdr_magic_def hdr_is_hole_def hdr_size_def mem_simps apart_def)

lemma footer_put:
  "ftr_magic (put_footer a h m) a = HEAP_MAGIC" "ftr_header (put_footer a h m) a = h"
  by (simp_all add: put_footer_def ftr_magic_def ftr_header_def mem_simps apart_def)

lemma header_cong:
  assumes "\<And>c. within a 12 c \<Longrightarrow> m' c = m c"
  shows "hdr_magic m' a = hdr_magic m a" "hdr_is_hole m' a = hdr_is_hole m a"
    "hdr_size m' a = hdr_size m a"
proof -
  have "within a 12 c" if "within a 4 c \<or> within (a + 4) 1 c \<or> within (a + 8) 4 c" for c
    using that within_split [of 4 1 a c] within_split [of 8 4 a c] by (auto intro: within_mono)
  then show "hdr_magic m' a = hdr_magic m a" "hdr_is_hole m' a = hdr_is_hole m a"
    "hdr_size m' a = hdr_size m a"
    using assms by (auto simp: hdr_magic_def hdr_is_hole_def hdr_size_def load8_def intro!: load32_cong)
qed

lemma header_put_footer:
  assumes "20 \<le> n" "unat (a::u32) + n < 4294967296"
  shows "hdr_magic (put_footer (a + of_nat n - 8) k m) a = hdr_magic m a"
    "hdr_is_hole (put_footer (a + of_nat n - 8) k m) a = hdr_is_hole m a"
    "hdr_size (put_footer (a + of_nat n - 8) k m) a = hdr_size m a"
proof -
  have o: "a + of_nat n - 8 = a + of_nat (n - 8)" "a + of_nat n - 8 + 4 = a + of_nat (n - 4)"
    using assms(1) by (simp_all add: of_nat_diff)
  have u: "unat (a + of_nat (n - 8)) = unat a + (n - 8)" "unat (a + of_nat (n - 4)) = unat a + (n - 4)"
    by (rule unat_add_of_nat, use assms in linarith)+
  have "put_footer (a + of_nat n - 8) k m c = m c" if "within a 12 c" for c
  proof (rule put_footer_other)
    have c: "unat c < unat a + 12" using that assms by (simp add: within_nat)
    show "\<not> within (a + of_nat n - 8) 4 c"
      unfolding o(1) by (subst within_nat, use c u assms in linarith, use c u assms in linarith)
    show "\<not> within (a + of_nat n - 8 + 4) 4 c"
      unfolding o(2) by (subst within_nat, use c u assms in linarith, use c u assms in linarith)
  qed
  note h = header_cong [of a "put_footer (a + of_nat n - 8) k m" m, OF this]
  show "hdr_magic (put_footer (a + of_nat n - 8) k m) a = hdr_magic m a"
    "hdr_is_hole (put_footer (a + of_nat n - 8) k m) a = hdr_is_hole m a"
    "hdr_size (put_footer (a + of_nat n - 8) k m) a = hdr_size m a"
    by (rule h, assumption)+
qed

lemma block_put:
  assumes "20 \<le> n" "unat a + n < 4294967296"
  shows "block_at (put_footer (a + of_nat n - 8) a (put_header a (if h then 1 else 0) (of_nat n) m)) e a (n, h)"
  using assms by (simp add: block_at_def header_put_footer header_put footer_at_def footer_put)

text \<open>Replacing blocks of a chain by blocks of the same total size.\<close>

lemma chain_replace_list:
  assumes ch: "chain m e a (xs @ ws @ ys)" and bound: "unat a + total (xs @ ws @ ys) < 4294967296"
    and zs: "chain m' e (a + of_nat (total xs)) zs" "total zs = total ws"
    and eq: "\<And>c. within a (total (xs @ ws @ ys)) c \<Longrightarrow> \<not> within (a + of_nat (total xs)) (total ws) c \<Longrightarrow> m' c = m c"
  shows "chain m' e a (xs @ zs @ ys)"
proof -
  have u: "unat (a + of_nat (total xs)) = unat a + total xs"
    "unat (a + of_nat (total xs + total ws)) = unat a + total xs + total ws"
    using bound unat_add_of_nat [of a "total xs"] unat_add_of_nat [of a "total xs + total ws"] by simp_all
  have all: "chain m e a xs" "chain m e (a + of_nat (total xs + total ws)) ys"
    using ch by (simp_all add: chain_append add.assoc)
  have "chain m' e a xs"
  proof (rule chain_cong [OF all(1)])
    show "unat a + total xs < 4294967296" using bound by simp
    fix c assume c: "within a (total xs) c"
    have "unat c < unat a + total xs" using c bound by (simp add: within_nat)
    then have "\<not> within (a + of_nat (total xs)) (total ws) c"
      using bound u by (simp add: within_nat)
    moreover have "within a (total (xs @ ws @ ys)) c" using c by (auto elim: within_mono)
    ultimately show "m' c = m c" by (intro eq)
  qed
  moreover have "chain m' e (a + of_nat (total xs + total ws)) ys"
  proof (rule chain_cong [OF all(2)])
    show "unat (a + of_nat (total xs + total ws)) + total ys < 4294967296" using bound u by simp
    fix c assume c: "within (a + of_nat (total xs + total ws)) (total ys) c"
    then have "unat a + total xs + total ws \<le> unat c" "unat c < unat a + total xs + total ws + total ys"
      using bound u by (simp_all add: within_nat)
    then show "m' c = m c" using bound u by (intro eq) (simp_all add: within_nat)
  qed
  ultimately show ?thesis using zs by (simp add: chain_append add.assoc)
qed

lemma chain_replace:
  assumes "chain m e a (xs @ b # ys)" "unat a + total (xs @ b # ys) < 4294967296"
    "chain m' e (a + of_nat (total xs)) zs" "total zs = fst b"
    "\<And>c. within a (total (xs @ b # ys)) c \<Longrightarrow> \<not> within (a + of_nat (total xs)) (fst b) c \<Longrightarrow> m' c = m c"
  shows "chain m' e a (xs @ zs @ ys)"
  using chain_replace_list [of m e a xs "[b]" ys m' zs] assms by simp

subsection \<open>The heap invariant\<close>

text \<open>
  \<open>heap_shape m heap n\<close>: the 32 bytes of the structure at \<open>heap\<close>, its index array and the
  area of \<open>n\<close> bytes are pairwise apart. \<open>heap_inv s heap bs\<close>: the area consists of the
  blocks \<open>bs\<close>, and the index holds exactly the holes.
\<close>

definition heap_shape :: "mem \<Rightarrow> u32 \<Rightarrow> nat \<Rightarrow> bool" where
  "heap_shape m heap n \<longleftrightarrow> (let start = heap_start m heap;
       base = oa_array_at m heap; cap = unat (oa_max_size_at m heap) in
     oa_ok heap (m, []) \<and> oa_less_than_at m heap \<noteq> 0
     \<and> unat start + n < 4294967296 \<and> start + of_nat n = heap_end m heap
     \<and> apart heap 32 base (4 * cap) \<and> apart heap 32 start n \<and> apart base (4 * cap) start n)"

definition heap_inv :: "kstate \<Rightarrow> u32 \<Rightarrow> block list \<Rightarrow> bool" where
  "heap_inv s heap bs \<longleftrightarrow> (let m = memory s; start = heap_start m heap in
     heap_shape m heap (total bs) \<and> chain m (heap_end m heap) start bs
     \<and> mset (oa_list m heap) = mset (holes start bs))"

lemma struct_fields_within:
  "within (heap + 16) 4 c \<Longrightarrow> within heap 32 c" "within (heap + 20) 4 c \<Longrightarrow> within heap 32 c"
  "within (heap + 4) 4 c \<Longrightarrow> within heap 32 c" "within heap 16 c \<Longrightarrow> within heap 32 c"
  using within_split [of 16 4 heap c] within_split [of 20 4 heap c] within_split [of 4 4 heap c]
  by (auto intro: within_mono)

text \<open>A step that writes in the area only leaves the structure and the index as they are.\<close>

lemma shape_area:
  assumes sh: "heap_shape m heap n" and eq: "\<And>c. \<not> within (heap_start m heap) n c \<Longrightarrow> m' c = m c"
  shows "heap_shape m' heap n" "oa_list m' heap = oa_list m heap"
    "heap_start m' heap = heap_start m heap" "heap_end m' heap = heap_end m heap"
    "oa_size_at m' heap = oa_size_at m heap" "oa_max_size_at m' heap = oa_max_size_at m heap"
    "oa_array_at m' heap = oa_array_at m heap"
proof -
  let ?start = "heap_start m heap" and ?base = "oa_array_at m heap" and ?cap = "unat (oa_max_size_at m heap)"
  have ap: "apart heap 32 ?start n" "apart ?base (4 * ?cap) ?start n"
    and ok: "oa_ok heap (m, [])"
    using sh by (simp_all add: heap_shape_def Let_def)
  have ch: "only_changes ?start n m m'" using eq by (simp add: only_changes_def)
  have "apart heap 16 ?start n" using struct_fields_within(4) by (auto intro: apart_sub [OF ap(1)])
  note oa = only_changes_struct [OF ch this]
  show "oa_size_at m' heap = oa_size_at m heap" "oa_max_size_at m' heap = oa_max_size_at m heap"
    "oa_array_at m' heap = oa_array_at m heap" by (fact oa)+
  have w: "apart ?start n (heap + 16) 4" "apart ?start n (heap + 20) 4"
    using ap(1) struct_fields_within(1,2) by (auto simp: apart_iff)
  show st: "heap_start m' heap = ?start" "heap_end m' heap = heap_end m heap"
    unfolding heap_start_def heap_end_def
    using only_changes_load32 [OF ch w(1)] only_changes_load32 [OF ch w(2)]
    by (simp_all add: heap_start_def)
  have sz: "unat (oa_size_at m heap) \<le> ?cap" and lay: "unat ?base + 4 * ?cap \<le> 4294967296"
    using ok by (simp_all add: oa_ok_def oa_layout_def Let_def)
  have "array_list m ?base (unat (oa_size_at m heap)) = array_list m' ?base (unat (oa_size_at m heap))"
  proof (rule array_list_cong)
    show "unat ?base + 4 * unat (oa_size_at m heap) \<le> 4294967296" using lay sz by linarith
    fix c assume "within ?base (4 * unat (oa_size_at m heap)) c"
    then have "within ?base (4 * ?cap) c" by (rule within_mono) (use sz in simp)
    then show "m c = m' c" using eq [of c] ap(2) by (auto simp: apart_iff)
  qed
  then show "oa_list m' heap = oa_list m heap" by (simp add: oa_list_def oa)
  show "heap_shape m' heap n"
    using sh by (simp add: heap_shape_def Let_def oa st oa_ok_def oa_layout_def)
qed

text \<open>A step on the index leaves the area and the bounds as they are.\<close>

definition index_step :: "u32 \<Rightarrow> mem \<Rightarrow> mem \<Rightarrow> bool" where
  "index_step heap m m' \<longleftrightarrow> (\<forall>c. \<not> within (oa_array_at m heap) (4 * unat (oa_max_size_at m heap)) c
       \<longrightarrow> \<not> within (heap + 4) 4 c \<longrightarrow> m' c = m c)
     \<and> oa_ok heap (m', []) \<and> oa_array_at m' heap = oa_array_at m heap
     \<and> oa_max_size_at m' heap = oa_max_size_at m heap
     \<and> oa_less_than_at m' heap = oa_less_than_at m heap"

lemma index_step_bounds:
  assumes sh: "heap_shape m heap n" and st: "index_step heap m m'"
  shows "heap_start m' heap = heap_start m heap" "heap_end m' heap = heap_end m heap"
    "heap_shape m' heap n" "within (heap_start m heap) n c \<Longrightarrow> m' c = m c"
proof -
  let ?base = "oa_array_at m heap" and ?cap = "unat (oa_max_size_at m heap)"
  have ap: "apart heap 32 ?base (4 * ?cap)" "apart heap 32 (heap_start m heap) n"
      "apart ?base (4 * ?cap) (heap_start m heap) n"
    using sh by (simp_all add: heap_shape_def Let_def)
  have off: "apart (heap + 16) 4 (heap + 4) 4" "apart (heap + 20) 4 (heap + 4) 4"
    by (simp_all add: apart_same_base apart_def)
  have keep: "load32 m' x = load32 m x"
    if "\<And>c. within x 4 c \<Longrightarrow> within heap 32 c" "apart x 4 (heap + 4) 4" for x
    using that st ap(1) unfolding index_step_def by (intro load32_cong) (auto simp: apart_iff)
  show st': "heap_start m' heap = heap_start m heap" "heap_end m' heap = heap_end m heap"
    unfolding heap_start_def heap_end_def
    using keep [of "heap + 16"] keep [of "heap + 20"] off struct_fields_within by auto
  show "heap_shape m' heap n"
    using sh st by (simp add: heap_shape_def index_step_def st' Let_def)
  show "m' c = m c" if "within (heap_start m heap) n c"
    using that st ap struct_fields_within(3) [of heap c] by (auto simp: index_step_def apart_iff)
qed

lemma insert_s_step:
  assumes "heap_shape (memory s) heap n" "oa_size_at (memory s) heap < oa_max_size_at (memory s) heap"
  obtains m' where "insert_s x heap s = s\<lparr>memory := m'\<rparr>" and "index_step heap (memory s) m'"
    and "mset (oa_list m' heap) = add_mset x (mset (oa_list (memory s) heap))"
    and "set (oa_list m' heap) = insert x (set (oa_list (memory s) heap))"
    and "sorted (map (hdr_size (memory s)) (oa_list (memory s) heap)) \<Longrightarrow>
      sorted (map (hdr_size (memory s)) (oa_list m' heap))"
proof -
  obtain m' out' where ins: "insert_ordered_array header_t_less_than x heap (memory s, console s) = (m', out')"
    by fastforce
  let ?m = "memory s"
  have ok: "oa_ok heap (?m, console s)" "oa_room heap (?m, console s)"
    using assms by (simp_all add: heap_shape_def oa_ok_def oa_room_def Let_def)
  have lay: "oa_layout ?m heap (oa_array_at ?m heap) (unat (oa_max_size_at ?m heap))"
    "unat (oa_size_at ?m heap) < unat (oa_max_size_at ?m heap)" "unat (oa_max_size_at ?m heap) < 4294967296"
    using ok by (simp_all add: oa_ok_def oa_room_def Let_def word_less_nat_alt)
  note facts = insert_ordered_array_list [OF lay ins]
  have "out' = console s"
    using ins assms(1) by (auto simp: insert_ordered_array_def heap_shape_def Let_def split: if_splits)
  then have "insert_s x heap s = s\<lparr>memory := m'\<rparr>" by (simp add: insert_s_def ins)
  moreover have "index_step heap ?m m'"
    using facts(2-6) lay(2) by (auto simp: index_step_def oa_ok_def Let_def oa_layout_def)
  moreover have "mset (oa_list m' heap) = add_mset x (mset (oa_list ?m heap))"
    using oa.mset_ins [OF ok, of header_t_less_than x] by (simp add: ins)
  moreover from this have "set (oa_list m' heap) = insert x (set (oa_list ?m heap))"
    by (metis set_mset_add_mset_insert set_mset_mset)
  moreover have "sorted (map (hdr_size ?m) (oa_list m' heap))"
    if "sorted (map (hdr_size ?m) (oa_list ?m heap))"
    using oa.sorted_ins [OF ok, of "hdr_size ?m" header_t_less_than x] that
    by (simp add: ins header_t_less_than_def)
  ultimately show thesis by (rule that)
qed

lemma remove_s_step:
  assumes "heap_shape (memory s) heap n" "i < length (oa_list (memory s) heap)"
  obtains m' where "remove_s (of_nat i) heap s = s\<lparr>memory := m'\<rparr>" and "index_step heap (memory s) m'"
    and "add_mset (oa_list (memory s) heap ! i) (mset (oa_list m' heap)) = mset (oa_list (memory s) heap)"
    and "oa_size_at m' heap < oa_max_size_at m' heap"
    and "sorted (map (hdr_size (memory s)) (oa_list (memory s) heap)) \<Longrightarrow>
      sorted (map (hdr_size (memory s)) (oa_list m' heap))"
proof -
  let ?m = "memory s"
  let ?m' = "remove_ordered_array (of_nat i) heap ?m"
  have ok: "oa_ok heap (?m, console s)"
    using assms by (simp add: heap_shape_def oa_ok_def Let_def)
  have lay: "oa_layout ?m heap (oa_array_at ?m heap) (unat (oa_max_size_at ?m heap))"
    "unat (oa_size_at ?m heap) \<le> unat (oa_max_size_at ?m heap)"
    using ok by (simp_all add: oa_ok_def Let_def)
  have i: "i < unat (oa_size_at ?m heap)" using assms(2) by (simp add: oa_list_def)
  then have iu: "unat (of_nat i :: u32) = i"
    using unat_lt_2p32 [of "oa_size_at ?m heap"] by (intro unat_of_nat_small) linarith
  then have "(of_nat i :: u32) < oa_size_at ?m heap" using i by (simp only: word_less_nat_alt)
  note facts = remove_ordered_array_list [OF lay this]
  have "remove_s (of_nat i) heap s = s\<lparr>memory := ?m'\<rparr>" by (simp add: remove_s_def upd_mem_def)
  moreover have "index_step heap ?m ?m'"
    using facts(2-6) lay(2) by (auto simp: index_step_def oa_ok_def Let_def oa_layout_def)
  moreover have "add_mset (oa_list ?m heap ! i) (mset (oa_list ?m' heap)) = mset (oa_list ?m heap)"
    using oa.mset_del [OF ok, of i] assms(2) by simp
  moreover have "oa_size_at ?m' heap < oa_max_size_at ?m' heap"
    using facts(2,4) lay(2) i by (simp add: word_less_nat_alt)
  moreover have "sorted (map (hdr_size ?m) (oa_list ?m' heap))"
    if "sorted (map (hdr_size ?m) (oa_list ?m heap))"
    using oa.sorted_del [OF ok, of i "hdr_size ?m"] assms(2) that by simp
  ultimately show thesis by (rule that)
qed

text \<open>The index is in the order of the sizes.\<close>

definition index_sorted :: "kstate \<Rightarrow> u32 \<Rightarrow> bool" where
  "index_sorted s heap \<longleftrightarrow> sorted (map (hdr_size (memory s)) (oa_list (memory s) heap))"

lemma lookup_s_index:
  "i < oa_size_at (memory s) heap \<Longrightarrow> lookup_s i heap s = (oa_list (memory s) heap ! unat i, s)"
  by (simp add: lookup_s_def lookup_ordered_array_def oa_list_def word_less_nat_alt)

text \<open>
  Without page alignment the search returns the position of the first hole that is large
  enough, and the state does not change.
\<close>

lemma find_smallest_hole_from_first:
  "iterator \<le> oa_size_at (memory s) heap \<Longrightarrow>
    find_smallest_hole_from sz 0 heap iterator s = (i, s') \<Longrightarrow>
    s' = s \<and> unat i = unat iterator + length (takeWhile (\<lambda>h. hdr_size (memory s) h < sz)
      (drop (unat iterator) (oa_list (memory s) heap)))"
proof (induction sz "0 :: u8" heap iterator s rule: find_smallest_hole_from.induct)
  case (1 sz heap iterator s)
  let ?xs = "oa_list (memory s) heap" and ?i = "unat iterator"
  have len: "length ?xs = unat (oa_size_at (memory s) heap)" by (simp add: oa_list_def)
  show ?case
  proof (cases "iterator < oa_size_at (memory s) heap")
    case False
    then show ?thesis using "1.prems" len
      by (subst (asm) find_smallest_hole_from.simps) (simp add: word_le_nat_alt word_less_nat_alt)
  next
    case True
    then have i: "?i < length ?xs" by (simp add: len word_less_nat_alt)
    have d: "drop ?i ?xs = ?xs ! ?i # drop (Suc ?i) ?xs" using i by (rule Cons_nth_drop_Suc [symmetric])
    note look = lookup_s_index [OF True]
    show ?thesis
    proof (cases "hdr_size (memory s) (?xs ! ?i) < sz")
      case small: True
      have le: "iterator + 1 \<le> oa_size_at (memory s) heap" using True by (simp add: inc_le)
      have "find_smallest_hole_from sz 0 heap (iterator + 1) s = (i, s')"
        using "1.prems"(2) True small
        by (subst (asm) find_smallest_hole_from.simps) (simp add: look not_le [symmetric])
      from "1.hyps"(2) [OF True look [symmetric] _ _ _ le this] True small
      show ?thesis by (simp add: d unat_Suc_below)
    next
      case False
      then have "find_smallest_hole_from sz 0 heap iterator s = (iterator, s)"
        using True by (subst find_smallest_hole_from.simps) (simp add: look not_less)
      then show ?thesis using "1.prems"(2) False by (simp add: d)
    qed
  qed
qed

text \<open>A position found by the search is the one of the first element that does not pass the test \<open>P\<close>.\<close>

lemma find_smallest_hole_found:
  fixes s heap
  defines "xs \<equiv> oa_list (memory s) heap"
  assumes f: "find_smallest_hole_from sz al heap 0 s = (i, s')" and r: "s' = s" "unat i = length (takeWhile P xs)"
    and x: "x \<in> set xs" "\<not> P x"
  shows "find_smallest_hole sz al heap s = (i, s)" "unat i < length xs" "\<not> P (xs ! unat i)" "i \<noteq> - 1"
    "i < oa_size_at (memory s) heap"
proof -
  have "takeWhile P xs \<noteq> xs" using x by (auto simp: takeWhile_eq_all_conv)
  then have "length (takeWhile P xs) \<noteq> length xs"
    by (metis append_Nil2 append_eq_conv_conj takeWhile_dropWhile_id)
  then show lt: "unat i < length xs" using length_takeWhile_le [of P xs] r(2) by linarith
  have len: "length xs = unat (oa_size_at (memory s) heap)" by (simp add: xs_def oa_list_def)
  show i: "i < oa_size_at (memory s) heap" using lt len by (simp add: word_less_nat_alt)
  then show "i \<noteq> - 1" by (metis not_less word_n1_ge)
  show "\<not> P (xs ! unat i)" using lt r(2) nth_length_takeWhile by metis
  show "find_smallest_hole sz al heap s = (i, s)" using f r(1) i by (auto simp: find_smallest_hole_def)
qed

lemma find_smallest_hole_first:
  fixes s heap sz
  defines "xs \<equiv> oa_list (memory s) heap" and "P \<equiv> \<lambda>h. hdr_size (memory s) h < sz"
  assumes "x \<in> set xs" "\<not> P x"
  obtains i where "find_smallest_hole sz 0 heap s = (of_nat i, s)" and "i < length xs"
    and "i = length (takeWhile P xs)" and "\<not> P (xs ! i)"
    and "of_nat i \<noteq> (- 1 :: u32)" and "(of_nat i :: u32) < oa_size_at (memory s) heap"
proof -
  obtain i s' where f: "find_smallest_hole_from sz 0 heap 0 s = (i, s')" by (metis surj_pair)
  have r: "s' = s" "unat i = length (takeWhile P xs)"
    using find_smallest_hole_from_first [OF _ f] by (simp_all add: xs_def P_def)
  note found = find_smallest_hole_found [OF f r(1), folded xs_def, OF r(2) assms(3,4)]
  have "(of_nat (unat i) :: u32) = i" by simp
  from that [of "unat i", unfolded this, OF found(1,2) r(2) found(3-5)] show thesis .
qed

end
