(* ===== verification/Heap_Create.thy ===== *)
theory Heap_Create
  imports Heap_Blocks
begin

text \<open>
  \<open>create_heap\<close> builds a heap of one hole: it takes the structure from the early allocator,
  clears the index, and enters the area behind the index as a single hole. Also the early
  allocator itself, which \<open>kmalloc_int\<close> is while \<open>kheap\<close> is null.
\<close>

subsection \<open>The early allocator\<close>

text \<open>The next multiple of 4096, as the code computes it.\<close>

definition page_up :: "u32 \<Rightarrow> u32" where
  "page_up a = (if a AND 0xFFF = 0 then a else (a AND 0xFFFFF000) + 0x1000)"

lemma kmalloc_int_early:
  "kheap s = 0 \<Longrightarrow> kmalloc_int fuel sz align phys s =
     (let a = (if align = 1 then page_up (free_mem_addr s) else free_mem_addr s)
      in Some (a, if phys then a else 0, s\<lparr>free_mem_addr := a + sz\<rparr>))"
  by (simp add: kmalloc_int_def kmalloc_int_with_def page_up_def Let_def)

lemma kmalloc_early:
  "kheap s = 0 \<Longrightarrow> kmalloc fuel sz s = Some (free_mem_addr s, s\<lparr>free_mem_addr := free_mem_addr s + sz\<rparr>)"
  by (simp add: kmalloc_def kmalloc_int_early Let_def)

lemma low_mask: "(a::u32) AND 0xFFF = a mod 0x1000"
proof -
  have "(0xFFF::u32) = mask 12" by (simp add: mask_eq_exp_minus_1)
  then have "a AND 0xFFF = take_bit 12 a" by (simp only: take_bit_eq_mask)
  also have "\<dots> = a mod 0x1000" by (simp only: take_bit_eq_mod) simp
  finally show ?thesis .
qed

lemma high_mask: "(a::u32) AND 0xFFFFF000 = a - a mod 0x1000"
proof -
  have "(a AND 0xFFFFF000) + (a AND 0xFFF) = (a AND 0xFFFFF000) OR (a AND 0xFFF)"
    by (rule disjunctive_add_eq_or) (simp add: and.left_commute and.assoc)
  also have "\<dots> = a AND (0xFFFFF000 OR 0xFFF)" by (simp only: bit.conj_disj_distrib)
  also have "(0xFFFFF000 :: u32) OR 0xFFF = - 1" by simp
  finally show ?thesis by (simp add: low_mask eq_diff_eq)
qed

lemma page_up_bounds:
  assumes "unat a < 4294963200"
  shows "unat (page_up a) mod 4096 = 0" "unat a \<le> unat (page_up a)" "unat (page_up a) < unat a + 4096"
proof -
  have m: "unat (a mod 0x1000) = unat a mod 4096" by (simp add: unat_mod_distrib)
  have "unat (a - a mod 0x1000) = unat a - unat a mod 4096"
    by (subst unat_sub_nowrap) (simp_all add: m)
  then have u: "unat (a - a mod 0x1000 + 0x1000) = unat a - unat a mod 4096 + 4096"
    using assms by (subst unat_add_nowrap) simp_all
  have z: "a mod 0x1000 = 0 \<longleftrightarrow> unat a mod 4096 = 0" by (metis m unat_eq_zero)
  have d: "unat a - unat a mod 4096 = 4096 * (unat a div 4096)" by (simp add: minus_mod_eq_mult_div)
  show "unat (page_up a) mod 4096 = 0" "unat a \<le> unat (page_up a)" "unat (page_up a) < unat a + 4096"
    unfolding page_up_def low_mask high_mask using u z by (auto simp: d)
      (use mult_div_mod_eq [of 4096 "unat a"] mod_less_divisor [of 4096 "unat a"] in linarith)+
qed

subsection \<open>\<open>create_heap\<close>\<close>

lemma aligned_no_bump: "(start::u32) mod 0x1000 = 0 \<Longrightarrow> (start + 0x80000) AND 1 = 0"
proof -
  assume "start mod 0x1000 = 0"
  then have "start = start div 0x1000 * 0x1000" using div_mult_mod_eq [of start "0x1000"] by simp
  then have "even start" by (metis dvd_mult even_numeral)
  then have "even (start + 0x80000)" by simp
  then show ?thesis by (simp only: and_one_eq even_iff_mod_2_eq_zero)
qed

text \<open>The structure after its fields are written, before the hole is.\<close>

definition fresh_struct :: "u32 \<Rightarrow> ordered_array \<Rightarrow> u32 \<Rightarrow> u32 \<Rightarrow> u32 \<Rightarrow> u8 \<Rightarrow> u8 \<Rightarrow> mem \<Rightarrow> mem" where
  "fresh_struct heap oa start e mx su ro m =
     store8 (store8 (store32 (store32 (store32 (put_ordered_array m heap oa)
       (heap + 16) start) (heap + 20) e) (heap + 24) mx) (heap + 28) su) (heap + 29) ro"

lemma fresh_struct_fields:
  "oa_array_at (fresh_struct heap oa start e mx su ro m) heap = oa_array oa"
  "oa_size_at (fresh_struct heap oa start e mx su ro m) heap = oa_size oa"
  "oa_max_size_at (fresh_struct heap oa start e mx su ro m) heap = oa_max_size oa"
  "oa_less_than_at (fresh_struct heap oa start e mx su ro m) heap = oa_less_than oa"
  "heap_start (fresh_struct heap oa start e mx su ro m) heap = start"
  "heap_end (fresh_struct heap oa start e mx su ro m) heap = e"
  by (simp_all add: fresh_struct_def put_ordered_array_def oa_array_at_def oa_size_at_def
      oa_max_size_at_def oa_less_than_at_def heap_start_def heap_end_def mem_simps apart_def)

text \<open>A fresh structure with its first hole, entered in the index.\<close>

lemma first_hole:
  assumes m: "memory s = put_header hole 1 (of_nat n) (fresh_struct heap
      \<lparr>oa_array = base, oa_size = 0, oa_max_size = 0x20000, oa_less_than = fn\<rparr> hole e mx su ro m0)"
    and n: "20 \<le> n" "unat hole + n < 4294967296" "hole + of_nat n = e" and fn: "fn \<noteq> 0"
    and base: "unat base + 0x80000 \<le> 4294967296"
    and ap: "apart heap 32 base 0x80000" "apart heap 32 hole n" "apart base 0x80000 hole n"
  obtains m' where "insert_s hole heap s = s\<lparr>memory := m'\<rparr>"
    and "heap_inv (s\<lparr>memory := m'\<rparr>) heap [(n, True)]"
    and "index_sorted (s\<lparr>memory := m'\<rparr>) heap"
    and "heap_start m' heap = hole" "heap_end m' heap = e" "oa_max_size_at m' heap = 0x20000"
      "oa_array_at m' heap = base"
    and "\<And>c. \<not> within heap 32 c \<Longrightarrow> \<not> within base 0x80000 c \<Longrightarrow> \<not> within hole 12 c \<Longrightarrow> m' c = m0 c"
proof -
  let ?m1 = "fresh_struct heap \<lparr>oa_array = base, oa_size = 0, oa_max_size = 0x20000, oa_less_than = fn\<rparr>
      hole e mx su ro m0" and ?m = "memory s"
  note f1 = fresh_struct_fields [of heap "\<lparr>oa_array = base, oa_size = 0, oa_max_size = 0x20000, oa_less_than = fn\<rparr>"
      hole e mx su ro m0, simplified]
  have "apart heap 16 base 0x80000"
    using struct_fields_within(4) by (auto intro: apart_sub [OF ap(1)])
  then have sh1: "heap_shape ?m1 heap n"
    using n fn ap base by (simp add: heap_shape_def oa_ok_def oa_layout_def f1 Let_def)
  have "?m c = ?m1 c" if "\<not> within (heap_start ?m1 heap) n c" for c
    using that n by (simp add: m f1 put_header_outside)
  then have base_m: "oa_array_at ?m heap = base"
    using shape_area(7) [OF sh1, of ?m] by (simp add: f1)
  have "?m c = ?m1 c" if "\<not> within (heap_start ?m1 heap) n c" for c
    using that n by (simp add: m f1 put_header_outside)
  then have sh: "heap_shape ?m heap n" "oa_list ?m heap = oa_list ?m1 heap" "heap_start ?m heap = hole"
    "heap_end ?m heap = e" "oa_size_at ?m heap = 0" "oa_max_size_at ?m heap = 0x20000"
    using shape_area [OF sh1, of ?m] by (simp_all add: f1)
  obtain m' where ins: "insert_s hole heap s = s\<lparr>memory := m'\<rparr>" and st: "index_step heap ?m m'"
    and ms: "mset (oa_list m' heap) = add_mset hole (mset (oa_list ?m heap))"
    using insert_s_step [of s heap n hole] sh(1,5,6) by auto
  note b = index_step_bounds [OF sh(1) st]
  have empty: "oa_list ?m heap = []" using sh(5) by (simp add: oa_list_def array_list_def)
  have "block_at ?m e hole (n, True)" using n by (simp add: block_at_def m header_put)
  then have blk: "block_at m' e hole (n, True)"
    by (rule block_at_cong) (use b(4) sh(3) in auto)
  have one: "oa_list m' heap = [hole]" using ms empty by simp
  show thesis
  proof (rule that [OF ins])
    show "heap_inv (s\<lparr>memory := m'\<rparr>) heap [(n, True)]"
      using b blk one sh by (simp add: heap_inv_def Let_def)
    show "index_sorted (s\<lparr>memory := m'\<rparr>) heap" by (simp add: index_sorted_def one)
    show "oa_max_size_at m' heap = 0x20000" "oa_array_at m' heap = base" using st sh(6) base_m by (simp_all add: index_step_def)
    show "m' c = m0 c" if c: "\<not> within heap 32 c" "\<not> within base 0x80000 c" "\<not> within hole 12 c" for c
    proof -
      have "\<not> within (heap + of_nat k) w c" if "k + w \<le> 32" for k w
        using c(1) within_split [of k w heap c] that by (auto dest: within_mono)
      from this [of 0 4] this [of 4 4] this [of 8 4] this [of 12 4] this [of 16 4] this [of 20 4] this [of 24 4]
        this [of 28 1] this [of 29 1]
      have "?m1 c = m0 c" and w4: "\<not> within (heap + 4) 4 c"
        by (simp_all add: fresh_struct_def put_ordered_array_def store32_other store8_def within_1 [simplified])
      moreover have "\<not> within hole 4 c" "\<not> within (hole + 4) 1 c" "\<not> within (hole + 8) 4 c"
        using c(3) within_split [of 4 1 hole c] within_split [of 8 4 hole c]
          within_mono [of hole 4 c 12] within_mono [of hole 5 c 12] by auto
      ultimately have "?m c = m0 c" by (simp add: m put_header_other)
      moreover have "m' c = ?m c"
        using st w4 c(2) shape_area(6,7) [OF sh1, of ?m] sh(6) by (auto simp: index_step_def base_m)
      ultimately show ?thesis by simp
    qed
  qed (use b sh in simp_all)
qed

lemma create_heap_one_hole:
  assumes early: "kheap s = 0" and heap: "free_mem_addr s = heap" and fn: "fn \<noteq> 0"
    and al: "start mod 0x1000 = 0" "e mod 0x1000 = 0"
    and big: "unat start + 0x80000 + 20 \<le> unat e"
    and ap: "apart heap 32 start (unat e - unat start)"
  obtains s' where "create_heap fuel fn start e mx su ro s = Some (heap, s')"
    and "heap_inv s' heap [(unat e - unat start - 0x80000, True)]" and "index_sorted s' heap"
    and "heap_start (memory s') heap = start + 0x80000" "heap_end (memory s') heap = e"
    and "console s' = console s" "free_mem_addr s' = heap + 32" "kheap s' = 0" "oa_max_size_at (memory s') heap = 0x20000"
    and "oa_array_at (memory s') heap = start" "kernel_directory s' = kernel_directory s"
    and "\<And>c. \<not> within heap 32 c \<Longrightarrow> \<not> within start 0x80000 c \<Longrightarrow> \<not> within (start + 0x80000) 12 c \<Longrightarrow>
      memory s' c = memory s c"
proof -
  define n where "n = unat e - unat start - 0x80000"
  let ?oa = "\<lparr>oa_array = start, oa_size = 0, oa_max_size = 0x20000, oa_less_than = fn\<rparr>"
  let ?m0 = "fill_bytes start 524288 0 (memory s)"
  define s1 where "s1 = s\<lparr>free_mem_addr := heap + 32, memory := put_header (start + 0x80000) 1 (of_nat n)
     (fresh_struct heap ?oa (start + 0x80000) e mx su ro ?m0)\<rparr>"
  have us: "unat (start + 0x80000) = unat start + 0x80000" using big unat_lt_2p32 [of e]
    by (intro unat_add_numeral_nowrap) linarith
  have n: "20 \<le> n" "unat (start + 0x80000) + n = unat e" using big us by (simp_all add: n_def)
  have "unat (of_nat n :: u32) = n"
    using n us unat_lt_2p32 [of e] by (intro unat_of_nat_small) linarith
  then have en: "e - (start + 0x80000) = of_nat n"
    unfolding word_unat_eq_iff using n us by (subst unat_sub_nowrap) simp_all
  have run: "create_heap fuel fn start e mx su ro s = Some (heap, insert_s (start + 0x80000) heap s1)"
    using aligned_no_bump [OF al(1)] al
    by (simp add: create_heap_def kmalloc_early early heap place_ordered_array_def memset_zero_fills
        HEAP_INDEX_SIZE_def s1_def fresh_struct_def upd_mem_def Let_def en [symmetric])
  have within_start: "within start (unat e - unat start) c"
    if "within start 0x80000 c \<or> within (start + 0x80000) n c" for c
  proof -
    have "unat e - unat start = 0x80000 + n" "0x80000 + n \<le> 4294967296"
      using us n unat_lt_2p32 [of e] by linarith+
    then show ?thesis using that within_split [of "0x80000" n start c] by simp
  qed
  have sep: "apart heap 32 start 0x80000" "apart heap 32 (start + 0x80000) n"
    using apart_sub [OF ap, of heap 32] within_start by blast+
  have sep2: "apart start 0x80000 (start + 0x80000) n"
    using us n less_imp_le [OF unat_lt_2p32 [of e]] by (intro apart_nat) (simp_all del: unat_lt_2p32)
  have "start + 0x80000 + of_nat n = e" using en by (simp add: algebra_simps)
  then obtain m' where "insert_s (start + 0x80000) heap s1 = s1\<lparr>memory := m'\<rparr>"
    "heap_inv (s1\<lparr>memory := m'\<rparr>) heap [(n, True)]" "index_sorted (s1\<lparr>memory := m'\<rparr>) heap"
    "heap_start m' heap = start + 0x80000" "heap_end m' heap = e" "oa_max_size_at m' heap = 0x20000" "oa_array_at m' heap = start"
    and fr: "\<And>c. \<not> within heap 32 c \<Longrightarrow> \<not> within start 0x80000 c \<Longrightarrow> \<not> within (start + 0x80000) 12 c \<Longrightarrow> m' c = ?m0 c"
    using first_hole [of s1 "start + 0x80000" n heap start fn e mx su ro ?m0] n fn sep sep2 us
      unat_lt_2p32 [of e] by (auto simp: s1_def)
  then show thesis
    using run early by (intro that [of "s1\<lparr>memory := m'\<rparr>"]) (simp_all add: n_def s1_def fill_bytes_def)
qed

text \<open>The heap \<open>initialise_paging\<close> asks for, from an early state of the allocator.\<close>

definition early_state :: kstate where
  "early_state = \<lparr>memory = (\<lambda>_. 0), console = [], free_mem_addr = 0x20000, kheap = 0,
     kernel_directory = 0, current_directory = 0, frames = 0, nframes = 0\<rparr>"

lemma kernel_heap_created:
  obtains s' where
    "create_heap 0 1 KHEAP_START (KHEAP_START + KHEAP_INITIAL_SIZE) 0xCFFFF000 0 0 early_state = Some (0x20000, s')"
    and "heap_inv s' 0x20000 [(0x80000, True)]" and "index_sorted s' 0x20000"
    and "heap_start (memory s') 0x20000 = 0xC0080000"
    and "\<And>c. \<not> within 0x20000 32 c \<Longrightarrow> \<not> within KHEAP_START 0x80000 c \<Longrightarrow> \<not> within 0xC0080000 12 c \<Longrightarrow>
      memory s' c = 0"
    and "kheap s' = 0" and "oa_max_size_at (memory s') 0x20000 = 0x20000"
  by (rule create_heap_one_hole [of early_state "0x20000" 1 KHEAP_START
        "KHEAP_START + KHEAP_INITIAL_SIZE" 0 "0xCFFFF000" 0 0])
    (simp_all add: early_state_def KHEAP_START_def KHEAP_INITIAL_SIZE_def apart_def)

subsection \<open>Properties\<close>

text \<open>C18: \<open>create_heap\<close>, called with page-aligned bounds before the heap exists, returns the early
  allocator's next address, and leaves a heap of exactly one hole that fills the area behind
  the index, with every invariant of the heap established and nothing printed.\<close>

theorem create_heap_establishes_invariant:
  assumes "kheap s = 0" and "fn \<noteq> 0" and "start mod 0x1000 = 0" "e mod 0x1000 = 0"
    and "unat start + 0x80000 + 20 \<le> unat e"
    and "apart (free_mem_addr s) 32 start (unat e - unat start)"
  shows "\<exists>s'. create_heap fuel fn start e mx su ro s = Some (free_mem_addr s, s')
    \<and> heap_inv s' (free_mem_addr s) [(unat e - unat start - 0x80000, True)]
    \<and> index_sorted s' (free_mem_addr s)
    \<and> heap_start (memory s') (free_mem_addr s) = start + 0x80000
    \<and> heap_end (memory s') (free_mem_addr s) = e
    \<and> console s' = console s"
  by (rule create_heap_one_hole [OF assms(1) refl assms(2-6), of fuel mx su ro]) blast

theorem create_heap_establishes_invariant_witness:
  "\<exists>s'. create_heap 0 1 0xC0000000 0xC0100000 0xCFFFF000 0 0 early_state = Some (0x20000, s')
    \<and> heap_inv s' 0x20000 [(0x80000, True)]"
  using create_heap_establishes_invariant [of early_state 1 "0xC0000000" "0xC0100000" 0 "0xCFFFF000" 0 0]
  by (auto simp: early_state_def apart_def)

text \<open>C32: Before the heap exists \<open>kmalloc_int\<close> hands out disjoint, increasing regions: the block
  starts at or after \<open>free_mem_addr\<close>, on a page boundary when alignment was asked for and
  less than a page further, the physical address is the virtual one, and the next block starts
  behind this one.\<close>

theorem kmalloc_early_disjoint:
  assumes "kheap s = 0" and "unat (free_mem_addr s) + unat sz < 4294963200"
  shows "\<exists>a s'. kmalloc_int fuel sz align True s = Some (a, a, s')
    \<and> unat (free_mem_addr s) \<le> unat a \<and> unat a < unat (free_mem_addr s) + 4096
    \<and> (align = 1 \<longrightarrow> unat a mod 4096 = 0) \<and> (align \<noteq> 1 \<longrightarrow> a = free_mem_addr s)
    \<and> unat (free_mem_addr s') = unat a + unat sz \<and> kheap s' = 0 \<and> memory s' = memory s"
proof -
  define a where "a = (if align = 1 then page_up (free_mem_addr s) else free_mem_addr s)"
  have "unat (free_mem_addr s) < 4294963200" using assms(2) by linarith
  note up = page_up_bounds [OF this]
  have "unat (free_mem_addr s) \<le> unat a" "unat a < unat (free_mem_addr s) + 4096"
    "align = 1 \<longrightarrow> unat a mod 4096 = 0"
    using up by (simp_all add: a_def)
  moreover from this(2) have "unat (a + sz) = unat a + unat sz"
    using assms(2) by (intro unat_add_nowrap) linarith
  moreover have "kmalloc_int fuel sz align True s = Some (a, a, s\<lparr>free_mem_addr := a + sz\<rparr>)"
    using assms(1) by (simp add: kmalloc_int_early a_def Let_def)
  ultimately show ?thesis using assms(1) by (auto simp: a_def)
qed

theorem kmalloc_early_disjoint_witness:
  "\<exists>a s'. kmalloc_int 0 100 1 True (early_state\<lparr>free_mem_addr := 0x12345\<rparr>) = Some (a, a, s')
    \<and> unat a mod 4096 = 0"
  using kmalloc_early_disjoint [of "early_state\<lparr>free_mem_addr := 0x12345\<rparr>" 100 0 1]
  by (auto simp: early_state_def)

end
