(* ===== verification/Heap_Alloc.thy ===== *)
theory Heap_Alloc
  imports Heap_Create
begin

text \<open>
  What \<open>alloc\<close> does to the blocks when a hole fits and no page alignment is asked for: the
  first fitting hole of the index, which is a smallest one when the index is sorted, is
  carved into the block and, when at least 20 bytes remain, a new hole. The heap invariant and
  the order of the index are kept, and no byte outside the hole, the index array and the
  index's \<open>size\<close> field changes.
\<close>

subsection \<open>Carving a hole\<close>

definition carve :: "nat \<Rightarrow> nat \<Rightarrow> block list" where
  "carve k n = (if n - k < 20 then [(n, False)] else [(k, False), (n - k, True)])"

text \<open>The header and footer stores of \<open>alloc\<close>, as one step on the memory.\<close>

definition write_block :: "u32 \<Rightarrow> nat \<Rightarrow> bool \<Rightarrow> mem \<Rightarrow> mem" where
  "write_block a n h m =
     put_footer (a + of_nat n - 8) a (put_header a (if h then 1 else 0) (of_nat n) m)"

definition carve_mem :: "u32 \<Rightarrow> nat \<Rightarrow> nat \<Rightarrow> mem \<Rightarrow> mem" where
  "carve_mem p k n m =
     (if n - k < 20 then write_block p n False m
      else write_block (p + of_nat k) (n - k) True (write_block p k False m))"

lemma total_carve: "k \<le> n \<Longrightarrow> total (carve k n) = n"
  by (simp add: carve_def)

lemma write_block_outside:
  "20 \<le> n \<Longrightarrow> unat (a::u32) + n < 4294967296 \<Longrightarrow> \<not> within a n c \<Longrightarrow> write_block a n h m c = m c"
  by (simp add: write_block_def put_footer_outside put_header_outside)

lemma write_block_at:
  "20 \<le> n \<Longrightarrow> unat (a::u32) + n < 4294967296 \<Longrightarrow> block_at (write_block a n h m) e a (n, h)"
  unfolding write_block_def by (rule block_put)

lemma carve_mem_chain:
  assumes "20 \<le> k" "k \<le> n" "unat p + n < 4294967296"
  shows "chain (carve_mem p k n m) e p (carve k n)"
    and "\<not> within p n c \<Longrightarrow> carve_mem p k n m c = m c"
proof -
  have u: "unat (p + of_nat k) = unat p + k" using assms by (simp add: unat_add_of_nat)
  show "chain (carve_mem p k n m) e p (carve k n)"
  proof (cases "n - k < 20")
    case True
    then show ?thesis using assms by (simp add: carve_def carve_mem_def write_block_at)
  next
    case False
    have "block_at (carve_mem p k n m) e p (k, False)"
    proof (rule block_at_cong)
      show "block_at (write_block p k False m) e p (k, False)" using assms by (simp add: write_block_at)
      fix c assume "within p (fst (k, False)) c"
      then have "\<not> within (p + of_nat k) (n - k) c" using assms u by (simp add: within_nat)
      then show "carve_mem p k n m c = write_block p k False m c"
        using False assms u by (simp add: carve_mem_def write_block_outside)
    qed
    moreover have "block_at (carve_mem p k n m) e (p + of_nat k) (n - k, True)"
      using False assms u by (simp add: carve_mem_def write_block_at)
    ultimately show ?thesis using False by (simp add: carve_def)
  qed
  show "carve_mem p k n m c = m c" if "\<not> within p n c"
    using that assms u by (auto simp: carve_mem_def write_block_outside within_nat)
qed

text \<open>The headers and footers that carving writes.\<close>

definition carve_own :: "u32 \<Rightarrow> nat \<Rightarrow> nat \<Rightarrow> u32 \<Rightarrow> bool" where
  "carve_own p k n c \<longleftrightarrow> within p 12 c \<or> within (p + of_nat k - 8) 8 c
     \<or> 20 \<le> n - k \<and> within (p + of_nat k) 12 c \<or> within (p + of_nat n - 8) 8 c"

lemma write_block_own:
  assumes "\<not> within a 12 c" "\<not> within (a + of_nat n - 8) 8 c"
  shows "write_block a n h m c = m c"
proof -
  have "\<not> within a 4 c" "\<not> within (a + 4) 1 c" "\<not> within (a + 8) 4 c"
    using assms(1) within_split [of 4 1 a c] within_split [of 8 4 a c]
      within_mono [of a 4 c 12] within_mono [of a 5 c 12] by auto
  moreover have "\<not> within (a + of_nat n - 8) 4 c" "\<not> within (a + of_nat n - 8 + 4) 4 c"
    using assms(2) by (simp_all add: within_8)
  ultimately show ?thesis by (simp add: write_block_def put_footer_other put_header_other)
qed

lemma carve_mem_own:
  assumes "k \<le> n" "\<not> carve_own p k n c"
  shows "carve_mem p k n m c = m c"
proof -
  have "p + of_nat k + of_nat (n - k) = p + of_nat n" using assms(1) by simp
  then show ?thesis using assms(2) by (auto simp: carve_mem_def carve_own_def write_block_own)
qed

lemma alloc_place_unaligned:
  assumes look: "lookup_s it heap s = (p, s)" and n: "hdr_size (memory s) p = of_nat n"
    and k: "k = unat sz + 20" "k \<le> n" and p: "unat p + n < 4294967296"
    and e: "p + of_nat n - 8 < e"
      "\<And>m'. (\<And>c. \<not> within p n c \<Longrightarrow> m' c = memory (remove_s it heap s) c) \<Longrightarrow> heap_end m' heap = e"
  shows "alloc_place it sz (sz + 12 + 8) 0 heap s =
    (p + 12, (if n - k < 20 then id else insert_s (p + of_nat k) heap)
       (upd_mem (carve_mem p k n) (remove_s it heap s)))"
proof -
  define r :: u32 where "r = of_nat (n - k)"
  have k32: "of_nat k = sz + 20" by (simp add: k)
  have n32: "of_nat n = sz + 20 + r" using k(2) by (simp add: r_def of_nat_diff k32)
  have "unat r = n - k" unfolding r_def using p by (intro unat_of_nat_small) linarith
  then have small: "r < 20 \<longleftrightarrow> n - k < 20" "0 < n - k \<Longrightarrow> 0 < r"
    by (simp_all add: word_less_nat_alt)
  let ?m = "write_block p k False (memory (remove_s it heap s))"
  have e2: "heap_end (put_header (p + of_nat k) 1 r ?m) heap = e" if "20 \<le> n - k"
  proof (rule e(2))
    fix c assume c: "\<not> within p n c"
    have "unat (p + of_nat k) = unat p + k" using p k(2) by (intro unat_add_of_nat) linarith
    then have "\<not> within (p + of_nat k) (n - k) c" "\<not> within p k c"
      using c p that by (auto simp: within_nat)
    then show "put_header (p + of_nat k) 1 r ?m c = memory (remove_s it heap s) c"
      using that p k \<open>unat (p + of_nat k) = unat p + k\<close>
      by (subst put_header_outside [where n = "n - k"]) (simp_all add: write_block_outside)
  qed
  show ?thesis
  proof (cases "n - k < 20")
    case True
    then show ?thesis
      using small by (simp add: alloc_place_def look n carve_mem_def write_block_def Let_def upd_mem_def
        k32 n32 algebra_simps)
  next
    case False
    then show ?thesis
      using small e(1) e2 by (simp add: alloc_place_def look n carve_mem_def write_block_def Let_def upd_mem_def
        k32 n32 r_def [symmetric] algebra_simps)
  qed
qed

subsection \<open>Sizes of holes\<close>

lemma chain_hole_sizes:
  "chain m e a bs \<Longrightarrow> chain m' e' a bs \<Longrightarrow> x \<in> set (holes a bs) \<Longrightarrow> hdr_size m' x = hdr_size m x"
  by (induction bs arbitrary: a) (auto simp: block_at_def split: if_splits)

lemma sorted_sizes_cong:
  "(\<And>x. x \<in> set xs \<Longrightarrow> f x = g x) \<Longrightarrow> sorted (map f xs) = sorted (map g xs)"
  by (metis map_cong)

lemma sizes_sorted_cong:
  assumes "\<And>x c. x \<in> set xs \<Longrightarrow> within x 12 c \<Longrightarrow> m' c = m c"
  shows "sorted (map (hdr_size m') xs) = sorted (map (hdr_size m) xs)"
  by (rule sorted_sizes_cong) (rule header_cong(3), use assms in blast)

lemma holes_within:
  assumes "chain m e a bs" "unat a + total bs < 4294967296" "x \<in> set (holes a bs)" "within x 12 c"
  shows "within a (total bs) c"
proof -
  obtain us n vs where bs: "bs = us @ (n, True) # vs" "x = a + of_nat (total us)" using assms(3) by (auto simp: holes_blocks)
  then have "block_at m e x (n, True)" using assms(1) by (simp add: chain_append)
  then have "20 \<le> n" by (rule block_atD)
  then have "within (a + of_nat (total us)) n c" using within_mono [OF assms(4)] bs(2) by simp
  then show ?thesis by (rule within_field) (use assms(2) bs(1) in simp_all)
qed

subsection \<open>Placing a block\<close>

lemma heap_inv_block:
  assumes "heap_inv s heap (xs @ (n, h) # ys)"
    and "p = heap_start (memory s) heap + of_nat (total xs)"
  shows "block_at (memory s) (heap_end (memory s) heap) p (n, h)" "hdr_size (memory s) p = of_nat n"
    "20 \<le> n" "unat p = unat (heap_start (memory s) heap) + total xs"
    "unat p + n + total ys = unat (heap_end (memory s) heap)"
    "unat p + n < 4294967296"
proof -
  let ?m = "memory s"
  have inv: "chain ?m (heap_end ?m heap) (heap_start ?m heap) (xs @ (n, h) # ys)"
    "unat (heap_start ?m heap) + (total xs + n + total ys) < 4294967296"
    "heap_start ?m heap + of_nat (total xs + n + total ys) = heap_end ?m heap"
    using assms(1) by (simp_all add: heap_inv_def heap_shape_def Let_def add.assoc)
  show b: "block_at ?m (heap_end ?m heap) p (n, h)"
    using inv(1) by (simp add: chain_append assms(2))
  then show "hdr_size ?m p = of_nat n" by (simp add: block_at_def)
  show "20 \<le> n" "unat p + n < 4294967296" using block_atD [OF b] by simp_all
  show up: "unat p = unat (heap_start ?m heap) + total xs"
    using inv(2) by (simp add: assms(2) unat_add_of_nat)
  show "unat p + n + total ys = unat (heap_end ?m heap)"
    unfolding inv(3) [symmetric] using inv(2) by (subst unat_add_of_nat) (simp_all add: up)
qed

lemmas heap_inv_hole = heap_inv_block [where h = True]

text \<open>The bytes of the index that operations on it change.\<close>

definition index_byte :: "mem \<Rightarrow> u32 \<Rightarrow> u32 \<Rightarrow> bool" where
  "index_byte m heap c \<longleftrightarrow>
     within (oa_array_at m heap) (4 * unat (oa_max_size_at m heap)) c \<or> within (heap + 4) 4 c"

lemma index_step_byte: "index_step heap m m' \<Longrightarrow> index_byte m heap c \<or> m' c = m c"
  by (auto simp: index_step_def index_byte_def)

text \<open>Taking a hole out of the index.\<close>

lemma remove_hole:
  assumes inv: "heap_inv s heap (xs @ (n, True) # ys)" and p: "p = heap_start (memory s) heap + of_nat (total xs)"
    and i: "i < length (oa_list (memory s) heap)" "oa_list (memory s) heap ! i = p"
  obtains m1 where "remove_s (of_nat i) heap s = s\<lparr>memory := m1\<rparr>" and "index_step heap (memory s) m1"
    and "mset (oa_list m1 heap) = mset (holes (heap_start (memory s) heap) xs @ holes (p + of_nat n) ys)"
    and "oa_size_at m1 heap < oa_max_size_at m1 heap"
    and "index_sorted s heap \<Longrightarrow> sorted (map (hdr_size (memory s)) (oa_list m1 heap))"
proof -
  have shape: "heap_shape (memory s) heap (total (xs @ (n, True) # ys))"
    and idx: "mset (oa_list (memory s) heap) = mset (holes (heap_start (memory s) heap) (xs @ (n, True) # ys))"
    using inv by (simp_all add: heap_inv_def Let_def)
  obtain m1 where rem: "remove_s (of_nat i) heap s = s\<lparr>memory := m1\<rparr>" "index_step heap (memory s) m1"
    and ms: "add_mset (oa_list (memory s) heap ! i) (mset (oa_list m1 heap)) = mset (oa_list (memory s) heap)"
    and rest: "oa_size_at m1 heap < oa_max_size_at m1 heap"
      "sorted (map (hdr_size (memory s)) (oa_list (memory s) heap)) \<Longrightarrow> sorted (map (hdr_size (memory s)) (oa_list m1 heap))"
    using remove_s_step [OF shape i(1)] by metis
  have "mset (oa_list m1 heap) = mset (holes (heap_start (memory s) heap) xs @ holes (p + of_nat n) ys)"
    using ms unfolding idx i(2) by (simp add: holes_append p add.assoc)
  then show thesis using rem rest by (intro that) (simp_all add: index_sorted_def)
qed

text \<open>A write inside a block, after a step on the index.\<close>

lemma area_after_index:
  assumes inv: "heap_inv s heap (xs @ (n, h) # ys)" and p: "p = heap_start (memory s) heap + of_nat (total xs)"
    and st: "index_step heap (memory s) m1" and eq: "\<forall>c. \<not> within p n c \<longrightarrow> m2 c = m1 c"
  shows "heap_shape m2 heap (total (xs @ (n, h) # ys))" "oa_list m2 heap = oa_list m1 heap"
    "heap_start m2 heap = heap_start (memory s) heap" "heap_end m2 heap = heap_end (memory s) heap"
    "oa_size_at m2 heap = oa_size_at m1 heap" "oa_max_size_at m2 heap = oa_max_size_at (memory s) heap"
    "oa_array_at m2 heap = oa_array_at (memory s) heap"
    "within (heap_start (memory s) heap) (total (xs @ (n, h) # ys)) c \<Longrightarrow> \<not> within p n c \<Longrightarrow> m2 c = memory s c"
proof -
  let ?m = "memory s" and ?T = "total (xs @ (n, h) # ys)"
  note b = heap_inv_block [OF inv p]
  have sh: "heap_shape ?m heap ?T" and bound: "unat (heap_start ?m heap) + ?T < 4294967296"
    using inv by (simp_all add: heap_inv_def heap_shape_def Let_def)
  note b1 = index_step_bounds [OF sh st]
  have "within (heap_start ?m heap) ?T c" if "within p n c" for c using that b(4,6) bound by (simp add: within_nat)
  then have o: "\<And>c. \<not> within (heap_start m1 heap) ?T c \<Longrightarrow> m2 c = m1 c" using eq b1(1) by auto
  have a: "heap_shape m2 heap ?T" "oa_list m2 heap = oa_list m1 heap" "heap_start m2 heap = heap_start m1 heap"
    "heap_end m2 heap = heap_end m1 heap" "oa_size_at m2 heap = oa_size_at m1 heap"
    "oa_max_size_at m2 heap = oa_max_size_at m1 heap" "oa_array_at m2 heap = oa_array_at m1 heap"
    using shape_area [OF b1(3), of m2] o by blast+
  then show "heap_shape m2 heap ?T" "oa_list m2 heap = oa_list m1 heap" "oa_size_at m2 heap = oa_size_at m1 heap" by simp_all
  show "heap_start m2 heap = heap_start ?m heap" "heap_end m2 heap = heap_end ?m heap" by (simp_all add: a b1)
  show "oa_max_size_at m2 heap = oa_max_size_at ?m heap" "oa_array_at m2 heap = oa_array_at ?m heap"
    using a(6,7) st by (simp_all add: index_step_def)
  show "within (heap_start ?m heap) ?T c \<Longrightarrow> \<not> within p n c \<Longrightarrow> m2 c = ?m c" using eq b1(4) by simp
qed

text \<open>Entering the one hole that the index lacks.\<close>

lemma insert_hole:
  assumes sh: "heap_shape (memory s) heap (total bs)" and ch: "chain (memory s) (heap_end (memory s) heap) (heap_start (memory s) heap) bs"
    and idx: "add_mset x (mset (oa_list (memory s) heap)) = mset (holes (heap_start (memory s) heap) bs)"
    and room: "oa_size_at (memory s) heap < oa_max_size_at (memory s) heap"
  obtains m' where "insert_s x heap s = s\<lparr>memory := m'\<rparr>" and "index_step heap (memory s) m'"
    and "heap_inv (s\<lparr>memory := m'\<rparr>) heap bs" and "index_sorted s heap \<Longrightarrow> index_sorted (s\<lparr>memory := m'\<rparr>) heap"
    and "heap_start m' heap = heap_start (memory s) heap"
    and "\<And>c. within (heap_start (memory s) heap) (total bs) c \<Longrightarrow> m' c = memory s c"
proof -
  have bound: "unat (heap_start (memory s) heap) + total bs < 4294967296" using sh by (simp add: heap_shape_def Let_def)
  obtain m' where ins: "insert_s x heap s = s\<lparr>memory := m'\<rparr>" and st: "index_step heap (memory s) m'"
    and ms: "mset (oa_list m' heap) = add_mset x (mset (oa_list (memory s) heap))"
    and so: "sorted (map (hdr_size (memory s)) (oa_list (memory s) heap)) \<Longrightarrow> sorted (map (hdr_size (memory s)) (oa_list m' heap))"
    using insert_s_step [OF sh room, of x] by metis
  note b = index_step_bounds [OF sh st]
  have idx': "mset (oa_list m' heap) = mset (holes (heap_start (memory s) heap) bs)" using ms idx by simp
  have "sorted (map (hdr_size m') (oa_list m' heap)) = sorted (map (hdr_size (memory s)) (oa_list m' heap))"
    by (rule sizes_sorted_cong) (use b(4) holes_within [OF ch bound] mset_eq_setD [OF idx'] in blast)
  moreover have "chain m' (heap_end (memory s) heap) (heap_start (memory s) heap) bs" by (rule chain_cong [OF ch bound b(4)])
  ultimately show thesis using ins st so b idx' by (intro that [of m']) (simp_all add: heap_inv_def index_sorted_def Let_def)
qed

text \<open>What \<open>alloc_place\<close> has done before it enters the rest of the hole.\<close>

lemma carve_step:
  assumes inv: "heap_inv s heap (xs @ (n, True) # ys)"
    and p: "p = heap_start (memory s) heap + of_nat (total xs)"
    and i: "i < length (oa_list (memory s) heap)" "oa_list (memory s) heap ! i = p"
      "(of_nat i :: u32) < oa_size_at (memory s) heap" "unat (of_nat i :: u32) = i"
    and k: "k = unat sz + 20" "k \<le> n"
  obtains m1 m2 where "index_step heap (memory s) m1" and "m2 = carve_mem p k n m1"
    and "alloc_place (of_nat i) sz (sz + 12 + 8) 0 heap s =
      (p + 12, (if n - k < 20 then id else insert_s (p + of_nat k) heap) (s\<lparr>memory := m2\<rparr>))"
    and "mset (oa_list m1 heap) = mset (holes (heap_start (memory s) heap) xs @ holes (p + of_nat n) ys)"
    and "oa_size_at m1 heap < oa_max_size_at m1 heap"
    and "index_sorted s heap \<Longrightarrow> sorted (map (hdr_size (memory s)) (oa_list m1 heap))"
    and "\<forall>c. \<not> within p n c \<longrightarrow> m2 c = m1 c"
proof -
  let ?m = "memory s" let ?e = "heap_end ?m heap"
  note hole = heap_inv_hole [OF inv p]
  obtain m1 where m1: "remove_s (of_nat i) heap s = s\<lparr>memory := m1\<rparr>" "index_step heap ?m m1"
    "mset (oa_list m1 heap) = mset (holes (heap_start ?m heap) xs @ holes (p + of_nat n) ys)"
    "oa_size_at m1 heap < oa_max_size_at m1 heap"
    "index_sorted s heap \<Longrightarrow> sorted (map (hdr_size ?m) (oa_list m1 heap))"
    using remove_hole [OF inv p i(1,2)] by metis
  have eq: "carve_mem p k n m1 c = m1 c" if "\<not> within p n c" for c
    by (rule carve_mem_chain) (use that k hole in auto)
  have "p + of_nat n - 8 < ?e"
  proof -
    have "p + of_nat n - 8 = p + of_nat (n - 8)" using hole(3) by simp
    then have "unat (p + of_nat n - 8) = unat p + (n - 8)" using hole(6) by (simp only: unat_add_of_nat)
    then show ?thesis using hole(3,5) by (simp add: word_less_nat_alt)
  qed
  moreover have "heap_end m' heap = ?e" if "\<And>c. \<not> within p n c \<Longrightarrow> m' c = memory (remove_s (of_nat i) heap s) c" for m'
    using area_after_index(4) [OF inv p m1(2), of m'] that m1(1) by simp
  ultimately have "alloc_place (of_nat i) sz (sz + 12 + 8) 0 heap s =
      (p + 12, (if n - k < 20 then id else insert_s (p + of_nat k) heap) (s\<lparr>memory := carve_mem p k n m1\<rparr>))"
    using alloc_place_unaligned [of "of_nat i" heap s p n k sz ?e] hole k i m1(1) by (simp add: lookup_s_index upd_mem_def)
  then show thesis using m1 eq by (intro that [of m1]) auto
qed

lemma alloc_place_carves:
  assumes inv: "heap_inv s heap (xs @ (n, True) # ys)"
    and p: "p = heap_start (memory s) heap + of_nat (total xs)"
    and i: "i < length (oa_list (memory s) heap)" "oa_list (memory s) heap ! i = p"
      "(of_nat i :: u32) < oa_size_at (memory s) heap" "unat (of_nat i :: u32) = i"
    and k: "k = unat sz + 20" "k \<le> n"
  obtains m' where "alloc_place (of_nat i) sz (sz + 12 + 8) 0 heap s = (p + 12, s\<lparr>memory := m'\<rparr>)"
    and "heap_inv (s\<lparr>memory := m'\<rparr>) heap (xs @ carve k n @ ys)"
    and "\<And>c. within (heap_start (memory s) heap) (total (xs @ (n, True) # ys)) c \<Longrightarrow>
       \<not> within p n c \<Longrightarrow> m' c = memory s c"
    and "index_sorted s heap \<Longrightarrow> index_sorted (s\<lparr>memory := m'\<rparr>) heap"
    and "\<And>c. index_byte (memory s) heap c \<or> carve_own p k n c \<or> m' c = memory s c"
    and "oa_array_at m' heap = oa_array_at (memory s) heap"
      "oa_max_size_at m' heap = oa_max_size_at (memory s) heap" "heap_start m' heap = heap_start (memory s) heap"
proof -
  let ?m = "memory s" and ?bs = "xs @ (n, True) # ys" and ?new = "xs @ carve k n @ ys"
  let ?start = "heap_start ?m heap" and ?e = "heap_end ?m heap"
  obtain m1 m2 where st1: "index_step heap ?m m1" and m2: "m2 = carve_mem p k n m1" "\<forall>c. \<not> within p n c \<longrightarrow> m2 c = m1 c"
    and run: "alloc_place (of_nat i) sz (sz + 12 + 8) 0 heap s =
      (p + 12, (if n - k < 20 then id else insert_s (p + of_nat k) heap) (s\<lparr>memory := m2\<rparr>))"
    and ms1: "mset (oa_list m1 heap) = mset (holes ?start xs @ holes (p + of_nat n) ys)"
    and room: "oa_size_at m1 heap < oa_max_size_at m1 heap"
    and so1: "index_sorted s heap \<Longrightarrow> sorted (map (hdr_size ?m) (oa_list m1 heap))"
    using carve_step [OF assms] by metis
  note a = area_after_index [OF inv p st1 m2(2)] and hole = heap_inv_hole [OF inv p]
  have ch: "chain ?m ?e ?start ?bs" and bound: "unat ?start + total ?bs < 4294967296"
    using inv by (simp_all add: heap_inv_def heap_shape_def Let_def)
  have cc: "chain m2 ?e p (carve k n)" unfolding m2(1) by (rule carve_mem_chain) (use k hole in auto)
  have ch2: "chain m2 ?e ?start ?new"
    by (rule chain_replace [OF ch bound]) (use cc a(8) k in \<open>simp_all add: p total_carve\<close>)
  have tot: "total ?new = total ?bs" using k by (simp add: total_carve)
  have hs: "mset (holes ?start ?new) = mset (oa_list m2 heap) + (if n - k < 20 then {#} else {#p + of_nat k#})"
    unfolding a(2) ms1 using k by (simp add: holes_append carve_def p add.assoc flip: of_nat_add)
  have so2: "index_sorted (s\<lparr>memory := m2\<rparr>) heap" if "index_sorted s heap"
  proof -
    have parts: "chain ?m ?e ?start xs" "chain ?m ?e (p + of_nat n) ys" "chain m2 ?e ?start xs" "chain m2 ?e (p + of_nat n) ys"
      using ch ch2 by (simp_all add: chain_append p total_carve k(2) add.assoc)
    have "hdr_size m2 x = hdr_size ?m x" if "x \<in> set (oa_list m2 heap)" for x
      using that mset_eq_setD [OF ms1] chain_hole_sizes [OF parts(1,3)] chain_hole_sizes [OF parts(2,4)] by (auto simp: a(2))
    then show ?thesis using so1 [OF that] by (simp add: index_sorted_def a(2) sorted_sizes_cong [of _ "hdr_size m2" "hdr_size ?m"])
  qed
  have own2: "index_byte ?m heap c \<or> carve_own p k n c \<or> m2 c = ?m c" for c
    using index_step_byte [OF st1, of c] carve_mem_own [OF k(2), of p c m1] unfolding m2(1) by metis
  show thesis
  proof (cases "n - k < 20")
    case True
    have "heap_inv (s\<lparr>memory := m2\<rparr>) heap ?new" using a(1) ch2 hs True tot by (simp add: heap_inv_def a Let_def)
    with True show thesis using run a own2 so2 by (intro that [of m2]) simp_all
  next
    case False
    obtain m3 where ins: "insert_s (p + of_nat k) heap (s\<lparr>memory := m2\<rparr>) = s\<lparr>memory := m3\<rparr>" and st3: "index_step heap m2 m3"
      and m3: "heap_inv (s\<lparr>memory := m3\<rparr>) heap ?new"
        "index_sorted (s\<lparr>memory := m2\<rparr>) heap \<Longrightarrow> index_sorted (s\<lparr>memory := m3\<rparr>) heap" "heap_start m3 heap = ?start"
        "\<And>c. within ?start (total ?new) c \<Longrightarrow> m3 c = m2 c"
      using insert_hole [of "s\<lparr>memory := m2\<rparr>" heap ?new "p + of_nat k"] a room st1 ch2 hs False tot
      by (auto simp: index_step_def)
    have "index_byte ?m heap c \<or> carve_own p k n c \<or> m3 c = ?m c" for c
      using own2 [of c] index_step_byte [OF st3, of c] a(6,7) by (auto simp: index_byte_def)
    moreover have "oa_array_at m3 heap = oa_array_at ?m heap" "oa_max_size_at m3 heap = oa_max_size_at ?m heap"
      using a(6,7) st3 by (simp_all add: index_step_def)
    ultimately show thesis using run False ins m3 so2 a(8) tot by (intro that [of m3]) auto
  qed
qed

subsection \<open>\<open>alloc\<close>\<close>

lemma heap_inv_hole_sizes:
  assumes inv: "heap_inv s heap bs"
  shows "x \<in> set (oa_list (memory s) heap) \<longleftrightarrow> (\<exists>xs n ys. bs = xs @ (n, True) # ys
      \<and> x = heap_start (memory s) heap + of_nat (total xs) \<and> unat (hdr_size (memory s) x) = n)"
proof -
  have "set (oa_list (memory s) heap) = set (holes (heap_start (memory s) heap) bs)"
    using inv by (auto simp: heap_inv_def Let_def dest: mset_eq_setD)
  moreover have h: "unat (hdr_size (memory s) x) = n"
    if "bs = xs @ (n, True) # ys" "x = heap_start (memory s) heap + of_nat (total xs)" for xs n ys
    using heap_inv_hole(1) [OF inv [unfolded that(1)] that(2)] by (rule block_atD)
  ultimately have "x \<in> set (oa_list (memory s) heap) \<longleftrightarrow>
      (\<exists>xs n ys. bs = xs @ (n, True) # ys \<and> x = heap_start (memory s) heap + of_nat (total xs))"
    by (simp only: holes_blocks)
  then show ?thesis using h by metis
qed

lemma first_fit_is_least:
  fixes key :: "'a \<Rightarrow> 'k::linorder"
  assumes "sorted (map key xs)" "i = length (takeWhile (\<lambda>y. key y < k) xs)" "i < length xs"
    and "y \<in> set xs" "k \<le> key y"
  shows "key (xs ! i) \<le> key y"
proof -
  obtain j where j: "j < length xs" "xs ! j = y" using assms(4) by (metis in_set_conv_nth)
  have "i \<le> j"
  proof (rule ccontr)
    assume "\<not> i \<le> j"
    then have "j < length (takeWhile (\<lambda>y. key y < k) xs)" using assms(2) by simp
    then have "key (xs ! j) < k" by (metis nth_mem set_takeWhileD takeWhile_nth)
    then show False using assms(5) j by simp
  qed
  then show ?thesis using sorted_nth_mono [OF assms(1), of i j] j assms(3) by simp
qed

lemma alloc_fitting_hole:
  assumes inv: "heap_inv s heap bs" and fits: "(n0, True) \<in> set bs" "unat sz + 20 \<le> n0"
  obtains xs n ys p m' where "bs = xs @ (n, True) # ys" "unat sz + 20 \<le> n"
    and "p = heap_start (memory s) heap + of_nat (total xs)"
    and "alloc (Suc fuel) sz 0 heap s = Some (p + 12, s\<lparr>memory := m'\<rparr>)"
    and "heap_inv (s\<lparr>memory := m'\<rparr>) heap (xs @ carve (unat sz + 20) n @ ys)"
    and "\<And>c. within (heap_start (memory s) heap) (total bs) c \<Longrightarrow> \<not> within p n c \<Longrightarrow> m' c = memory s c"
    and "index_sorted s heap \<Longrightarrow> index_sorted (s\<lparr>memory := m'\<rparr>) heap"
    and "\<And>n1. index_sorted s heap \<Longrightarrow> (n1, True) \<in> set bs \<Longrightarrow> unat sz + 20 \<le> n1 \<Longrightarrow> n \<le> n1"
    and "\<And>c. index_byte (memory s) heap c \<or> carve_own p (unat sz + 20) n c \<or> m' c = memory s c"
    and "oa_array_at m' heap = oa_array_at (memory s) heap"
      "oa_max_size_at m' heap = oa_max_size_at (memory s) heap" "heap_start m' heap = heap_start (memory s) heap"
proof -
  let ?m = "memory s" and ?xs = "oa_list (memory s) heap" and ?start = "heap_start (memory s) heap"
  note sizes = heap_inv_hole_sizes [OF inv]
  have entry: "\<exists>x \<in> set ?xs. unat (hdr_size ?m x) = n'" if mem: "(n', True) \<in> set bs" for n'
  proof -
    obtain xs' ys' where e: "bs = xs' @ (n', True) # ys'" using split_list [OF mem] by blast
    let ?x = "?start + of_nat (total xs')"
    have h: "unat (hdr_size ?m ?x) = n'"
      using heap_inv_hole(1) [OF inv [unfolded e] refl] by (rule block_atD)
    have "?x \<in> set ?xs" by (rule iffD2 [OF sizes]) (intro exI conjI, rule e, rule refl, rule h)
    then show ?thesis using h by blast
  qed
  obtain x0 where x0: "x0 \<in> set ?xs" "unat (hdr_size ?m x0) = n0" using entry [OF fits(1)] by auto
  have new: "unat (sz + 12 + 8) = unat sz + 20"
  proof -
    have "unat sz + 20 < 4294967296"
      using fits(2) x0(2) unat_lt_2p32 [of "hdr_size ?m x0"] by linarith
    then show ?thesis by (simp add: add.assoc unat_add_numeral_nowrap)
  qed
  have "\<not> hdr_size ?m x0 < sz + 12 + 8" using x0 fits new by (simp add: word_less_nat_alt)
  then obtain i where find: "find_smallest_hole (sz + 12 + 8) 0 heap s = (of_nat i, s)"
    and i: "i < length ?xs" "i = length (takeWhile (\<lambda>h. hdr_size ?m h < sz + 12 + 8) ?xs)"
    and big: "\<not> hdr_size ?m (?xs ! i) < sz + 12 + 8"
    and im: "of_nat i \<noteq> (- 1 :: u32)" "(of_nat i :: u32) < oa_size_at ?m heap"
    using find_smallest_hole_first [OF x0(1)] by metis
  obtain xs n ys where bs: "bs = xs @ (n, True) # ys" and p: "?xs ! i = ?start + of_nat (total xs)"
    and n: "unat (hdr_size ?m (?xs ! i)) = n"
    using sizes [of "?xs ! i"] nth_mem [OF i(1)] by auto
  have k: "unat sz + 20 \<le> n" using big n new by (simp add: word_less_nat_alt)
  have iu: "unat (of_nat i :: u32) = i"
    using less_trans [OF i(1) [unfolded oa_list_def length_array_list] unat_lt_2p32]
    by (rule unat_of_nat_small)
  obtain m' where place: "alloc_place (of_nat i) sz (sz + 12 + 8) 0 heap s = (?xs ! i + 12, s\<lparr>memory := m'\<rparr>)"
    and res: "heap_inv (s\<lparr>memory := m'\<rparr>) heap (xs @ carve (unat sz + 20) n @ ys)"
    "\<And>c. within ?start (total bs) c \<Longrightarrow> \<not> within (?xs ! i) n c \<Longrightarrow> m' c = ?m c"
    "index_sorted s heap \<Longrightarrow> index_sorted (s\<lparr>memory := m'\<rparr>) heap"
    and own: "\<And>c. index_byte ?m heap c \<or> carve_own (?xs ! i) (unat sz + 20) n c \<or> m' c = ?m c"
    and fields: "oa_array_at m' heap = oa_array_at ?m heap" "oa_max_size_at m' heap = oa_max_size_at ?m heap"
      "heap_start m' heap = ?start"
    using alloc_place_carves [OF inv [unfolded bs] p i(1) refl im(2) iu refl k] unfolding bs by metis
  have run: "alloc (Suc fuel) sz 0 heap s = Some (?xs ! i + 12, s\<lparr>memory := m'\<rparr>)"
    using find im(1) place by (simp add: Let_def)
  have least: "n \<le> n1" if so: "index_sorted s heap" and n1: "(n1, True) \<in> set bs" "unat sz + 20 \<le> n1" for n1
  proof -
    obtain x1 where x1: "x1 \<in> set ?xs" "unat (hdr_size ?m x1) = n1" using entry [OF n1(1)] by auto
    have "hdr_size ?m (?xs ! i) \<le> hdr_size ?m x1"
      using first_fit_is_least [OF so [unfolded index_sorted_def] i(2,1) x1(1)] x1(2) n1(2) new
      by (simp add: word_le_nat_alt)
    then show ?thesis using n x1(2) by (simp add: word_le_nat_alt)
  qed
  show thesis by (rule that [OF bs k p run res least own fields])
qed

subsection \<open>Properties\<close>

text \<open>C1: An unaligned \<open>alloc\<close> from a heap with a hole that fits takes a smallest fitting hole of
  the sorted index, returns the address behind its header, splits off the rest as a hole when
  at least 20 bytes remain, keeps the heap invariant and the order of the index, and leaves
  every other byte of the heap area as it was.\<close>

theorem alloc_best_fit:
  assumes "heap_inv s heap bs" "index_sorted s heap"
    and "(n0, True) \<in> set bs" "unat sz + 20 \<le> n0"
  shows "\<exists>xs n ys p m'. bs = xs @ (n, True) # ys \<and> unat sz + 20 \<le> n
    \<and> (\<forall>n1. (n1, True) \<in> set bs \<longrightarrow> unat sz + 20 \<le> n1 \<longrightarrow> n \<le> n1)
    \<and> p = heap_start (memory s) heap + of_nat (total xs)
    \<and> alloc (Suc fuel) sz 0 heap s = Some (p + 12, s\<lparr>memory := m'\<rparr>)
    \<and> heap_inv (s\<lparr>memory := m'\<rparr>) heap (xs @ carve (unat sz + 20) n @ ys)
    \<and> index_sorted (s\<lparr>memory := m'\<rparr>) heap
    \<and> (\<forall>c. within (heap_start (memory s) heap) (total bs) c \<longrightarrow> \<not> within p n c \<longrightarrow> m' c = memory s c)"
proof (rule alloc_fitting_hole [OF assms(1,3,4), of fuel], goal_cases)
  case (1 xs n ys p m')
  note r = this
  show ?case
    by (intro exI conjI) (rule r(1), rule r(2), use r(8) assms(2) in blast, rule r(3), rule r(4),
      rule r(5), use r(7) assms(2) in blast, use r(6) in blast)
qed

theorem alloc_best_fit_witness:
  "\<exists>s. heap_inv s 0x20000 [(0x80000, True)]
    \<and> (\<exists>p m'. alloc 1 100 0 0x20000 s = Some (p + 12, s\<lparr>memory := m'\<rparr>)
      \<and> heap_inv (s\<lparr>memory := m'\<rparr>) 0x20000 [(120, False), (0x80000 - 120, True)])"
proof -
  obtain s where s: "heap_inv s 0x20000 [(0x80000, True)]" "index_sorted s 0x20000"
    using kernel_heap_created by metis
  show ?thesis
    using alloc_best_fit [OF s, of "0x80000" 100 0] s(1)
    by (auto simp: carve_def Cons_eq_append_conv)
qed

end
