(* ===== verification/Heap_Free.thy ===== *)
theory Heap_Free
  imports Heap_Alloc
begin

text \<open>
  What \<open>free\<close> does to the blocks when the block and what it is united with end short of the heap: the block
  becomes a hole, united with a hole on its left and one on its right. The footer of a hole on the right is
  not made to name the new header; \<open>free_unifies_holes\<close> states what is missing. The inside of every block, the freed one
  included, stays as it was.
\<close>

subsection \<open>Words of a block\<close>

lemma offsets_apart:
  assumes "i + w \<le> j \<or> j + v \<le> i" "i + w \<le> 4294967296" "j + v \<le> 4294967296"
  shows "apart (q + of_nat i) w (q + of_nat j) v"
proof (cases "w = 0 \<or> v = 0")
  case False
  then have "unat (of_nat i :: u32) = i" "unat (of_nat j :: u32) = j" using assms by (simp_all add: unat_of_nat_small)
  then have "apart (of_nat i :: u32) w (of_nat j) v" using assms by (auto intro: apart_nat)
  then show ?thesis by (simp add: apart_same_base)
qed (auto simp: apart_def)

text \<open>The four accesses of a block in terms of offsets from an address before it.\<close>

lemma block_offsets:
  assumes "20 \<le> n"
  shows "hdr_magic m (q + of_nat k) = load32 m (q + of_nat k)" "hdr_is_hole m (q + of_nat k) = load8 m (q + of_nat (k + 4))"
    "hdr_size m (q + of_nat k) = load32 m (q + of_nat (k + 8))"
    "ftr_magic m (q + of_nat k + of_nat n - 8) = load32 m (q + of_nat (k + n - 8))"
    "ftr_header m (q + of_nat k + of_nat n - 8) = load32 m (q + of_nat (k + n - 4))"
proof -
  have "q + of_nat k + of_nat n - 8 = q + of_nat (k + n - 8)" "q + of_nat k + of_nat n - 8 + 4 = q + of_nat (k + n - 4)"
    "q + of_nat k + 4 = q + of_nat (k + 4)" "q + of_nat k + 8 = q + of_nat (k + 8)"
    using assms by (simp_all add: of_nat_diff)
  then show "hdr_magic m (q + of_nat k) = load32 m (q + of_nat k)" "hdr_is_hole m (q + of_nat k) = load8 m (q + of_nat (k + 4))"
    "hdr_size m (q + of_nat k) = load32 m (q + of_nat (k + 8))"
    "ftr_magic m (q + of_nat k + of_nat n - 8) = load32 m (q + of_nat (k + n - 8))"
    "ftr_header m (q + of_nat k + of_nat n - 8) = load32 m (q + of_nat (k + n - 4))"
    by (simp_all only: hdr_magic_def hdr_is_hole_def hdr_size_def ftr_magic_def ftr_header_def)
qed

text \<open>A block that becomes a hole, and a hole that takes over the hole before it.\<close>

definition grown :: "u32 \<Rightarrow> nat \<Rightarrow> nat \<Rightarrow> mem \<Rightarrow> mem" where
  "grown q l n m = (let p = q + of_nat l; m = store8 m (p + 4) 1
     in if l = 0 then m else store32 (store32 m (p + of_nat n - 8 + 4) q) (q + 8) (of_nat (l + n)))"

lemma grown_outside:
  assumes "20 \<le> n" "unat (q::u32) + (l + n) < 4294967296" "l = 0 \<or> 20 \<le> l" "\<not> within q (l + n) c"
  shows "grown q l n m c = m c"
proof -
  have o: "\<not> within (q + of_nat k) w c" if "k + w \<le> l + n" for k w
    using assms(2,4) within_field [of q k w c "l + n"] that by auto
  have e: "q + of_nat l + of_nat n - 8 + 4 = q + of_nat (l + n - 4)" "q + of_nat l + 4 = q + of_nat (l + 4)"
    using assms(1) by (simp_all add: of_nat_diff)
  have "c \<noteq> q + of_nat (l + 4)" using o [of "l + 4" 1] assms(1) by auto
  then show ?thesis using o [of "l + n - 4" 4] o [of 8 4] assms(1,3)
    by (auto simp: grown_def e store32_other store8_def)
qed

text \<open>Reads over writes at offsets from one address.\<close>

lemma read_offset:
  assumes "j + 4 \<le> 4294967296" "i + 4 \<le> 4294967296"
  shows "i + 4 \<le> j \<or> j + 4 \<le> i \<Longrightarrow> load32 (store32 m (q + of_nat i) v) (q + of_nat j) = load32 m (q + of_nat j)"
    "i + 1 \<le> j \<or> j + 4 \<le> i \<Longrightarrow> load32 (store8 m (q + of_nat i) w) (q + of_nat j) = load32 m (q + of_nat j)"
    "i + 4 \<le> j \<or> j + 1 \<le> i \<Longrightarrow> load8 (store32 m (q + of_nat i) v) (q + of_nat j) = load8 m (q + of_nat j)"
    "i + 1 \<le> j \<or> j + 1 \<le> i \<Longrightarrow> load8 (store8 m (q + of_nat i) w) (q + of_nat j) = load8 m (q + of_nat j)"
proof -
  have "load8 (store8 m (q + of_nat i) w) (q + of_nat j) = load8 m (q + of_nat j)" if "apart (q + of_nat i) 1 (q + of_nat j) 1"
    using that by (auto simp: apart_def load8_store8)
  then show "i + 1 \<le> j \<or> j + 1 \<le> i \<Longrightarrow> load8 (store8 m (q + of_nat i) w) (q + of_nat j) = load8 m (q + of_nat j)"
    using offsets_apart [of i 1 j 1 q] assms by simp
qed (use assms in \<open>simp_all only: load32_store32_apart [OF offsets_apart] load32_store8_apart [OF offsets_apart]
  load8_store32_apart [OF offsets_apart]\<close>)

lemma block_offset_0:
  assumes "20 \<le> n"
  shows "hdr_magic m q = load32 m (q + of_nat 0)" "hdr_is_hole m q = load8 m (q + of_nat 4)" "hdr_size m q = load32 m (q + of_nat 8)"
    "ftr_magic m (q + of_nat n - 8) = load32 m (q + of_nat (n - 8))" "ftr_header m (q + of_nat n - 8) = load32 m (q + of_nat (n - 4))"
  using block_offsets [OF assms, of m q 0] by (simp_all del: of_nat_diff)

lemma grown_offsets:
  assumes "20 \<le> n"
  shows "grown q l n m = (let m = store8 m (q + of_nat (l + 4)) 1
    in if l = 0 then m else store32 (store32 m (q + of_nat (l + n - 4)) q) (q + of_nat 8) (of_nat (l + n)))"
proof -
  have "q + of_nat l + 4 = q + of_nat (l + 4)" "q + of_nat l + of_nat n - 8 + 4 = q + of_nat (l + n - 4)" "q + 8 = q + of_nat 8"
    using assms by (simp_all add: of_nat_diff)
  then show ?thesis by (simp only: grown_def Let_def)
qed

lemma grown_reads:
  assumes n: "20 \<le> n" and l: "l = 0 \<or> 20 \<le> l" and u: "l + n < 4294967296"
  shows "k + 4 \<le> l + 4 \<or> l + 5 \<le> k \<Longrightarrow> l = 0 \<or> k + 4 \<le> 8 \<or> 12 \<le> k \<and> k + 4 \<le> l + n - 4 \<Longrightarrow> k + 4 \<le> l + n \<Longrightarrow>
      load32 (grown q l n m) (q + of_nat k) = load32 m (q + of_nat k)"
    "load8 (grown q l n m) (q + of_nat 4) = (if l = 0 then 1 else load8 m (q + of_nat 4))"
    "l \<noteq> 0 \<Longrightarrow> load32 (grown q l n m) (q + of_nat 8) = of_nat (l + n)"
    "l \<noteq> 0 \<Longrightarrow> load32 (grown q l n m) (q + of_nat (l + n - 4)) = q"
proof -
  have n4: "l + n - 4 + 4 \<le> 4294967296" "l + 4 + 4 \<le> 4294967296" "8 + 4 \<le> (4294967296 :: nat)" using n u by simp_all
  show "load32 (grown q l n m) (q + of_nat k) = load32 m (q + of_nat k)"
    if k: "k + 4 \<le> l + 4 \<or> l + 5 \<le> k" "l = 0 \<or> k + 4 \<le> 8 \<or> 12 \<le> k \<and> k + 4 \<le> l + n - 4" "k + 4 \<le> l + n"
  proof -
    have k4: "k + 4 \<le> 4294967296" using k(3) u by linarith
    have "load32 (store8 m (q + of_nat (l + 4)) 1) (q + of_nat k) = load32 m (q + of_nat k)"
      by (rule read_offset(2) [OF k4 n4(2)]) (use k(1) in linarith)
    moreover have "load32 (store32 m' (q + of_nat (l + n - 4)) q) (q + of_nat k) = load32 m' (q + of_nat k)"
      "load32 (store32 m' (q + of_nat 8) (of_nat (l + n))) (q + of_nat k) = load32 m' (q + of_nat k)" if "l \<noteq> 0" for m'
      by (rule read_offset(1) [OF k4 n4(1)], use k(2) l n that in linarith, rule read_offset(1) [OF k4 n4(3)], use k(2) that in linarith)
    ultimately show ?thesis by (cases "l = 0") (simp_all add: grown_offsets [OF n] Let_def del: of_nat_diff of_nat_add)
  qed
  have "load8 (store8 m (q + of_nat (l + 4)) 1) (q + of_nat 4) = load8 m (q + of_nat 4)" if "l \<noteq> 0"
    by (rule read_offset(4) [OF _ n4(2)]) (use l that in simp_all)
  moreover have "load8 (store32 m' (q + of_nat (l + n - 4)) q) (q + of_nat 4) = load8 m' (q + of_nat 4)"
    "load8 (store32 m' (q + of_nat 8) (of_nat (l + n))) (q + of_nat 4) = load8 m' (q + of_nat 4)" for m'
    by (rule read_offset(3) [OF _ n4(1)], simp, use n in linarith, rule read_offset(3) [OF _ n4(3)], simp, simp)
  ultimately show "load8 (grown q l n m) (q + of_nat 4) = (if l = 0 then 1 else load8 m (q + of_nat 4))"
    by (simp add: grown_offsets [OF n] Let_def load8_store8 del: of_nat_diff of_nat_add of_nat_numeral)
  show "load32 (grown q l n m) (q + of_nat 8) = of_nat (l + n)" if "l \<noteq> 0"
    using that by (simp add: grown_offsets [OF n] Let_def load32_store32_same del: of_nat_diff of_nat_add)
  show "load32 (grown q l n m) (q + of_nat (l + n - 4)) = q" if "l \<noteq> 0"
  proof -
    have "load32 (store32 m' (q + of_nat 8) (of_nat (l + n))) (q + of_nat (l + n - 4)) = load32 m' (q + of_nat (l + n - 4))" for m'
      by (rule read_offset(1) [OF n4(1,3)]) (use n l that in linarith)
    then show ?thesis using that by (simp add: grown_offsets [OF n] Let_def load32_store32_same del: of_nat_diff of_nat_add)
  qed
qed

lemma grown_block:
  assumes b: "block_at m e (q + of_nat l) (n, False)" and u: "unat q + (l + n) < 4294967296"
    and left: "l = 0 \<or> 20 \<le> l \<and> hdr_magic m q = HEAP_MAGIC \<and> hdr_is_hole m q = 1"
  shows "block_at (grown q l n m) e q (l + n, True)" "footer_at (grown q l n m) q (l + n)"
proof -
  have n: "20 \<le> n" and f: "footer_at m (q + of_nat l) n" and mg: "hdr_magic m (q + of_nat l) = HEAP_MAGIC"
    and sz: "hdr_size m (q + of_nat l) = of_nat n" using b by (simp_all add: block_at_def)
  have nl: "20 \<le> l + n" using n by simp
  have l: "l = 0 \<or> 20 \<le> l" "l + n < 4294967296" using left u by auto
  note o = block_offsets [OF n, of m q l] and o0 = block_offset_0 [OF nl, of _ q] and r = grown_reads [OF n l, where q = q and m = m]
  have fm: "load32 m (q + of_nat (l + n - 8)) = HEAP_MAGIC" "load32 m (q + of_nat (l + n - 4)) = q + of_nat l"
    using f by (simp_all add: footer_at_def o del: of_nat_diff of_nat_add)
  have mq: "load32 m (q + of_nat 0) = HEAP_MAGIC" "l \<noteq> 0 \<Longrightarrow> load8 m (q + of_nat 4) = 1"
    using left mg block_offset_0 [OF nl, of m q] by auto
  have "hdr_magic (grown q l n m) q = HEAP_MAGIC" using r(1) [of 0] mq nl by (simp add: o0 del: of_nat_diff of_nat_add)
  moreover have "hdr_is_hole (grown q l n m) q = 1" using r(2) mq(2) by (simp add: o0 del: of_nat_diff of_nat_add of_nat_numeral)
  moreover have "hdr_size (grown q l n m) q = of_nat (l + n)"
  proof (cases "l = 0")
    case True
    then show ?thesis using r(1) [of 8] sz n by (simp add: o0 hdr_size_def)
  next
    case False
    then show ?thesis using r(3) by (simp add: o0 del: of_nat_diff of_nat_add of_nat_numeral)
  qed
  moreover have "ftr_magic (grown q l n m) (q + of_nat (l + n) - 8) = HEAP_MAGIC"
    unfolding o0 by (subst r(1)) (use fm(1) n l(1) in linarith | rule fm(1))+
  moreover have "ftr_header (grown q l n m) (q + of_nat (l + n) - 8) = q"
  proof (cases "l = 0")
    case True
    then have "load32 (grown q l n m) (q + of_nat (l + n - 4)) = load32 m (q + of_nat (l + n - 4))"
      using n by (intro r(1)) linarith+
    then show ?thesis unfolding o0 using fm(2) True by simp
  qed (use r(4) in \<open>simp add: o0 del: of_nat_diff of_nat_add\<close>)
  ultimately show "block_at (grown q l n m) e q (l + n, True)" "footer_at (grown q l n m) q (l + n)"
    using n u by (simp_all add: block_at_def footer_at_def del: of_nat_add)
qed

subsection \<open>The hole on the left\<close>

text \<open>The size of a hole at the end of the blocks, and the blocks before it.\<close>

definition left_len :: "block list \<Rightarrow> nat" where
  "left_len xs = (if xs \<noteq> [] \<and> snd (last xs) then fst (last xs) else 0)"

definition left_rest :: "block list \<Rightarrow> block list" where
  "left_rest xs = (if xs \<noteq> [] \<and> snd (last xs) then butlast xs else xs)"

lemma total_left: "total xs = total (left_rest xs) + left_len xs"
  by (cases xs rule: rev_cases) (simp_all add: left_len_def left_rest_def)

text \<open>The test of the word before the block finds the hole, or nothing.\<close>

lemma left_neighbour:
  assumes inv: "heap_inv s heap (xs @ (n, False) # ys)" and p: "p = heap_start (memory s) heap + of_nat (total xs)"
    and edge: "xs \<noteq> [] \<or> ftr_magic (memory s) (p - 8) \<noteq> HEAP_MAGIC"
    and q: "q = heap_start (memory s) heap + of_nat (total (left_rest xs))"
  shows "p = q + of_nat (left_len xs)" "unat q + (left_len xs + n) < 4294967296"
    "left_len xs \<noteq> 0 \<Longrightarrow> 20 \<le> left_len xs \<and> hdr_magic (memory s) q = HEAP_MAGIC \<and> hdr_is_hole (memory s) q = 1
       \<and> hdr_size (memory s) q = of_nat (left_len xs) \<and> footer_at (memory s) q (left_len xs)"
    "left_len xs = 0 \<Longrightarrow> q = p \<and> left_rest xs = xs \<and>
       (ftr_magic (memory s) (p - 8) = HEAP_MAGIC \<longrightarrow> ftr_header (memory s) (p - 8) \<noteq> p \<and> hdr_is_hole (memory s) (ftr_header (memory s) (p - 8)) = 0)"
proof -
  let ?m = "memory s" and ?e = "heap_end (memory s) heap"
  note b = heap_inv_block [OF inv p]
  show pq: "p = q + of_nat (left_len xs)" using p q total_left [of xs] by simp
  have e: "unat p + n \<le> unat ?e" using b(5) by linarith
  then have pe: "p \<noteq> ?e" using b(3) by auto
  consider (none) "xs = []" | (last) us l h where "xs = us @ [(l, h)]" by (cases xs rule: rev_cases) auto
  then have "unat q + (left_len xs + n) < 4294967296
    \<and> (left_len xs \<noteq> 0 \<longrightarrow> 20 \<le> left_len xs \<and> hdr_magic ?m q = HEAP_MAGIC \<and> hdr_is_hole ?m q = 1
         \<and> hdr_size ?m q = of_nat (left_len xs) \<and> footer_at ?m q (left_len xs))
    \<and> (left_len xs = 0 \<longrightarrow> q = p \<and> left_rest xs = xs
         \<and> (ftr_magic ?m (p - 8) = HEAP_MAGIC \<longrightarrow> ftr_header ?m (p - 8) \<noteq> p \<and> hdr_is_hole ?m (ftr_header ?m (p - 8)) = 0))"
  proof cases
    case none
    then show ?thesis using b(6) edge p q by (simp add: left_len_def left_rest_def)
  next
    case last
    let ?a = "heap_start ?m heap + of_nat (total us)"
    have "heap_inv s heap (us @ (l, h) # (n, False) # ys)" using inv last by simp
    note bl = heap_inv_block [OF this refl]
    have al: "p = ?a + of_nat l" using p last by (simp add: add.assoc)
    have f: "footer_at ?m ?a l" "hdr_is_hole ?m ?a = (if h then 1 else 0)" "hdr_magic ?m ?a = HEAP_MAGIC"
      using bl(1) pe al by (auto simp: block_at_def)
    have "unat ?a + (l + n) < 4294967296" using bl(5) unat_lt_2p32 [of ?e] unfolding total_simps fst_conv by linarith
    moreover have "?a \<noteq> ?a + of_nat l" using bl(3,6) of_nat_u32_inject [of l 4294967296 0] by auto
    ultimately show ?thesis using last f bl(2,3) b(6) q al
      by (auto simp: left_len_def left_rest_def footer_at_def add.assoc)
  qed
  then show "unat q + (left_len xs + n) < 4294967296"
    "left_len xs \<noteq> 0 \<Longrightarrow> 20 \<le> left_len xs \<and> hdr_magic (memory s) q = HEAP_MAGIC \<and> hdr_is_hole (memory s) q = 1
       \<and> hdr_size (memory s) q = of_nat (left_len xs) \<and> footer_at (memory s) q (left_len xs)"
    "left_len xs = 0 \<Longrightarrow> q = p \<and> left_rest xs = xs \<and>
       (ftr_magic (memory s) (p - 8) = HEAP_MAGIC \<longrightarrow> ftr_header (memory s) (p - 8) \<noteq> p \<and> hdr_is_hole (memory s) (ftr_header (memory s) (p - 8)) = 0)"
    by blast+
qed

lemma unify_left_run:
  assumes inv: "heap_inv s heap (xs @ (n, False) # ys)" and p: "p = heap_start (memory s) heap + of_nat (total xs)"
    and edge: "xs \<noteq> [] \<or> ftr_magic (memory s) (p - 8) \<noteq> HEAP_MAGIC"
    and q: "q = heap_start (memory s) heap + of_nat (total (left_rest xs))"
  shows "free_unify_left p (p + of_nat n - 8) (upd_mem (\<lambda>m. store8 m (p + 4) 1) s)
    = (q, left_len xs = 0, upd_mem (grown q (left_len xs) n) s)"
proof -
  let ?m = "memory s" and ?l = "left_len xs" let ?m1 = "store8 ?m (p + 4) 1"
  note b = heap_inv_block [OF inv p] and ln = left_neighbour [OF assms]
  have below: "load32 ?m1 (p - 8) = load32 ?m (p - 8)" "load32 ?m1 (p - 4) = load32 ?m (p - 4)"
    using read_offset(2) [of 0 12 ?m "p - 8" 1] read_offset(2) [of 4 12 ?m "p - 8" 1] by (simp_all add: add.commute)
  then have t: "ftr_magic ?m1 (p - 8) = ftr_magic ?m (p - 8)" "ftr_header ?m1 (p - 8) = ftr_header ?m (p - 8)"
    by (simp_all add: ftr_magic_def ftr_header_def)
  show ?thesis
  proof (cases "?l = 0")
    case True
    have "hdr_is_hole ?m1 h = hdr_is_hole ?m h" if "h \<noteq> p" for h using that by (simp add: hdr_is_hole_def load8_store8)
    then have "\<not> (ftr_magic ?m1 (p - 8) = HEAP_MAGIC \<and> hdr_is_hole ?m1 (ftr_header ?m1 (p - 8)) = 1)"
      using ln(4) [OF True] by (auto simp: t)
    then show ?thesis using ln(4) [OF True] True by (simp add: free_unify_left_def grown_def upd_mem_def Let_def)
  next
    case False
    note l = ln(3) [OF False]
    have f: "ftr_magic ?m (p - 8) = HEAP_MAGIC" "ftr_header ?m (p - 8) = q"
      using l ln(1) by (simp_all add: footer_at_def)
    let ?m2 = "store32 ?m1 (p + of_nat n - 8 + 4) q"
    have n4: "?l + n - 4 + 4 \<le> 4294967296" "?l + 4 + 4 \<le> 4294967296" using ln(2) b(3) by linarith+
    have o: "p + 4 = q + of_nat (?l + 4)" "p + of_nat n - 8 + 4 = q + of_nat (?l + n - 4)"
      using ln(1) b(3) by (simp_all add: of_nat_diff)
    have "hdr_size ?m1 p = of_nat n"
      using read_offset(2) [of 8 4 ?m p 1] b(2) by (simp add: hdr_size_def add.commute)
    moreover have "hdr_is_hole ?m1 q = 1"
    proof -
      have "load8 ?m1 (q + of_nat 4) = load8 ?m (q + of_nat 4)" unfolding o by (rule read_offset(4) [OF _ n4(2)]) (use l in simp_all)
      then show ?thesis using l by (simp add: hdr_is_hole_def)
    qed
    moreover have "hdr_size ?m2 q = of_nat ?l"
    proof -
      have "load32 ?m2 (q + of_nat 8) = load32 ?m1 (q + of_nat 8)" unfolding o(2) by (rule read_offset(1) [OF _ n4(1)]) (use l b(3) in linarith)+
      also have "\<dots> = load32 ?m (q + of_nat 8)" unfolding o(1) by (rule read_offset(2) [OF _ n4(2)]) (use l in linarith)+
      finally show ?thesis using l by (simp add: hdr_size_def)
    qed
    ultimately show ?thesis using False t f ln(1)
      by (simp add: free_unify_left_def grown_def upd_mem_def Let_def add.assoc)
  qed
qed

subsection \<open>The hole on the right\<close>

lemma find_index_first:
  "iterator \<le> oa_size_at (memory s) heap \<Longrightarrow> find_index x heap iterator s = (i, s') \<Longrightarrow>
    s' = s \<and> unat i = unat iterator + length (takeWhile (\<lambda>h. h \<noteq> x) (drop (unat iterator) (oa_list (memory s) heap)))"
proof (induction x heap iterator s rule: find_index.induct)
  case (1 x heap iterator s)
  let ?xs = "oa_list (memory s) heap" and ?i = "unat iterator"
  have len: "length ?xs = unat (oa_size_at (memory s) heap)" by (simp add: oa_list_def)
  show ?case
  proof (cases "iterator < oa_size_at (memory s) heap")
    case False
    then show ?thesis using "1.prems" len
      by (subst (asm) find_index.simps) (simp add: word_le_nat_alt word_less_nat_alt)
  next
    case True
    then have i: "?i < length ?xs" by (simp add: len word_less_nat_alt)
    have d: "drop ?i ?xs = ?xs ! ?i # drop (Suc ?i) ?xs" using i by (rule Cons_nth_drop_Suc [symmetric])
    note look = lookup_s_index [OF True]
    show ?thesis
    proof (cases "?xs ! ?i = x")
      case False
      have le: "iterator + 1 \<le> oa_size_at (memory s) heap" using True by (simp add: inc_le)
      have "find_index x heap (iterator + 1) s = (i, s')"
        using "1.prems"(2) True False by (subst (asm) find_index.simps) (simp add: look)
      from "1.IH" [OF True look [symmetric] _ _ le this] True False
      show ?thesis by (simp add: d unat_Suc_below)
    next
      case eq: True
      then have "find_index x heap iterator s = (iterator, s)"
        using True by (subst find_index.simps) (simp add: look)
      then show ?thesis using "1.prems"(2) eq by (simp add: d)
    qed
  qed
qed

lemma find_index_found:
  assumes "x \<in> set (oa_list (memory s) heap)"
  obtains i where "find_index x heap 0 s = (of_nat i, s)" "i < length (oa_list (memory s) heap)"
    "oa_list (memory s) heap ! i = x" "(of_nat i :: u32) < oa_size_at (memory s) heap"
proof -
  let ?xs = "oa_list (memory s) heap"
  obtain i s' where f: "find_index x heap 0 s = (i, s')" by (metis surj_pair)
  have r: "s' = s" "unat i = length (takeWhile (\<lambda>h. h \<noteq> x) ?xs)"
    using find_index_first [OF _ f] by simp_all
  have "takeWhile (\<lambda>h. h \<noteq> x) ?xs \<noteq> ?xs" using assms by (auto simp: takeWhile_eq_all_conv)
  then have lt: "unat i < length ?xs" using length_takeWhile_le [of "\<lambda>h. h \<noteq> x" ?xs] r(2)
    by (metis append_Nil2 append_eq_conv_conj takeWhile_dropWhile_id order_le_imp_less_or_eq)
  have "i < oa_size_at (memory s) heap" using lt by (simp add: word_less_nat_alt oa_list_def)
  moreover have "?xs ! unat i = x" using lt r(2) nth_length_takeWhile [of "\<lambda>h. h \<noteq> x" ?xs] by simp
  ultimately show thesis using f r(1) lt by (intro that [of "unat i"]) simp_all
qed

text \<open>A hole takes over the hole behind it: its size changes, and the other hole leaves the index.\<close>

definition widened :: "u32 \<Rightarrow> nat \<Rightarrow> nat \<Rightarrow> bool \<Rightarrow> mem \<Rightarrow> mem" where
  "widened q n n2 h m = (if h then store32 m (q + 8) (of_nat (n + n2)) else m)"

lemma widened_outside: "20 \<le> n \<Longrightarrow> unat q + n < 4294967296 \<Longrightarrow> \<not> within q n c \<Longrightarrow> widened q n n2 h m c = m c"
  using within_field [of q 8 4 c n] store32_other [of "q + 8" c m] by (fastforce simp: widened_def)

lemma unify_right_run:
  assumes sh: "heap_shape (memory s) heap k" and r: "r = q + of_nat n" and n: "20 \<le> n" "unat q + n < 4294967296"
    and q: "hdr_size (memory s) q = of_nat n" and b: "block_at (memory s) e r (n2, h)" and n2: "unat q + (n + n2) < 4294967296"
    and area: "\<And>c. within q n c \<Longrightarrow> within (heap_start (memory s) heap) k c"
    and mem: "h \<Longrightarrow> r \<in> set (oa_list (memory s) heap)"
  obtains m' where "free_unify_right q (r - 8) heap s = (q + of_nat (n + (if h then n2 else 0)) - 8, r, s\<lparr>memory := m'\<rparr>)"
    and "index_step heap (widened q n n2 h (memory s)) m'"
    and "mset (oa_list m' heap) + (if h then {#r#} else {#}) = mset (oa_list (memory s) heap)"
    and "h \<Longrightarrow> oa_size_at m' heap < oa_max_size_at m' heap" "\<not> h \<Longrightarrow> m' = memory s"
    and "sorted (map (hdr_size (widened q n n2 h (memory s))) (oa_list (memory s) heap)) \<Longrightarrow>
      sorted (map (hdr_size (widened q n n2 h (memory s))) (oa_list m' heap))"
proof (cases h)
  case False
  have "hdr_is_hole (memory s) r = 0" using b False by (simp add: block_at_def)
  then have "free_unify_right q (r - 8) heap s = (q + of_nat n - 8, r, s)" by (simp add: free_unify_right_def r Let_def)
  moreover have "index_step heap (memory s) (memory s)" using sh by (simp add: index_step_def heap_shape_def Let_def)
  ultimately show thesis using False by (intro that [of "memory s"]) (simp_all add: widened_def)
next
  case True
  let ?m = "memory s" let ?m3 = "store32 ?m (q + 8) (of_nat (n + n2))"
  have br: "hdr_magic ?m r = HEAP_MAGIC" "hdr_is_hole ?m r = 1" "hdr_size ?m r = of_nat n2"
    using b True by (simp_all add: block_at_def)
  have "?m3 c = ?m c" if "\<not> within (heap_start ?m heap) k c" for c
    using widened_outside [OF n, of c n2 True ?m] area that by (auto simp: widened_def)
  note s3 = shape_area [OF sh this]
  have "load32 ?m3 (q + of_nat (n + 8)) = load32 ?m (q + of_nat (n + 8))"
    using read_offset(1) [of "n + 8" 8 ?m q] n n2 b by (simp add: block_at_def del: of_nat_add)
  then have sr: "hdr_size ?m3 r = of_nat n2" using br(3) by (simp add: hdr_size_def r add.assoc)
  obtain i where i: "find_index r heap 0 (s\<lparr>memory := ?m3\<rparr>) = (of_nat i, s\<lparr>memory := ?m3\<rparr>)" "i < length (oa_list ?m3 heap)"
    "oa_list ?m3 heap ! i = r" "(of_nat i :: u32) < oa_size_at ?m3 heap"
    using find_index_found [of r "s\<lparr>memory := ?m3\<rparr>" heap] mem [OF True] s3(2) by auto
  obtain m' where rm: "remove_s (of_nat i) heap (s\<lparr>memory := ?m3\<rparr>) = s\<lparr>memory := m'\<rparr>" "index_step heap ?m3 m'"
    "add_mset r (mset (oa_list m' heap)) = mset (oa_list ?m3 heap)" "oa_size_at m' heap < oa_max_size_at m' heap"
    "sorted (map (hdr_size ?m3) (oa_list ?m3 heap)) \<Longrightarrow> sorted (map (hdr_size ?m3) (oa_list m' heap))"
    using remove_s_step [of "s\<lparr>memory := ?m3\<rparr>" heap k i] s3(1) i(2,3) by auto
  have "free_unify_right q (r - 8) heap s = (q + of_nat (n + n2) - 8, r, s\<lparr>memory := m'\<rparr>)"
    using br sr q i(1,4) rm(1) by (simp add: free_unify_right_def upd_mem_def r add.assoc)
  then show thesis using rm True s3(2) by (intro that [of m']) (simp_all add: widened_def)
qed

text \<open>What \<open>free\<close> leaves out: the footer of the united hole.\<close>

definition close_footer :: "bool \<Rightarrow> u32 \<Rightarrow> nat \<Rightarrow> mem \<Rightarrow> mem" where
  "close_footer h q n m = (if h then put_footer (q + of_nat n - 8) q m else m)"

lemma close_footer_outside:
  "20 \<le> n \<Longrightarrow> unat q + n < 4294967296 \<Longrightarrow> \<not> within q n c \<Longrightarrow> close_footer h q n m c = m c"
  by (simp add: close_footer_def put_footer_outside)

lemma close_footer_cong: "m' c = m c \<Longrightarrow> close_footer h q n m' c = close_footer h q n m c"
  by (simp add: close_footer_def put_footer_def store32_def)

lemma widened_block:
  assumes b: "block_at m e q (n, True)" "footer_at m q n" and r: "r = q + of_nat n"
    and b2: "block_at m e r (n2, h)" "h \<longrightarrow> r + of_nat n2 \<noteq> e" and u: "unat q + (n + n2) < 4294967296"
  shows "block_at (close_footer h q (n + (if h then n2 else 0)) (widened q n n2 h m)) e q (n + (if h then n2 else 0), True)"
    "h \<Longrightarrow> ftr_header (widened q n n2 h m) (q + of_nat (n + n2) - 8) = r"
proof -
  note bd = block_atD [OF b(1)] and bd2 = block_atD [OF b2(1)]
  have nn: "20 \<le> n + n2" "n + n2 - 4 + 4 \<le> 4294967296" using bd(1) u by simp_all
  let ?m = "store32 m (q + 8) (of_nat (n + n2))"
  have same: "load32 ?m (q + of_nat 0) = load32 m (q + of_nat 0)" "load8 ?m (q + of_nat 4) = load8 m (q + of_nat 4)"
    using read_offset(1) [of 0 8 m q] read_offset(3) [of 4 8 m q] by simp_all
  have hd: "hdr_magic ?m q = HEAP_MAGIC" "hdr_is_hole ?m q = 1" "hdr_size ?m q = of_nat (n + n2)"
    using same bd(4,5) by (simp_all add: hdr_magic_def hdr_is_hole_def hdr_size_def load32_store32_same)
  show "block_at (close_footer h q (n + (if h then n2 else 0)) (widened q n n2 h m)) e q (n + (if h then n2 else 0), True)"
  proof (cases h)
    case True
    then show ?thesis using hd nn(1) u
      by (simp add: close_footer_def widened_def block_at_def header_put_footer footer_at_def footer_put del: of_nat_add)
  qed (use b(1) in \<open>simp add: close_footer_def widened_def\<close>)
  show "ftr_header (widened q n n2 h m) (q + of_nat (n + n2) - 8) = r" if h
  proof -
    have "footer_at m r n2" using b2 that by (auto simp: block_at_def)
    then have "load32 m (q + of_nat (n + n2 - 4)) = r"
      using block_offsets(5) [OF bd2(1), of m q n] by (simp add: footer_at_def r)
    moreover have "8 + 4 \<le> n + n2 - 4 \<or> n + n2 - 4 + 4 \<le> 8" using bd(1) bd2(1) by linarith
    from read_offset(1) [OF nn(2) _ this] have "load32 ?m (q + of_nat (n + n2 - 4)) = load32 m (q + of_nat (n + n2 - 4))"
      by (simp del: of_nat_diff of_nat_add)
    ultimately show ?thesis using that by (simp only: block_offset_0 [OF nn(1)] widened_def if_True simp_thms)
  qed
qed

subsection \<open>\<open>free\<close>\<close>

text \<open>The bytes of the block between header and footer are written by nobody.\<close>

lemma united_data:
  assumes "20 \<le> n" "unat (q::u32) + (l + n) < 4294967296" "l = 0 \<or> 20 \<le> l" "within (q + of_nat l + 12) (n - 20) c"
  shows "widened q N n2 h (grown q l n m) c = m c"
proof -
  have u: "unat (q + of_nat (l + 4)) = unat q + (l + 4)" "unat (q + of_nat (l + n - 4)) = unat q + (l + n - 4)"
    "unat (q + of_nat 8) = unat q + 8" "unat (q + of_nat (l + 12)) = unat q + (l + 12)"
    by (rule unat_add_of_nat, use assms in linarith)+
  have "within (q + of_nat (l + 12)) (n - 20) c" using assms(4) by (simp add: ac_simps)
  moreover have "unat q + (l + 12) + (n - 20) \<le> 4294967296" using assms by linarith
  ultimately have c: "unat q + (l + 12) \<le> unat c" "unat c < unat q + (l + 12) + (n - 20)" using u(4) by (simp_all add: within_nat)
  have "\<not> within (q + of_nat 8) 4 c" using c u assms(1-3) by (subst within_nat) linarith+
  moreover have "\<not> within (q + of_nat (l + n - 4)) 4 c" using c u assms(1-3) by (subst within_nat) linarith+
  moreover have "c \<noteq> q + of_nat (l + 4)" using c u(1) by auto
  ultimately show ?thesis
    by (auto simp add: grown_offsets [OF assms(1)] widened_def Let_def store32_other store8_def del: of_nat_diff of_nat_add)
qed

text \<open>The blocks after the block of \<open>n\<close> bytes between \<open>xs\<close> and \<open>b2 # ys\<close> is freed.\<close>

definition freed :: "block list \<Rightarrow> nat \<Rightarrow> block \<Rightarrow> block list \<Rightarrow> block list" where
  "freed xs n b2 ys = left_rest xs @ (left_len xs + n + (if snd b2 then fst b2 else 0), True)
     # (if snd b2 then ys else b2 # ys)"

lemma total_freed: "total (freed xs n b2 ys) = total (xs @ (n, False) # b2 # ys)"
  by (simp add: freed_def total_left [of xs])

lemma freed_grouping:
  obtains ws where "xs @ (n, False) # (n2, h) # ys = left_rest xs @ ws @ (if h then ys else (n2, h) # ys)"
    "total ws = left_len xs + n + (if h then n2 else 0)"
    "freed xs n (n2, h) ys = left_rest xs @ [(total ws, True)] @ (if h then ys else (n2, h) # ys)"
proof
  let ?ws = "(if left_len xs = 0 \<and> left_rest xs = xs then [] else [last xs]) @ (n, False) # (if h then [(n2, h)] else [])"
  have x: "xs = left_rest xs @ (if left_len xs = 0 \<and> left_rest xs = xs then [] else [last xs])"
    by (cases xs rule: rev_cases) (auto simp: left_len_def left_rest_def)
  then show "xs @ (n, False) # (n2, h) # ys = left_rest xs @ ?ws @ (if h then ys else (n2, h) # ys)"
    by (cases xs rule: rev_cases) (auto simp: left_len_def left_rest_def)
  show "total ?ws = left_len xs + n + (if h then n2 else 0)"
    using arg_cong [OF x, of total] total_left [of xs] by auto
  then show "freed xs n (n2, h) ys = left_rest xs @ [(total ?ws, True)] @ (if h then ys else (n2, h) # ys)"
    by (simp add: freed_def)
qed

text \<open>The bounds of the united hole, and what the header stores make of the heap's memory.\<close>

lemma free_area:
  assumes inv: "heap_inv s heap (xs @ (n, False) # (n2, h) # ys)" and last: "h \<longrightarrow> ys \<noteq> []"
    and p: "p = heap_start (memory s) heap + of_nat (total xs)"
    and edge: "xs \<noteq> [] \<or> ftr_magic (memory s) (p - 8) \<noteq> HEAP_MAGIC"
    and q: "q = heap_start (memory s) heap + of_nat (total (left_rest xs))" and N: "N = left_len xs + n"
    and m2: "m2 = grown q (left_len xs) n (memory s)"
  shows "20 \<le> N" "unat q + (N + n2) < 4294967296" "p + of_nat n = q + of_nat N"
    "unat q + (N + (if h then n2 else 0)) < unat (heap_end (memory s) heap)"
    "block_at m2 (heap_end (memory s) heap) q (N, True)" "footer_at m2 q N"
    "block_at m2 (heap_end (memory s) heap) (q + of_nat N) (n2, h)" "h \<longrightarrow> q + of_nat N + of_nat n2 \<noteq> heap_end (memory s) heap"
    "\<And>c. \<not> within q N c \<Longrightarrow> m2 c = memory s c"
    "\<And>c. within q (N + (if h then n2 else 0)) c \<Longrightarrow> within (heap_start (memory s) heap) (total (xs @ (n, False) # (n2, h) # ys)) c"
proof -
  let ?m = "memory s" and ?e = "heap_end (memory s) heap" and ?l = "left_len xs"
  note b = heap_inv_block [OF inv p] and ln = left_neighbour [OF inv p edge q]
  have inv2: "heap_inv s heap ((xs @ [(n, False)]) @ (n2, h) # ys)" using inv by simp
  have r: "q + of_nat N = heap_start ?m heap + of_nat (total (xs @ [(n, False)]))" using ln(1) p by (simp add: N add.assoc)
  note b2 = heap_inv_block [OF inv2 r]
  show pr: "p + of_nat n = q + of_nat N" using ln(1) by (simp add: N add.assoc)
  show N20: "20 \<le> N" using b(3) by (simp add: N)
  have uq: "unat (q + of_nat N) = unat q + N" using ln(2) by (intro unat_add_of_nat) (simp add: N)
  show un: "unat q + (N + n2) < 4294967296" using b2(6) uq by simp
  have ys: "h \<longrightarrow> 20 \<le> total ys"
  proof (cases ys)
    case (Cons y ys')
    have "heap_inv s heap (((xs @ [(n, False)]) @ [(n2, h)]) @ (fst y, snd y) # ys')" using inv Cons by simp
    from heap_inv_block(3) [OF this refl] show ?thesis using Cons by simp
  qed (use last in simp)
  show lim: "unat q + (N + (if h then n2 else 0)) < unat ?e" using b2(3,5) uq ys by (auto split: if_splits)
  have lf: "?l = 0 \<or> 20 \<le> ?l" "?l = 0 \<or> 20 \<le> ?l \<and> hdr_magic ?m q = HEAP_MAGIC \<and> hdr_is_hole ?m q = 1" using ln(3) by auto
  have "block_at ?m ?e (q + of_nat ?l) (n, False)" using b(1) ln(1) by simp
  note g = grown_block [OF this ln(2) lf(2)]
  show "block_at m2 ?e q (N, True)" "footer_at m2 q N" using g by (simp_all add: m2 N)
  show out: "m2 c = ?m c" if "\<not> within q N c" for c
    unfolding m2 by (rule grown_outside [OF b(3) ln(2) lf(1)]) (use that N in simp)
  show "block_at m2 ?e (q + of_nat N) (n2, h)"
    by (rule block_at_cong [OF b2(1)]) (use out un uq in \<open>auto simp: within_nat\<close>)
  show "h \<longrightarrow> q + of_nat N + of_nat n2 \<noteq> ?e"
    using ys b2(5) uq unat_add_of_nat [of "q + of_nat N" n2] un by auto
  show "within (heap_start ?m heap) (total (xs @ (n, False) # (n2, h) # ys)) c" if "within q (N + (if h then n2 else 0)) c" for c
  proof (rule within_field)
    show "within (heap_start ?m heap + of_nat (total (left_rest xs))) (N + (if h then n2 else 0)) c" using that q by simp
    show "total (left_rest xs) + (N + (if h then n2 else 0)) \<le> total (xs @ (n, False) # (n2, h) # ys)"
      using total_left [of xs] by (simp add: N)
    show "total (xs @ (n, False) # (n2, h) # ys) < 4294967296" using b(4,5) unat_lt_2p32 [of ?e] unfolding total_simps fst_conv by linarith
  qed
qed

text \<open>The header stores leave the structure and the index as they are.\<close>

lemma free_shape:
  assumes inv: "heap_inv s heap (xs @ (n, False) # (n2, h) # ys)" and last: "h \<longrightarrow> ys \<noteq> []"
    and p: "p = heap_start (memory s) heap + of_nat (total xs)"
    and edge: "xs \<noteq> [] \<or> ftr_magic (memory s) (p - 8) \<noteq> HEAP_MAGIC"
    and q: "q = heap_start (memory s) heap + of_nat (total (left_rest xs))" and N: "N = left_len xs + n"
    and m3: "m3 = widened q N n2 h (grown q (left_len xs) n (memory s))"
    and m: "m = grown q (left_len xs) n (memory s) \<or> m = m3"
  shows "heap_shape m heap (total (xs @ (n, False) # (n2, h) # ys))" "oa_list m heap = oa_list (memory s) heap"
    "heap_start m heap = heap_start (memory s) heap" "heap_end m heap = heap_end (memory s) heap"
    "oa_size_at m heap = oa_size_at (memory s) heap" "oa_max_size_at m heap = oa_max_size_at (memory s) heap"
proof -
  let ?N = "N + (if h then n2 else 0)" and ?g = "grown q (left_len xs) n (memory s)"
  note fa = free_area [OF inv last p edge q N refl]
  have sh: "heap_shape (memory s) heap (total (xs @ (n, False) # (n2, h) # ys))" using inv by (simp add: heap_inv_def Let_def)
  have eq: "m c = memory s c" if "\<not> within (heap_start (memory s) heap) (total (xs @ (n, False) # (n2, h) # ys)) c" for c
  proof -
    have out: "\<not> within q N c" using fa(10) [of c] within_mono [of q N c ?N] that by auto
    moreover have "unat q + N < 4294967296" using fa(2) by simp
    ultimately have "m3 c = ?g c" unfolding m3 by (intro widened_outside fa(1))
    then show ?thesis using m fa(9) [OF out] by auto
  qed
  show "heap_shape m heap (total (xs @ (n, False) # (n2, h) # ys))" "oa_list m heap = oa_list (memory s) heap"
    "heap_start m heap = heap_start (memory s) heap" "heap_end m heap = heap_end (memory s) heap"
    "oa_size_at m heap = oa_size_at (memory s) heap" "oa_max_size_at m heap = oa_max_size_at (memory s) heap"
    using shape_area [OF sh, of m] eq by blast+
qed

text \<open>Up to the insertion of the new hole.\<close>

lemma free_steps:
  assumes inv: "heap_inv s heap (xs @ (n, False) # (n2, h) # ys)" and last: "h \<longrightarrow> ys \<noteq> []"
    and p: "p = heap_start (memory s) heap + of_nat (total xs)"
    and edge: "xs \<noteq> [] \<or> ftr_magic (memory s) (p - 8) \<noteq> HEAP_MAGIC"
    and q: "q = heap_start (memory s) heap + of_nat (total (left_rest xs))" and N: "N = left_len xs + n"
    and m3: "m3 = widened q N n2 h (grown q (left_len xs) n (memory s))"
  obtains m4 where "free (p + 12) heap s = Some (if left_len xs = 0 then insert_s q heap (s\<lparr>memory := m4\<rparr>) else s\<lparr>memory := m4\<rparr>)"
    and "index_step heap m3 m4" "h \<Longrightarrow> oa_size_at m4 heap < oa_max_size_at m4 heap"
      "\<not> h \<Longrightarrow> oa_size_at m4 heap = oa_size_at (memory s) heap \<and> oa_max_size_at m4 heap = oa_max_size_at (memory s) heap"
    and "mset (oa_list m4 heap) + (if h then {#q + of_nat N#} else {#}) = mset (oa_list (memory s) heap)"
    and "sorted (map (hdr_size m3) (oa_list (memory s) heap)) \<Longrightarrow> sorted (map (hdr_size m3) (oa_list m4 heap))"
proof -
  let ?m = "memory s" and ?bs = "xs @ (n, False) # (n2, h) # ys" let ?start = "heap_start ?m heap" and ?T = "total ?bs" and ?l = "left_len xs"
  define m2 where "m2 = grown q ?l n ?m"
  let ?N = "N + (if h then n2 else 0)" and ?r = "q + of_nat N"
  note fa = free_area [OF inv last p edge q N m2_def] and b = heap_inv_block [OF inv p]
  note s2 = free_shape [OF inv last p edge q N m3 disjI1 [OF m2_def]] and s3 = free_shape [OF inv last p edge q N m3 disjI2 [OF refl]]
  have idx: "mset (oa_list ?m heap) = mset (holes ?start ?bs)" using inv by (simp add: heap_inv_def Let_def)
  have inN: "within ?start ?T c" if "within q N c" for c using fa(10) [of c] within_mono [OF that, of ?N] by simp
  have rin: "?r \<in> set (oa_list m2 heap)" if h
  proof -
    have "?r = ?start + of_nat (total (xs @ [(n, False)]))" using fa(3) p by (simp add: add.assoc)
    then have "?r \<in> set (holes ?start ?bs)" unfolding holes_blocks
      by (intro exI [of _ "xs @ [(n, False)]"] exI [of _ n2] exI [of _ ys]) (simp add: that)
    then show ?thesis using mset_eq_setD [OF idx] s2(2) by simp
  qed
  obtain m4 where right: "free_unify_right q (?r - 8) heap (s\<lparr>memory := m2\<rparr>) = (q + of_nat ?N - 8, ?r, s\<lparr>memory := m4\<rparr>)"
    and st4: "index_step heap m3 m4" and ms4: "mset (oa_list m4 heap) + (if h then {#?r#} else {#}) = mset (oa_list m2 heap)"
    and rm4: "h \<Longrightarrow> oa_size_at m4 heap < oa_max_size_at m4 heap" "\<not> h \<Longrightarrow> m4 = m2"
    and so4: "sorted (map (hdr_size m3) (oa_list m2 heap)) \<Longrightarrow> sorted (map (hdr_size m3) (oa_list m4 heap))"
    using unify_right_run [of "s\<lparr>memory := m2\<rparr>" heap ?T ?r q N "heap_end ?m heap" n2 h] fa(1,2,5,7) s2(1,3) inN rin
    unfolding m3 m2_def [symmetric] by (auto simp: block_at_def)
  have "unat (q + of_nat ?N) = unat q + ?N" using fa(2) by (intro unat_add_of_nat) auto
  then have "q + of_nat ?N \<noteq> heap_end ?m heap" using fa(4) by auto
  then have contract: "free_contract q (q + of_nat ?N - 8) ?r heap (s\<lparr>memory := m4\<rparr>) = Some (s\<lparr>memory := m4\<rparr>)"
    using index_step_bounds(2) [OF s3(1) st4] s3(4) by (simp add: free_contract_def)
  have "p + 12 \<noteq> 0" using b(3,6) unat_add_of_nat [of p 12] by auto
  moreover have "hdr_magic ?m p = HEAP_MAGIC" "ftr_magic ?m (p + of_nat n - 8) = HEAP_MAGIC" "hdr_size ?m p = of_nat n"
    using b(1) by (simp_all add: block_at_def footer_at_def)
  ultimately have "free (p + 12) heap s = Some (if ?l = 0 then insert_s q heap (s\<lparr>memory := m4\<rparr>) else s\<lparr>memory := m4\<rparr>)"
    using unify_left_run [OF inv p edge q] right contract by (simp add: free_def fa(3) m2_def upd_mem_def Let_def)
  then show thesis using st4 ms4 rm4 so4 s2(2,5,6) by (intro that [of m4]) simp_all
qed

lemma free_runs:
  assumes inv: "heap_inv s heap (xs @ (n, False) # (n2, h) # ys)" and last: "h \<longrightarrow> ys \<noteq> []"
    and p: "p = heap_start (memory s) heap + of_nat (total xs)"
    and edge: "xs \<noteq> [] \<or> ftr_magic (memory s) (p - 8) \<noteq> HEAP_MAGIC"
    and q: "q = heap_start (memory s) heap + of_nat (total (left_rest xs))" and N: "N = left_len xs + n"
    and room: "left_len xs = 0 \<and> \<not> h \<longrightarrow> oa_size_at (memory s) heap < oa_max_size_at (memory s) heap"
    and m3: "m3 = widened q N n2 h (grown q (left_len xs) n (memory s))"
  obtains m' where "free (p + 12) heap s = Some (s\<lparr>memory := m'\<rparr>)"
    and "heap_shape m' heap (total (xs @ (n, False) # (n2, h) # ys))"
    and "heap_start m' heap = heap_start (memory s) heap" "heap_end m' heap = heap_end (memory s) heap"
    and "\<And>c. within (heap_start (memory s) heap) (total (xs @ (n, False) # (n2, h) # ys)) c \<Longrightarrow> m' c = m3 c"
    and "mset (oa_list m' heap) + (if h then {#q + of_nat N#} else {#})
      = mset (oa_list (memory s) heap) + (if left_len xs = 0 then {#q#} else {#})"
    and "sorted (map (hdr_size m3) (oa_list (memory s) heap)) \<Longrightarrow> sorted (map (hdr_size m3) (oa_list m' heap)) \<or> left_len xs \<noteq> 0"
    and "oa_max_size_at m' heap = oa_max_size_at (memory s) heap"
proof -
  let ?m = "memory s" and ?bs = "xs @ (n, False) # (n2, h) # ys" let ?start = "heap_start ?m heap" and ?T = "total ?bs" and ?l = "left_len xs"
  note fa = free_area [OF inv last p edge q N refl] and s3 = free_shape [OF inv last p edge q N m3 disjI2 [OF refl]]
  have ch: "chain ?m (heap_end ?m heap) ?start ?bs" and idx: "mset (oa_list ?m heap) = mset (holes ?start ?bs)"
    and bound: "unat ?start + ?T < 4294967296"
    using inv by (simp_all add: heap_inv_def heap_shape_def Let_def)
  obtain m4 where run: "free (p + 12) heap s = Some (if ?l = 0 then insert_s q heap (s\<lparr>memory := m4\<rparr>) else s\<lparr>memory := m4\<rparr>)"
    and st4: "index_step heap m3 m4" and rm4: "h \<Longrightarrow> oa_size_at m4 heap < oa_max_size_at m4 heap"
      "\<not> h \<Longrightarrow> oa_size_at m4 heap = oa_size_at ?m heap \<and> oa_max_size_at m4 heap = oa_max_size_at ?m heap"
    and ms4: "mset (oa_list m4 heap) + (if h then {#q + of_nat N#} else {#}) = mset (oa_list ?m heap)"
    and so4: "sorted (map (hdr_size m3) (oa_list ?m heap)) \<Longrightarrow> sorted (map (hdr_size m3) (oa_list m4 heap))"
    using free_steps [OF inv last p edge q N m3] by metis
  note b4 = index_step_bounds [OF s3(1) st4, unfolded s3(3,4)]
  have mx4: "oa_max_size_at m4 heap = oa_max_size_at ?m heap" using st4 s3(6) by (simp add: index_step_def)
  show thesis
  proof (cases "?l = 0")
    case False
    then show thesis using run b4 ms4 mx4 by (intro that [of m4]) simp_all
  next
    case True
    have "oa_size_at m4 heap < oa_max_size_at m4 heap" using rm4 room True by (cases h) auto
    then obtain m5 where ins: "insert_s q heap (s\<lparr>memory := m4\<rparr>) = s\<lparr>memory := m5\<rparr>" and st5: "index_step heap m4 m5"
      and ms5: "mset (oa_list m5 heap) = add_mset q (mset (oa_list m4 heap))"
      and so5: "sorted (map (hdr_size m4) (oa_list m4 heap)) \<Longrightarrow> sorted (map (hdr_size m4) (oa_list m5 heap))"
      using insert_s_step [of "s\<lparr>memory := m4\<rparr>" heap ?T q] b4(3) by auto
    note b5 = index_step_bounds [OF b4(3) st5, unfolded b4(1,2)]
    have size: "sorted (map (hdr_size m4) ks) = sorted (map (hdr_size m3) ks)" if "set ks \<subseteq> insert q (set (oa_list ?m heap))" for ks
    proof (rule sizes_sorted_cong)
      fix x c assume x: "x \<in> set ks" "within x 12 c"
      have "within ?start ?T c" if "x = q" using fa(10) [of c] within_mono [OF x(2), of N] within_mono [of q N c "N + (if h then n2 else 0)"] fa(1) that by simp
      moreover have "within ?start ?T c" if "x \<noteq> q"
        using holes_within [OF ch bound _ x(2)] x(1) that \<open>set ks \<subseteq> _\<close> mset_eq_setD [OF idx] by blast
      ultimately show "m4 c = m3 c" by (intro b4(4)) blast
    qed
    have "set (oa_list m4 heap) \<subseteq> set (oa_list ?m heap)" "set (oa_list m5 heap) = insert q (set (oa_list m4 heap))"
      using arg_cong [OF ms4, of set_mset] arg_cong [OF ms5, of set_mset] by auto
    then have "sorted (map (hdr_size m3) (oa_list m5 heap))" if "sorted (map (hdr_size m3) (oa_list ?m heap))"
      using so4 [OF that] so5 size [of "oa_list m4 heap"] size [of "oa_list m5 heap"] by blast
    moreover have "oa_max_size_at m5 heap = oa_max_size_at ?m heap" using st5 mx4 by (simp add: index_step_def)
    ultimately show thesis using run True ins ms4 ms5 b4 b5 by (intro that [of m5]) simp_all
  qed
qed

text \<open>Without a hole on the left no header of the index lies in the united hole.\<close>

lemma other_holes:
  assumes inv: "heap_inv s heap (xs @ (n, False) # ys)" and p: "p = heap_start (memory s) heap + of_nat (total xs)"
    and x: "x \<in> set (oa_list (memory s) heap)" "within x 12 c"
  shows "\<not> within p n c"
proof -
  let ?m = "memory s" let ?start = "heap_start ?m heap"
  note b = heap_inv_block [OF inv p]
  have ch: "chain ?m (heap_end ?m heap) ?start (xs @ (n, False) # ys)"
    and idx: "mset (oa_list ?m heap) = mset (holes ?start (xs @ (n, False) # ys))"
    and bound: "unat ?start + total (xs @ (n, False) # ys) < 4294967296"
    using inv by (simp_all add: heap_inv_def heap_shape_def Let_def)
  have ur: "unat (p + of_nat n) = unat p + n" using b(6) by (rule unat_add_of_nat)
  have parts: "chain ?m (heap_end ?m heap) ?start xs" "chain ?m (heap_end ?m heap) (p + of_nat n) ys"
    using ch by (simp_all add: chain_append p add.assoc)
  have "x \<in> set (holes ?start xs) \<or> x \<in> set (holes (p + of_nat n) ys)"
    using x(1) mset_eq_setD [OF idx] by (simp add: holes_append p add.assoc)
  then show ?thesis
  proof
    assume "x \<in> set (holes ?start xs)"
    from holes_within [OF parts(1) _ this x(2)] bound have "within ?start (total xs) c" by simp
    then show ?thesis using b(4,6) bound by (simp add: within_nat)
  next
    assume "x \<in> set (holes (p + of_nat n) ys)"
    from holes_within [OF parts(2) _ this x(2)] b(4) ur bound have "within (p + of_nat n) (total ys) c" by simp
    then show ?thesis using b(4,6) ur bound by (simp add: within_nat)
  qed
qed

lemma freed_chain:
  assumes inv: "heap_inv s heap (xs @ (n, False) # (n2, h) # ys)" and last: "h \<longrightarrow> ys \<noteq> []"
    and p: "p = heap_start (memory s) heap + of_nat (total xs)"
    and edge: "xs \<noteq> [] \<or> ftr_magic (memory s) (p - 8) \<noteq> HEAP_MAGIC"
    and q: "q = heap_start (memory s) heap + of_nat (total (left_rest xs))" and N: "N = left_len xs + n"
    and m3: "m3 = widened q N n2 h (grown q (left_len xs) n (memory s))"
    and eq: "\<forall>c. within (heap_start (memory s) heap) (total (xs @ (n, False) # (n2, h) # ys)) c \<longrightarrow> m' c = m3 c"
  shows "chain (close_footer h q (N + (if h then n2 else 0)) m') (heap_end (memory s) heap) (heap_start (memory s) heap) (freed xs n (n2, h) ys)"
    "h \<Longrightarrow> ftr_header m' (q + of_nat (N + n2) - 8) = q + of_nat N"
    "\<And>c. within (heap_start (memory s) heap) (total (xs @ (n, False) # (n2, h) # ys)) c \<Longrightarrow>
      \<not> within q (N + (if h then n2 else 0)) c \<Longrightarrow> m' c = memory s c"
proof -
  note m' = eq [rule_format]
  let ?m = "memory s" and ?bs = "xs @ (n, False) # (n2, h) # ys" and ?N = "N + (if h then n2 else 0)"
  let ?start = "heap_start ?m heap" and ?e = "heap_end ?m heap" and ?m6 = "close_footer h q ?N m'"
  define m2 where "m2 = grown q (left_len xs) n ?m"
  note fa = free_area [OF inv last p edge q N m2_def]
  have N20: "20 \<le> ?N" and uN: "unat q + ?N < 4294967296" "unat q + N < 4294967296" using fa(1,2) by auto
  have ch: "chain ?m ?e ?start ?bs" and bound: "unat ?start + total ?bs < 4294967296"
    using inv by (simp_all add: heap_inv_def heap_shape_def Let_def)
  note wb = widened_block [OF fa(5,6) refl fa(7,8,2), unfolded m2_def, folded m3]
  have out: "m3 c = ?m c" if "\<not> within q ?N c" for c
  proof -
    have "\<not> within q N c" using that within_mono [of q N c ?N] by auto
    then show ?thesis unfolding m3 using widened_outside [OF fa(1) uN(2)] fa(9) by (simp add: m2_def)
  qed
  show same: "m' c = ?m c" if "within ?start (total ?bs) c" "\<not> within q ?N c" for c
    using m' [OF that(1)] out [OF that(2)] by simp
  show "ftr_header m' (q + of_nat (N + n2) - 8) = q + of_nat N" if h
  proof -
    have "20 \<le> N + n2" using fa(1) by simp
    note o = block_offset_0(5) [OF this, of _ q]
    have "load32 m' (q + of_nat (N + n2 - 4)) = load32 m3 (q + of_nat (N + n2 - 4))"
    proof (rule load32_cong)
      fix c assume "within (q + of_nat (N + n2 - 4)) 4 c"
      then have "within q (N + n2) c" by (rule within_field) (use fa(1,2) in linarith)+
      then show "m' c = m3 c" using that by (intro m' fa(10)) simp
    qed
    then show ?thesis using wb(2) [OF that] by (simp only: o)
  qed
  have blk: "block_at ?m6 ?e q (?N, True)"
  proof (rule block_at_cong [OF wb(1)])
    fix c assume "within q (fst (?N, True)) c"
    then have "m' c = m3 c" by (intro m' fa(10)) simp
    then show "?m6 c = close_footer h q ?N m3 c" by (rule close_footer_cong)
  qed
  obtain ws where ws: "?bs = left_rest xs @ ws @ (if h then ys else (n2, h) # ys)" "total ws = left_len xs + n + (if h then n2 else 0)"
    "freed xs n (n2, h) ys = left_rest xs @ [(total ws, True)] @ (if h then ys else (n2, h) # ys)"
    by (rule freed_grouping)
  have tw: "total ws = ?N" using ws(2) N by simp
  show "chain ?m6 ?e ?start (freed xs n (n2, h) ys)"
    unfolding ws(3)
  proof (rule chain_replace_list [OF ch [unfolded ws(1)] bound [unfolded ws(1)]])
    show "chain ?m6 ?e (?start + of_nat (total (left_rest xs))) [(total ws, True)]" using blk by (simp add: tw q)
    fix c assume c: "within ?start (total (left_rest xs @ ws @ (if h then ys else (n2, h) # ys))) c"
      "\<not> within (?start + of_nat (total (left_rest xs))) (total ws) c"
    then have "\<not> within q ?N c" by (simp add: tw q)
    then show "?m6 c = ?m c" using same [OF c(1) [folded ws(1)]] close_footer_outside [OF N20 uN(1)] by simp
  qed simp
qed

lemma freed_sorted:
  assumes inv: "heap_inv s heap (xs @ (n, False) # (n2, h) # ys)" and last: "h \<longrightarrow> ys \<noteq> []"
    and p: "p = heap_start (memory s) heap + of_nat (total xs)"
    and edge: "xs \<noteq> [] \<or> ftr_magic (memory s) (p - 8) \<noteq> HEAP_MAGIC"
    and q: "q = heap_start (memory s) heap + of_nat (total (left_rest xs))" and N: "N = left_len xs + n"
    and m3: "m3 = widened q N n2 h (grown q (left_len xs) n (memory s))"
    and eq: "\<forall>c. within (heap_start (memory s) heap) (total (xs @ (n, False) # (n2, h) # ys)) c \<longrightarrow> m' c = m3 c"
    and ms: "mset (oa_list m' heap) + (if h then {#q + of_nat N#} else {#})
      = mset (oa_list (memory s) heap) + (if left_len xs = 0 then {#q#} else {#})"
    and l: "left_len xs = 0"
  shows "sorted (map (hdr_size m3) (oa_list (memory s) heap)) = index_sorted s heap"
    "sorted (map (hdr_size m') (oa_list m' heap)) = sorted (map (hdr_size m3) (oa_list m' heap))"
proof -
  let ?m = "memory s" and ?bs = "xs @ (n, False) # (n2, h) # ys" let ?start = "heap_start ?m heap"
  note fa = free_area [OF inv last p edge q N refl] and ln = left_neighbour [OF inv p edge q]
  have ch: "chain ?m (heap_end ?m heap) ?start ?bs" and bound: "unat ?start + total ?bs < 4294967296"
    and idx: "mset (oa_list ?m heap) = mset (holes ?start ?bs)"
    using inv by (simp_all add: heap_inv_def heap_shape_def Let_def)
  show "sorted (map (hdr_size m3) (oa_list ?m heap)) = index_sorted s heap"
    unfolding index_sorted_def
  proof (rule sizes_sorted_cong)
    fix x c assume "x \<in> set (oa_list ?m heap)" "within x 12 c"
    from other_holes [OF inv p this] have "\<not> within q N c" using ln(4) l N by simp
    then show "m3 c = ?m c" unfolding m3 using widened_outside [OF fa(1)] fa(2,9) by simp
  qed
  show "sorted (map (hdr_size m') (oa_list m' heap)) = sorted (map (hdr_size m3) (oa_list m' heap))"
  proof (rule sizes_sorted_cong)
    fix x c assume x: "x \<in> set (oa_list m' heap)" "within x 12 c"
    have "x = q \<or> x \<in> set (oa_list ?m heap)" using arg_cong [OF ms, of set_mset] x(1) l by auto
    then have "x = q \<or> x \<in> set (holes ?start ?bs)" using mset_eq_setD [OF idx] by simp
    moreover have "within ?start (total ?bs) c" if "x = q"
      using fa(10) [of c] within_mono [OF x(2), of "N + (if h then n2 else 0)"] fa(1) that by simp
    ultimately show "m' c = m3 c" using holes_within [OF ch bound _ x(2)] by (intro eq [rule_format]) blast
  qed
qed

lemma freed_holes:
  assumes q: "q = start + of_nat (total (left_rest xs))" and p: "p = start + of_nat (total xs)" and r: "p + of_nat n = q + of_nat N"
    and N: "N = left_len xs + n" and l: "left_len xs = 0 \<longrightarrow> left_rest xs = xs"
  shows "mset (holes start (xs @ (n, False) # (n2, h) # ys)) + (if left_len xs = 0 then {#q#} else {#})
    = mset (holes start (freed xs n (n2, h) ys)) + (if h then {#q + of_nat N#} else {#})"
proof -
  have xs: "mset (holes start xs) + (if left_len xs = 0 then {#q#} else {#}) = add_mset q (mset (holes start (left_rest xs)))"
    using q l by (cases xs rule: rev_cases) (auto simp: left_len_def left_rest_def holes_append)
  have "holes start (xs @ (n, False) # (n2, h) # ys) = holes start xs @ (if h then [q + of_nat N] else []) @ holes (q + of_nat N + of_nat n2) ys"
    by (simp add: holes_append r flip: p)
  moreover have "holes start (freed xs n (n2, h) ys) = holes start (left_rest xs) @ q # holes (q + of_nat N + of_nat n2) ys"
    by (simp add: freed_def holes_append N add.assoc flip: q)
  ultimately show ?thesis using xs by (simp add: ac_simps)
qed

subsection \<open>Freeing a block\<close>

lemma free_block:
  assumes "heap_inv s heap (xs @ (n, False) # (n2, h) # ys)" and "h \<longrightarrow> ys \<noteq> []"
    and "p = heap_start (memory s) heap + of_nat (total xs)" "q = heap_start (memory s) heap + of_nat (total (left_rest xs))"
    and "N = left_len xs + n + (if h then n2 else 0)"
    and "xs \<noteq> [] \<or> ftr_magic (memory s) (p - 8) \<noteq> HEAP_MAGIC"
    and "left_len xs = 0 \<and> \<not> h \<longrightarrow> oa_size_at (memory s) heap < oa_max_size_at (memory s) heap"
  shows "\<exists>m'. free (p + 12) heap s = Some (s\<lparr>memory := m'\<rparr>)
    \<and> heap_inv (s\<lparr>memory := close_footer h q N m'\<rparr>) heap (freed xs n (n2, h) ys)
    \<and> (h \<longrightarrow> ftr_header m' (q + of_nat N - 8) = p + of_nat n)
    \<and> (index_sorted s heap \<longrightarrow> left_len xs = 0 \<longrightarrow> index_sorted (s\<lparr>memory := m'\<rparr>) heap)
    \<and> (\<forall>c. within (heap_start (memory s) heap) (total (xs @ (n, False) # (n2, h) # ys)) c \<longrightarrow> \<not> within q N c \<longrightarrow> m' c = memory s c)
    \<and> (\<forall>c. within (p + 12) (n - 20) c \<longrightarrow> m' c = memory s c) \<and> heap_start m' heap = heap_start (memory s) heap
    \<and> oa_max_size_at m' heap = oa_max_size_at (memory s) heap \<and> unat (oa_size_at m' heap) \<le> Suc (unat (oa_size_at (memory s) heap))"
proof -
  let ?m = "memory s" and ?bs = "xs @ (n, False) # (n2, h) # ys" and ?N0 = "left_len xs + n" let ?start = "heap_start ?m heap"
  define m3 where "m3 = widened q ?N0 n2 h (grown q (left_len xs) n ?m)"
  note inv = assms(1) and last = assms(2) and p = assms(3) and q = assms(4) and edge = assms(6)
  note fa = free_area [OF inv last p edge q refl refl] and ln = left_neighbour [OF inv p edge q]
  obtain m' where run: "free (p + 12) heap s = Some (s\<lparr>memory := m'\<rparr>)" and sh: "heap_shape m' heap (total ?bs)"
    and ends: "heap_start m' heap = ?start" "heap_end m' heap = heap_end ?m heap"
    and area: "\<forall>c. within ?start (total ?bs) c \<longrightarrow> m' c = m3 c"
    and ms: "mset (oa_list m' heap) + (if h then {#q + of_nat ?N0#} else {#}) = mset (oa_list ?m heap) + (if left_len xs = 0 then {#q#} else {#})"
    and so: "sorted (map (hdr_size m3) (oa_list ?m heap)) \<Longrightarrow> sorted (map (hdr_size m3) (oa_list m' heap)) \<or> left_len xs \<noteq> 0"
    and mx: "oa_max_size_at m' heap = oa_max_size_at ?m heap"
    by (rule free_runs [OF inv last p edge q refl assms(7) m3_def]) blast
  note fc = freed_chain [OF inv last p edge q refl m3_def area, folded assms(5)]
  let ?m6 = "close_footer h q N m'"
  have N: "20 \<le> N" "unat q + N < 4294967296" using fa(1,2) assms(5) by auto
  have inN: "within ?start (total ?bs) c" if "within q N c" for c using fa(10) [of c] that assms(5) by simp
  have "?m6 c = m' c" if "\<not> within (heap_start m' heap) (total ?bs) c" for c
    using close_footer_outside [OF N, of c h m'] inN that ends(1) by auto
  note s6 = shape_area [OF sh this]
  have l: "left_len xs = 0 \<longrightarrow> left_rest xs = xs" using ln(4) by blast
  have "mset (oa_list ?m heap) = mset (holes ?start ?bs)" using inv by (simp add: heap_inv_def Let_def)
  then have "mset (oa_list m' heap) = mset (holes ?start (freed xs n (n2, h) ys))"
    using ms freed_holes [OF q p fa(3) refl l, of n2 h ys] by (cases h) simp_all
  then have heap: "heap_inv (s\<lparr>memory := ?m6\<rparr>) heap (freed xs n (n2, h) ys)"
    using s6 fc(1) ends by (simp add: heap_inv_def total_freed Let_def)
  have sorted: "index_sorted (s\<lparr>memory := m'\<rparr>) heap" if "index_sorted s heap" "left_len xs = 0"
    using freed_sorted [OF inv last p edge q refl m3_def area ms that(2)] so that by (simp add: index_sorted_def)
  have size: "unat (oa_size_at m' heap) \<le> Suc (unat (oa_size_at ?m heap))"
    using arg_cong [OF ms, of size] by (auto simp: oa_list_def split: if_splits)
  have data: "m' c = ?m c" if "within (p + 12) (n - 20) c" for c
  proof -
    note b = heap_inv_block [OF inv p]
    have "within p n c" using within_field [of p 12 "n - 20" c n] that b(3,6) by simp
    then have "within ?start (total ?bs) c" using b(4,6) inv by (simp add: within_nat heap_inv_def heap_shape_def Let_def)
    moreover have "m3 c = ?m c" unfolding m3_def
      by (rule united_data [OF b(3) ln(2)]) (use ln(3) that ln(1) in auto)
    ultimately show ?thesis using area by simp
  qed
  show ?thesis
  proof (intro exI [of _ m'] conjI impI allI)
    show "ftr_header m' (q + of_nat N - 8) = p + of_nat n" if h using fc(2) [OF that] fa(3) that assms(5) by simp
    show "m' c = ?m c" if "within ?start (total ?bs) c" "\<not> within q N c" for c by (rule fc(3) [OF that])
  qed (rule run, rule heap, rule sorted, assumption+, rule data, assumption, rule ends(1), rule mx, rule size)
qed

text \<open>The same for a block whose right neighbour is in use: nothing is missing.\<close>

lemma free_in_use:
  assumes inv: "heap_inv s heap (xs @ (n, False) # (n2, False) # ys)" and xs: "xs \<noteq> []"
    and p: "p = heap_start (memory s) heap + of_nat (total xs)" and room: "oa_size_at (memory s) heap < oa_max_size_at (memory s) heap"
  obtains m' where "free (p + 12) heap s = Some (s\<lparr>memory := m'\<rparr>)" "heap_inv (s\<lparr>memory := m'\<rparr>) heap (freed xs n (n2, False) ys)"
    and "\<And>c. within (heap_start (memory s) heap) (total (xs @ (n, False) # (n2, False) # ys)) c \<Longrightarrow>
      \<not> within (heap_start (memory s) heap + of_nat (total (left_rest xs))) (left_len xs + n) c \<Longrightarrow> m' c = memory s c"
    and "heap_start m' heap = heap_start (memory s) heap" "oa_max_size_at m' heap = oa_max_size_at (memory s) heap"
    and "unat (oa_size_at m' heap) \<le> Suc (unat (oa_size_at (memory s) heap))"
proof -
  have "False \<longrightarrow> ys \<noteq> []" "xs \<noteq> [] \<or> ftr_magic (memory s) (p - 8) \<noteq> HEAP_MAGIC"
    "left_len xs = 0 \<and> \<not> False \<longrightarrow> oa_size_at (memory s) heap < oa_max_size_at (memory s) heap" using xs room by simp_all
  from free_block [OF inv this(1) p refl refl this(2,3)] show thesis
    by (elim exE conjE) (rule that, assumption, simp_all add: close_footer_def)
qed

lemma index_size:
  assumes "heap_inv s heap bs"
  shows "unat (oa_size_at (memory s) heap) = length (holes (heap_start (memory s) heap) bs)"
proof -
  have "mset (oa_list (memory s) heap) = mset (holes (heap_start (memory s) heap) bs)" using assms by (simp add: heap_inv_def Let_def)
  from mset_eq_length [OF this] show ?thesis by (simp add: oa_list_def)
qed

text \<open>The kernel's heap with some blocks of 100 bytes.\<close>

lemma filled_heap:
  "k \<le> 1000 \<Longrightarrow> \<exists>s. heap_inv s 0x20000 (replicate k (120, False) @ [(0x80000 - 120 * k, True)]) \<and> heap_start (memory s) 0x20000 = 0xC0080000
     \<and> oa_max_size_at (memory s) 0x20000 = 0x20000"
proof (induction k)
  case 0
  show ?case by (rule kernel_heap_created) (intro exI conjI, simp_all)
next
  case (Suc k)
  let ?n = "0x80000 - 120 * k"
  obtain s where inv: "heap_inv s 0x20000 (replicate k (120, False) @ [(?n, True)])" and st: "heap_start (memory s) 0x20000 = 0xC0080000"
    and mx: "oa_max_size_at (memory s) 0x20000 = 0x20000" using Suc by auto
  have fit: "(?n, True) \<in> set (replicate k (120, False) @ [(?n, True)])" "unat (100 :: u32) + 20 \<le> ?n" using Suc.prems by simp_all
  obtain xs n' ys m' where r: "replicate k (120, False) @ [(?n, True)] = xs @ (n', True) # ys"
    "heap_inv (s\<lparr>memory := m'\<rparr>) 0x20000 (xs @ carve (unat (100 :: u32) + 20) n' @ ys)"
    "oa_max_size_at m' 0x20000 = oa_max_size_at (memory s) 0x20000" "heap_start m' 0x20000 = heap_start (memory s) 0x20000"
    by (rule alloc_fitting_hole [OF inv fit, of 0]) blast
  have "ys = []"
  proof (cases ys rule: rev_cases)
    case (snoc zs z)
    then have "(n', True) \<in> set (replicate k (120 :: nat, False))"
      using r(1) by (metis append_Cons append_assoc butlast_snoc in_set_conv_decomp)
    then show ?thesis by simp
  qed
  then have "xs = replicate k (120, False)" "n' = ?n" using r(1) by auto
  moreover have "\<not> ?n - 120 < 20" "?n - 120 = 0x80000 - 120 * Suc k" using Suc.prems by simp_all
  moreover have "replicate (Suc k) (120 :: nat, False) = replicate k (120, False) @ [(120, False)]" by (simp add: replicate_append_same)
  ultimately show ?case using r(2-4) \<open>ys = []\<close> st mx by (intro exI [of _ "s\<lparr>memory := m'\<rparr>"]) (simp add: carve_def del: replicate.simps)
qed

subsection \<open>Properties\<close>

text \<open>C3: Freeing an allocated block away from the end of the heap makes it a hole, united with a hole on its left and
  one on its right, and enters the new hole into the index or takes the swallowed one out, keeping the order
  of the index unless the hole on the left grew in place. What is left is a well-formed heap, but for one word: when
  the right neighbour was a hole, the footer of the united hole still names the swallowed header. Nothing else in the
  heap changes.\<close>

theorem free_unifies_holes:
  assumes "heap_inv s heap (xs @ (n, False) # (n2, h) # ys)" and "h \<longrightarrow> ys \<noteq> []"
    and "p = heap_start (memory s) heap + of_nat (total xs)" "q = heap_start (memory s) heap + of_nat (total (left_rest xs))"
    and "N = left_len xs + n + (if h then n2 else 0)"
    and "xs \<noteq> [] \<or> ftr_magic (memory s) (p - 8) \<noteq> HEAP_MAGIC"
    and "left_len xs = 0 \<and> \<not> h \<longrightarrow> oa_size_at (memory s) heap < oa_max_size_at (memory s) heap"
  shows "\<exists>m'. free (p + 12) heap s = Some (s\<lparr>memory := m'\<rparr>)
    \<and> heap_inv (s\<lparr>memory := close_footer h q N m'\<rparr>) heap (freed xs n (n2, h) ys)
    \<and> (h \<longrightarrow> ftr_header m' (q + of_nat N - 8) = p + of_nat n)
    \<and> (index_sorted s heap \<longrightarrow> left_len xs = 0 \<longrightarrow> index_sorted (s\<lparr>memory := m'\<rparr>) heap)
    \<and> (\<forall>c. within (heap_start (memory s) heap) (total (xs @ (n, False) # (n2, h) # ys)) c \<longrightarrow> \<not> within q N c \<longrightarrow> m' c = memory s c)"
  using free_block [OF assms] by (elim ex_forward) (elim conjE, intro conjI; assumption)

theorem free_unifies_holes_witness:
  "\<exists>s m'. heap_inv s 0x20000 [(120, False), (120, True), (120, False), (120, True), (120, False), (0x80000 - 600, True)]
    \<and> free (heap_start (memory s) 0x20000 + 252) 0x20000 s = Some (s\<lparr>memory := m'\<rparr>)
    \<and> heap_inv (s\<lparr>memory := close_footer True (heap_start (memory s) 0x20000 + 120) 360 m'\<rparr>) 0x20000
        [(120, False), (360, True), (120, False), (0x80000 - 600, True)]"
proof -
  obtain s0 where s0: "heap_inv s0 0x20000 ([(120, False)] @ (120, False) # (120, False) # [(120, False), (120, False), (0x80000 - 600, True)])"
    "oa_max_size_at (memory s0) 0x20000 = 0x20000"
  proof -
    have "replicate 5 x = [x, x, x, x, x]" for x :: block by (simp add: eval_nat_numeral)
    then have "replicate 5 (120, False) @ [(0x80000 - 120 * 5 :: nat, True)]
      = [(120, False)] @ (120, False) # (120, False) # [(120, False), (120, False), (0x80000 - 600, True)]" by simp
    then show thesis using filled_heap [of 5] that by simp blast
  qed
  have room: "oa_size_at (memory s) 0x20000 < oa_max_size_at (memory s) 0x20000"
    if "heap_inv s 0x20000 bs" "oa_max_size_at (memory s) 0x20000 = 0x20000" "length (holes (heap_start (memory s) 0x20000) bs) < 10" for s bs
  proof -
    have "unat (oa_size_at (memory s) 0x20000) < 10" using index_size [OF that(1)] that(3) by simp
    moreover have "unat (oa_max_size_at (memory s) 0x20000) = 0x20000" using that(2) by simp
    ultimately show ?thesis unfolding word_less_nat_alt by linarith
  qed
  have e1: "freed [(120, False)] 120 (120, False) [(120, False), (120, False), (0x80000 - 600, True)]
      = [(120, False), (120, True), (120, False)] @ (120, False) # (120, False) # [(0x80000 - 600, True)]"
    and e2: "freed [(120, False), (120, True), (120, False)] 120 (120, False) [(0x80000 - 600, True)]
      = [(120, False), (120, True)] @ (120, False) # (120, True) # [(120, False), (0x80000 - 600, True)]"
    by (simp_all add: freed_def left_len_def left_rest_def)
  obtain m1 where m1: "heap_inv (s0\<lparr>memory := m1\<rparr>) 0x20000 ([(120, False), (120, True), (120, False)] @ (120, False) # (120, False) # [(0x80000 - 600, True)])"
    "oa_max_size_at m1 0x20000 = 0x20000"
    by (rule free_in_use [OF s0(1) _ refl room [OF s0], unfolded e1]) (use s0(2) in simp_all)
  obtain m2 where m2: "heap_inv (s0\<lparr>memory := m2\<rparr>) 0x20000 ([(120, False), (120, True)] @ (120, False) # (120, True) # [(120, False), (0x80000 - 600, True)])"
    by (rule free_in_use [OF m1(1) _ refl room [OF m1(1)], unfolded e2]) (use m1(2) in simp_all)
  show ?thesis
    using free_unifies_holes [OF m2(1) _ refl refl refl] m2(1)
    by (intro exI [of _ "s0\<lparr>memory := m2\<rparr>"]) (simp add: freed_def left_len_def left_rest_def add.assoc; blast)
qed

end
