(* ===== verification/Block_Source.thy ===== *)
theory Block_Source
  imports Kernel_Heap
begin

text \<open>
  The contract of an allocator, for the components that build structures in the memory they
  get from \<open>kmalloc\<close>. \<open>ready n used s\<close> says that \<open>n\<close> more bytes can be handed out, where 40
  bytes are reckoned for each block, and that the bytes in \<open>used\<close> belong to somebody else: a
  block consists of unused bytes that are zero, and an allocation leaves the used bytes alone.
\<close>

locale block_source =
  fixes mk :: "u32 \<Rightarrow> kstate \<Rightarrow> (u32 \<times> kstate) option"
    and ready :: "nat \<Rightarrow> (u32 \<Rightarrow> bool) \<Rightarrow> kstate \<Rightarrow> bool"
  assumes gives: "ready n used s \<Longrightarrow> unat sz + 40 \<le> n \<Longrightarrow>
      \<exists>a s'. mk sz s = Some (a, s') \<and> unat a + unat sz < 4294967296
        \<and> (\<forall>x. within a (unat sz) x \<longrightarrow> \<not> used x \<and> memory s' x = 0)
        \<and> (\<forall>x. used x \<longrightarrow> memory s' x = memory s x)
        \<and> ready (n - (unat sz + 40)) (\<lambda>x. used x \<or> within a (unat sz) x) s'"
    and keeps: "ready n used s \<Longrightarrow> (\<And>x. \<not> used x \<Longrightarrow> m x = memory s x) \<Longrightarrow> ready n used (s\<lparr>memory := m\<rparr>)"

subsection \<open>Before the heap exists\<close>

definition early_ready :: "nat \<Rightarrow> (u32 \<Rightarrow> bool) \<Rightarrow> kstate \<Rightarrow> bool" where
  "early_ready n used s \<longleftrightarrow> kheap s = 0 \<and> unat (free_mem_addr s) + n < 4294967296
     \<and> (\<forall>x. within (free_mem_addr s) n x \<longrightarrow> \<not> used x \<and> memory s x = 0)"

interpretation early: block_source "kmalloc fuel" early_ready for fuel
proof (unfold_locales, goal_cases)
  case (1 n used s sz)
  let ?a = "free_mem_addr s"
  have n: "unat ?a + n < 4294967296" "kheap s = 0" using 1(1) by (simp_all add: early_ready_def)
  have fr: "unat (?a + sz) = unat ?a + unat sz" using n 1(2) by (intro unat_add_nowrap) simp
  have "kmalloc fuel sz s = Some (?a, s\<lparr>free_mem_addr := ?a + sz\<rparr>)"
    using n(2) by (simp add: kmalloc_def kmalloc_int_def kmalloc_int_with_def Let_def)
  moreover have "\<not> used x \<and> memory s x = 0" if "within ?a (unat sz) x" for x
    using within_mono [OF that, of n] 1 by (simp add: early_ready_def)
  moreover have "early_ready (n - (unat sz + 40)) (\<lambda>x. used x \<or> within ?a (unat sz) x) (s\<lparr>free_mem_addr := ?a + sz\<rparr>)"
    using 1 n fr by (auto simp: early_ready_def within_nat)
  ultimately show ?case using n 1(2) by (intro exI [of _ ?a] exI [of _ "s\<lparr>free_mem_addr := ?a + sz\<rparr>"]) auto
next
  case (2 n used s m)
  then show ?case by (simp add: early_ready_def)
qed

end
