(* ===== verification/Heap_Source.thy ===== *)
theory Heap_Source
  imports Heap_Alloc Block_Source
begin

text \<open>
  The kernel heap fulfils the contract of \<open>Block_Source\<close>: as long as a hole is large enough,
  \<open>kmalloc\<close> hands out zero bytes that nobody uses, and leaves alone whatever lies in
  allocated blocks or outside the heap. What the heap keeps for itself are its structure, its
  index, the headers and footers, and the holes.
\<close>

subsection \<open>The bytes the heap owns\<close>

fun chain_own :: "u32 \<Rightarrow> block list \<Rightarrow> u32 \<Rightarrow> bool" where
  "chain_own a [] c = False"
| "chain_own a ((n, h) # bs) c = (within a 12 c \<or> within (a + of_nat n - 8) 8 c \<or> h \<and> within a n c
     \<or> chain_own (a + of_nat n) bs c)"

fun zeroed :: "mem \<Rightarrow> u32 \<Rightarrow> block list \<Rightarrow> bool" where
  "zeroed m a [] = True"
| "zeroed m a ((n, h) # bs) = ((h \<longrightarrow> (\<forall>c. within (a + 12) (n - 20) c \<longrightarrow> m c = 0)) \<and> zeroed m (a + of_nat n) bs)"

definition heap_own :: "mem \<Rightarrow> u32 \<Rightarrow> block list \<Rightarrow> u32 \<Rightarrow> bool" where
  "heap_own m heap bs c \<longleftrightarrow> within heap 32 c
     \<or> within (oa_array_at m heap) (4 * unat (oa_max_size_at m heap)) c \<or> chain_own (heap_start m heap) bs c"

definition heap_ready :: "nat \<Rightarrow> (u32 \<Rightarrow> bool) \<Rightarrow> kstate \<Rightarrow> bool" where
  "heap_ready b used s \<longleftrightarrow> kheap s \<noteq> 0 \<and> (\<exists>bs. heap_inv s (kheap s) bs
     \<and> zeroed (memory s) (heap_start (memory s) (kheap s)) bs \<and> (b = 0 \<or> (\<exists>n. (n, True) \<in> set bs \<and> b \<le> n))
     \<and> (\<forall>c. used c \<longrightarrow> \<not> heap_own (memory s) (kheap s) bs c))"

lemma chain_own_append:
  "chain_own a (xs @ ys) c \<longleftrightarrow> chain_own a xs c \<or> chain_own (a + of_nat (total xs)) ys c"
  by (induction xs arbitrary: a) (auto simp: add.assoc)

lemma zeroed_append: "zeroed m a (xs @ ys) \<longleftrightarrow> zeroed m a xs \<and> zeroed m (a + of_nat (total xs)) ys"
  by (induction xs arbitrary: a) (auto simp: add.assoc)

lemma block_own_within:
  assumes "20 \<le> n" "unat (a::u32) + n < 4294967296"
  shows "within a 12 c \<Longrightarrow> within a n c" "within (a + of_nat n - 8) 8 c \<Longrightarrow> within a n c"
    "within (a + 12) (n - 20) c \<Longrightarrow> within a n c"
proof -
  have sub: "within a n c" if "within (a + of_nat k) w c" "k + w \<le> n" for k w
    using within_split [of k w a c] that assms by (auto intro: within_mono)
  show "within a 12 c \<Longrightarrow> within a n c" using sub [of 0 12] assms(1) by simp
  show "within (a + of_nat n - 8) 8 c \<Longrightarrow> within a n c"
    using sub [of "n - 8" 8] assms(1) by (simp add: of_nat_diff add_diff_eq)
  show "within (a + 12) (n - 20) c \<Longrightarrow> within a n c" using sub [of 12 "n - 20"] assms(1) by simp
qed

lemma chain_own_area:
  "chain m e a bs \<Longrightarrow> unat a + total bs < 4294967296 \<Longrightarrow> chain_own a bs c \<Longrightarrow> within a (total bs) c"
proof (induction bs arbitrary: a)
  case (Cons b bs)
  obtain n h where b: "b = (n, h)" by fastforce
  have n: "20 \<le> n" "unat a + n < 4294967296" "unat (a + of_nat n) = unat a + n"
    using block_atD [of m e a n h] Cons.prems(1) unat_add_of_nat [of a n] by (simp_all add: b)
  have "within a n c \<or> within (a + of_nat n) (total bs) c"
    using Cons.IH [of "a + of_nat n"] Cons.prems n block_own_within [OF n(1,2)] by (auto simp: b)
  then show ?case using within_split [of n "total bs" a c] Cons.prems(2) by (auto simp: b)
qed simp

text \<open>The blocks, the zero bytes and the index depend on the owned bytes only.\<close>

lemma block_own_cong:
  assumes b: "block_at m e a (n, h)" and eq: "\<And>c. within a 12 c \<or> within (a + of_nat n - 8) 8 c \<Longrightarrow> m' c = m c"
  shows "block_at m' e a (n, h)"
proof -
  have "ftr_magic m' (a + of_nat n - 8) = ftr_magic m (a + of_nat n - 8)"
    "ftr_header m' (a + of_nat n - 8) = ftr_header m (a + of_nat n - 8)"
    unfolding ftr_magic_def ftr_header_def
    by (auto intro!: load32_cong eq simp: within_8)
  then show ?thesis
    using b header_cong [of a m' m] eq by (simp add: block_at_def footer_at_def)
qed

lemma chain_own_cong:
  "chain m e a bs \<Longrightarrow> (\<And>c. chain_own a bs c \<Longrightarrow> m' c = m c) \<Longrightarrow> chain m' e a bs"
proof (induction bs arbitrary: a)
  case (Cons b bs)
  obtain n h where b: "b = (n, h)" by fastforce
  have "block_at m' e a (n, h)"
    by (rule block_own_cong [of m]) (use Cons.prems in \<open>auto simp: b\<close>)
  moreover have "chain m' e (a + of_nat n) bs" using Cons.prems by (intro Cons.IH) (auto simp: b)
  ultimately show ?case by (simp add: b)
qed simp

lemma zeroed_cong:
  "chain m e a bs \<Longrightarrow> zeroed m a bs \<Longrightarrow> (\<And>c. chain_own a bs c \<Longrightarrow> m' c = m c) \<Longrightarrow> zeroed m' a bs"
proof (induction bs arbitrary: a)
  case (Cons b bs)
  obtain n h where b: "b = (n, h)" by fastforce
  note n = block_atD(1,2) [of m e a n h]
  have "m' c = 0" if h "within (a + 12) (n - 20) c" for c
  proof -
    have "within a n c" using block_own_within(3) [OF n] Cons.prems(1) that by (simp add: b)
    then show ?thesis using Cons.prems(2,3) that by (simp add: b)
  qed
  moreover have "zeroed m' (a + of_nat n) bs" using Cons.prems by (intro Cons.IH) (auto simp: b)
  ultimately show ?case by (simp add: b)
qed simp

lemma heap_own_cong:
  assumes inv: "heap_inv s heap bs" and eq: "\<And>c. heap_own (memory s) heap bs c \<Longrightarrow> m' c = memory s c"
  shows "heap_inv (s\<lparr>memory := m'\<rparr>) heap bs" "heap_start m' heap = heap_start (memory s) heap"
    "heap_own m' heap bs = heap_own (memory s) heap bs"
    "oa_size_at m' heap = oa_size_at (memory s) heap" "oa_max_size_at m' heap = oa_max_size_at (memory s) heap"
proof -
  let ?m = "memory s"
  have w: "load32 m' (heap + of_nat k) = load32 ?m (heap + of_nat k)" if "k \<le> 28" for k
  proof (rule load32_cong)
    fix c assume "within (heap + of_nat k) 4 c"
    then have "within heap 32 c" using within_split [of k 4 heap c] that by (auto intro: within_mono)
    then show "m' c = ?m c" by (intro eq) (simp add: heap_own_def)
  qed
  have oa: "oa_array_at m' heap = oa_array_at ?m heap" "oa_size_at m' heap = oa_size_at ?m heap"
    "oa_max_size_at m' heap = oa_max_size_at ?m heap" "oa_less_than_at m' heap = oa_less_than_at ?m heap"
    "heap_end m' heap = heap_end ?m heap"
    using w [of 0] w [of 4] w [of 8] w [of 12] w [of 20]
    by (simp_all add: oa_array_at_def oa_size_at_def oa_max_size_at_def oa_less_than_at_def heap_end_def)
  show st: "heap_start m' heap = heap_start ?m heap" using w [of 16] by (simp add: heap_start_def)
  show "oa_size_at m' heap = oa_size_at ?m heap" "oa_max_size_at m' heap = oa_max_size_at ?m heap" by (fact oa)+
  show "heap_own m' heap bs = heap_own ?m heap bs" by (simp add: fun_eq_iff heap_own_def oa st)
  have sh: "heap_shape ?m heap (total bs)" and ch: "chain ?m (heap_end ?m heap) (heap_start ?m heap) bs"
    using inv by (simp_all add: heap_inv_def Let_def)
  have "chain m' (heap_end ?m heap) (heap_start ?m heap) bs"
    by (rule chain_own_cong [OF ch]) (use eq in \<open>simp add: heap_own_def\<close>)
  moreover have "oa_list m' heap = oa_list ?m heap"
  proof -
    have ok: "unat (oa_size_at ?m heap) \<le> unat (oa_max_size_at ?m heap)"
      "unat (oa_array_at ?m heap) + 4 * unat (oa_max_size_at ?m heap) \<le> 4294967296"
      using sh by (simp_all add: heap_shape_def oa_ok_def oa_layout_def Let_def)
    have "array_list ?m (oa_array_at ?m heap) (unat (oa_size_at ?m heap))
        = array_list m' (oa_array_at ?m heap) (unat (oa_size_at ?m heap))"
    proof (rule array_list_cong)
      fix c assume "within (oa_array_at ?m heap) (4 * unat (oa_size_at ?m heap)) c"
      then have "within (oa_array_at ?m heap) (4 * unat (oa_max_size_at ?m heap)) c"
        by (rule within_mono) (use ok in simp)
      then show "?m c = m' c" using eq [of c] by (simp add: heap_own_def)
    qed (use ok in linarith)
    then show ?thesis by (simp add: oa_list_def oa)
  qed
  ultimately show "heap_inv (s\<lparr>memory := m'\<rparr>) heap bs"
    using inv by (simp add: heap_inv_def heap_shape_def oa_ok_def oa_layout_def Let_def oa st)
qed

text \<open>The block that is carved off, and the hole that remains.\<close>

lemma carve_own_within:
  assumes "20 \<le> k" "k \<le> n" "unat (p::u32) + n < 4294967296"
  shows "carve_own p k n c \<Longrightarrow> within p n c" "chain_own p (carve k n) c \<Longrightarrow> within p n c"
    "within (p + 12) (k - 20) c \<Longrightarrow> \<not> carve_own p k n c \<and> \<not> chain_own p (carve k n) c \<and> within p n c"
    "20 \<le> n - k \<Longrightarrow> within (p + of_nat k + 12) (n - k - 20) c \<Longrightarrow> within (p + 12) (n - 20) c \<and> \<not> carve_own p k n c"
proof -
  have o: "p + of_nat k - 8 = p + of_nat (k - 8)" "p + of_nat n - 8 = p + of_nat (n - 8)"
    using assms by (simp_all add: of_nat_diff add_diff_eq)
  have u: "unat (p + of_nat k) = unat p + k" "unat (p + of_nat (k - 8)) = unat p + (k - 8)"
    "unat (p + of_nat (n - 8)) = unat p + (n - 8)"
    by (rule unat_add_of_nat, use assms in linarith)+
  have u12: "unat (p + 12) = unat p + 12" using assms unat_add_of_nat [of p 12] by simp
  have u2: "unat (p + of_nat k + 12) = unat p + k + 12" if "20 \<le> n - k"
    using that assms u(1) unat_add_of_nat [of "p + of_nat k" 12] by simp
  have split: "p + of_nat k + of_nat (n - k) = p + of_nat n" using assms(2) by simp
  have e: "within (p + of_nat k - 8) 8 c \<longleftrightarrow> unat p + k \<le> unat c + 8 \<and> unat c < unat p + k"
    "within (p + of_nat n - 8) 8 c \<longleftrightarrow> unat p + n \<le> unat c + 8 \<and> unat c < unat p + n"
    "within p 12 c \<longleftrightarrow> unat p \<le> unat c \<and> unat c < unat p + 12"
    "within p n c \<longleftrightarrow> unat p \<le> unat c \<and> unat c < unat p + n"
    "within (p + 12) (k - 20) c \<longleftrightarrow> unat p + 12 \<le> unat c \<and> unat c + 8 < unat p + k"
    "within (p + 12) (n - 20) c \<longleftrightarrow> unat p + 12 \<le> unat c \<and> unat c + 8 < unat p + n"
    unfolding o by (subst within_nat; use u u12 assms in linarith)+
  have e2: "within (p + of_nat k) 12 c \<longleftrightarrow> unat p + k \<le> unat c \<and> unat c < unat p + k + 12"
    "within (p + of_nat k + 12) (n - k - 20) c \<longleftrightarrow> unat p + k + 12 \<le> unat c \<and> unat c + 8 < unat p + n"
    if "20 \<le> n - k"
    by (subst within_nat; use u u2 that assms in linarith)+
  have e3: "within (p + of_nat k) (n - k) c \<longleftrightarrow> unat p + k \<le> unat c \<and> unat c < unat p + n"
    by (subst within_nat; use u assms in linarith)
  have cv: "20 \<le> n - k \<Longrightarrow> carve k n = [(k, False), (n - k, True)]" "\<not> 20 \<le> n - k \<Longrightarrow> carve k n = [(n, False)]"
    by (simp_all add: carve_def)
  show "carve_own p k n c \<Longrightarrow> within p n c" using assms unfolding carve_own_def e by (auto simp only: e2)
  show "chain_own p (carve k n) c \<Longrightarrow> within p n c"
    using assms by (cases "20 \<le> n - k") (auto simp only: cv not_False_eq_True chain_own.simps split e e2 e3)
  show "within (p + 12) (k - 20) c \<Longrightarrow> \<not> carve_own p k n c \<and> \<not> chain_own p (carve k n) c \<and> within p n c"
    using assms unfolding carve_own_def
    by (cases "20 \<le> n - k") (auto simp only: cv not_False_eq_True chain_own.simps split e e2 e3)
  show "20 \<le> n - k \<Longrightarrow> within (p + of_nat k + 12) (n - k - 20) c \<Longrightarrow> within (p + 12) (n - 20) c \<and> \<not> carve_own p k n c"
    using assms unfolding carve_own_def by (auto simp only: e e2)
qed

text \<open>The heap \<open>m'\<close> in which \<open>k\<close> bytes were carved off a hole, against the heap before.\<close>

lemma carved_bytes:
  assumes inv: "heap_inv s h (xs @ (n, True) # ys)" and p: "p = heap_start (memory s) h + of_nat (total xs)" and k: "20 \<le> k" "k \<le> n"
  shows "within p n c \<Longrightarrow> within (heap_start (memory s) h) (total (xs @ (n, True) # ys)) c"
    "within (heap_start (memory s) h) (total (xs @ (n, True) # ys)) c \<Longrightarrow> \<not> index_byte (memory s) h c \<and> \<not> within h 32 c
       \<and> \<not> within (oa_array_at (memory s) h) (4 * unat (oa_max_size_at (memory s) h)) c"
    "chain_own (heap_start (memory s) h) xs c \<or> chain_own (p + of_nat n) ys c \<Longrightarrow>
       \<not> within p n c \<and> within (heap_start (memory s) h) (total (xs @ (n, True) # ys)) c"
    "index_byte (memory s) h c \<or> carve_own p k n c \<Longrightarrow> heap_own (memory s) h (xs @ (n, True) # ys) c \<or> within p n c"
    "within (p + 12) (k - 20) c \<Longrightarrow> within p n c \<and> \<not> carve_own p k n c \<and> \<not> chain_own p (carve k n) c \<and> within (p + 12) (n - 20) c"
proof -
  let ?m = "memory s" and ?bs = "xs @ (n, True) # ys" let ?start = "heap_start ?m h"
  note hole = heap_inv_hole [OF inv p] and cw = carve_own_within [OF k heap_inv_hole(6) [OF inv p]]
  have shape: "heap_shape ?m h (total ?bs)" and ch: "chain ?m (heap_end ?m h) ?start ?bs" and bound: "unat ?start + total ?bs < 4294967296"
    using inv by (simp_all add: heap_inv_def heap_shape_def Let_def)
  have parts: "chain ?m (heap_end ?m h) ?start xs" "chain ?m (heap_end ?m h) (p + of_nat n) ys"
    using ch by (simp_all add: chain_append p)
  have pn: "unat (p + of_nat n) = unat p + n" using hole(6) by (rule unat_add_of_nat)
  show "within p n c \<Longrightarrow> within ?start (total ?bs) c" using hole(4,6) bound by (simp add: within_nat)
  show "within ?start (total ?bs) c \<Longrightarrow> \<not> index_byte ?m h c \<and> \<not> within h 32 c
       \<and> \<not> within (oa_array_at ?m h) (4 * unat (oa_max_size_at ?m h)) c"
    using shape struct_fields_within(3) [of h c] by (auto simp: heap_shape_def index_byte_def apart_iff Let_def)
  show "\<not> within p n c \<and> within ?start (total ?bs) c" if "chain_own ?start xs c \<or> chain_own (p + of_nat n) ys c"
    using that chain_own_area [OF parts(1), of c] chain_own_area [OF parts(2), of c] bound hole(4,6) pn
    by (auto simp: within_nat)
  show "index_byte ?m h c \<or> carve_own p k n c \<Longrightarrow> heap_own ?m h ?bs c \<or> within p n c"
    using struct_fields_within(3) [of h c] cw(1) by (auto simp: heap_own_def index_byte_def)
  show "within (p + 12) (k - 20) c \<Longrightarrow> within p n c \<and> \<not> carve_own p k n c \<and> \<not> chain_own p (carve k n) c \<and> within (p + 12) (n - 20) c"
    using cw(3) [of c] within_mono [of "p + 12" "k - 20" c "n - 20"] k by simp
qed

lemma carved_zeroed:
  assumes inv: "heap_inv s h (xs @ (n, True) # ys)" and p: "p = heap_start (memory s) h + of_nat (total xs)" and k: "20 \<le> k" "k \<le> n"
    and z: "zeroed (memory s) (heap_start (memory s) h) (xs @ (n, True) # ys)"
    and fr: "\<forall>c. index_byte (memory s) h c \<or> carve_own p k n c \<or> m' c = memory s c"
  shows "zeroed m' (heap_start (memory s) h) (xs @ carve k n @ ys)" "within (p + 12) (k - 20) c \<Longrightarrow> m' c = 0"
proof -
  let ?m = "memory s" and ?bs = "xs @ (n, True) # ys" let ?start = "heap_start ?m h"
  note hole = heap_inv_hole [OF inv p] and cb = carved_bytes [OF inv p k] and cw = carve_own_within [OF k heap_inv_hole(6) [OF inv p]]
  have parts: "chain ?m (heap_end ?m h) ?start xs" "chain ?m (heap_end ?m h) (p + of_nat n) ys"
    and zp: "zeroed ?m ?start xs" "\<And>c. within (p + 12) (n - 20) c \<Longrightarrow> ?m c = 0" "zeroed ?m (p + of_nat n) ys"
    using inv z by (simp_all add: heap_inv_def chain_append zeroed_append p Let_def)
  have same: "m' c = ?m c" if "within ?start (total ?bs) c" "\<not> carve_own p k n c" for c
    using fr cb(2) that by blast
  have "m' c = ?m c" if "chain_own ?start xs c \<or> chain_own (p + of_nat n) ys c" for c
    using same [of c] cb(3) [OF that] cw(1) by blast
  then have "zeroed m' ?start xs" "zeroed m' (p + of_nat n) ys"
    using zeroed_cong [OF parts(1) zp(1), of m'] zeroed_cong [OF parts(2) zp(3), of m'] by blast+
  moreover have "zeroed m' p (carve k n)"
  proof (cases "n - k < 20")
    case False
    have "m' c = 0" if "within (p + of_nat k + 12) (n - k - 20) c" for c
    proof -
      have c: "within (p + 12) (n - 20) c" "\<not> carve_own p k n c" using cw(4) False that by auto
      then have "within p n c" using block_own_within(3) [OF hole(3,6)] by blast
      then show ?thesis using same [OF cb(1)] c zp(2) by simp
    qed
    then show ?thesis using False by (simp add: carve_def)
  qed (simp add: carve_def)
  ultimately show "zeroed m' ?start (xs @ carve k n @ ys)" using k by (simp add: zeroed_append total_carve p add.assoc)
  show "m' c = 0" if "within (p + 12) (k - 20) c" using cb(5) [OF that] same [OF cb(1)] zp(2) by simp
qed

subsection \<open>The contract\<close>

lemma heap_gives:
  assumes rd: "heap_ready b used s" and sz: "unat sz + 40 \<le> b"
  shows "\<exists>a s'. kmalloc (Suc fuel) sz s = Some (a, s') \<and> unat a + unat sz < 4294967296
    \<and> (\<forall>x. within a (unat sz) x \<longrightarrow> \<not> used x \<and> memory s' x = 0)
    \<and> (\<forall>x. used x \<longrightarrow> memory s' x = memory s x)
    \<and> heap_ready (b - (unat sz + 40)) (\<lambda>x. used x \<or> within a (unat sz) x) s'"
proof -
  let ?h = "kheap s" and ?m = "memory s" and ?k = "unat sz + 20" let ?start = "heap_start ?m ?h"
  obtain bs n0 where kh: "?h \<noteq> 0" and inv: "heap_inv s ?h bs" and z: "zeroed ?m ?start bs"
    and n0: "(n0, True) \<in> set bs" "b \<le> n0" and own: "\<And>c. used c \<Longrightarrow> \<not> heap_own ?m ?h bs c"
    using rd sz by (auto simp: heap_ready_def)
  have "?k \<le> n0" using sz n0 by simp
  from alloc_fitting_hole [OF inv n0(1) this, of fuel]
  obtain xs n ys p m' where bs: "bs = xs @ (n, True) # ys" and k: "20 \<le> ?k" "?k \<le> n" and p: "p = ?start + of_nat (total xs)"
    and run: "alloc (Suc fuel) sz 0 ?h s = Some (p + 12, s\<lparr>memory := m'\<rparr>)"
    and inv': "heap_inv (s\<lparr>memory := m'\<rparr>) ?h (xs @ carve ?k n @ ys)"
    and fr: "\<forall>c. index_byte ?m ?h c \<or> carve_own p ?k n c \<or> m' c = ?m c"
    and fields: "oa_array_at m' ?h = oa_array_at ?m ?h" "oa_max_size_at m' ?h = oa_max_size_at ?m ?h" "heap_start m' ?h = ?start"
    by (metis le_add2)
  note hole = heap_inv_hole [OF inv [unfolded bs] p] and cb = carved_bytes [OF inv [unfolded bs] p k]
    and cz = carved_zeroed [OF inv [unfolded bs] p k z [unfolded bs] fr]
  have own_new: "heap_own m' ?h (xs @ carve ?k n @ ys) c \<longleftrightarrow> within ?h 32 c
      \<or> within (oa_array_at ?m ?h) (4 * unat (oa_max_size_at ?m ?h)) c
      \<or> chain_own ?start xs c \<or> chain_own p (carve ?k n) c \<or> chain_own (p + of_nat n) ys c" for c
    using k by (simp add: heap_own_def fields chain_own_append total_carve p add.assoc)
  have own_old: "heap_own ?m ?h bs c" if "within p n c" for c
    using that by (simp add: heap_own_def bs chain_own_append p)
  have "b - (unat sz + 40) = 0 \<or> (\<exists>n1. (n1, True) \<in> set (xs @ carve ?k n @ ys) \<and> b - (unat sz + 40) \<le> n1)"
  proof (cases "(n0, True) \<in> set xs \<union> set ys")
    case True
    then show ?thesis using n0(2) by (intro disjI2 exI [of _ n0]) auto
  next
    case False
    then have "n0 = n" using n0(1) bs by auto
    then show ?thesis using n0(2) by (cases "n - ?k < 20") (auto simp: carve_def intro!: exI [of _ "n - ?k"])
  qed
  moreover have "\<not> heap_own m' ?h (xs @ carve ?k n @ ys) c" if "used c \<or> within (p + 12) (unat sz) c" for c
    using that
  proof
    assume "used c"
    then show ?thesis unfolding own_new using own [of c] own_old [of c] carve_own_within(2) [OF k hole(6)]
      by (auto simp: heap_own_def bs chain_own_append p)
  next
    assume "within (p + 12) (unat sz) c"
    then have pc: "within p n c \<and> \<not> carve_own p ?k n c \<and> \<not> chain_own p (carve ?k n) c" using cb(5) [of c] by simp
    then show ?thesis unfolding own_new using cb(2) [OF cb(1)] cb(3) [of c] by blast
  qed
  ultimately have ready': "heap_ready (b - (unat sz + 40)) (\<lambda>x. used x \<or> within (p + 12) (unat sz) x) (s\<lparr>memory := m'\<rparr>)"
    unfolding heap_ready_def using kh inv' cz(1) by (intro conjI exI [of _ "xs @ carve ?k n @ ys"]) (simp_all add: fields)
  have "kmalloc (Suc fuel) sz s = Some (p + 12, s\<lparr>memory := m'\<rparr>)"
    using kh run by (simp add: kmalloc_def kmalloc_int_def kmalloc_int_with_def del: alloc.simps)
  moreover have "\<not> used x \<and> m' x = 0" if "within (p + 12) (unat sz) x" for x
    using cb(5) [of x] cz(2) [of x] own own_old that by auto
  moreover have "m' x = ?m x" if "used x" for x
    using fr own [OF that] own_old [of x] cb(4) [of x, folded bs] by blast
  moreover have "unat (p + 12) + unat sz < 4294967296"
    using hole(6) k unat_add_of_nat [of p 12] by simp
  ultimately show ?thesis using ready' by (intro exI [of _ "p + 12"] exI [of _ "s\<lparr>memory := m'\<rparr>"]) simp
qed

interpretation heap: block_source "kmalloc (Suc fuel)" heap_ready for fuel
proof (unfold_locales, goal_cases)
  case (1 n used s sz)
  then show ?case by (rule heap_gives)
next
  case (2 n used s m)
  then obtain bs where bs: "kheap s \<noteq> 0" "heap_inv s (kheap s) bs"
    "zeroed (memory s) (heap_start (memory s) (kheap s)) bs" "n = 0 \<or> (\<exists>n0. (n0, True) \<in> set bs \<and> n \<le> n0)"
    "\<And>c. used c \<Longrightarrow> \<not> heap_own (memory s) (kheap s) bs c"
    by (auto simp: heap_ready_def)
  have eq: "m c = memory s c" if "heap_own (memory s) (kheap s) bs c" for c using 2(2) bs(5) that by blast
  note cong = heap_own_cong [OF bs(2), of m, OF eq]
  have "zeroed m (heap_start (memory s) (kheap s)) bs"
    by (rule zeroed_cong [OF _ bs(3)]) (use bs(2) eq in \<open>auto simp: heap_inv_def heap_own_def Let_def\<close>)
  then show ?case using bs cong by (auto simp: heap_ready_def)
qed

subsection \<open>Properties\<close>

text \<open>C2: While the kernel heap has a hole of \<open>b\<close> bytes whose inside is zero, \<open>kmalloc\<close> of a size at
  least 40 bytes below \<open>b\<close> returns a block of zero bytes that nobody uses, changes no byte in
  use, be it in an allocated block or outside the heap, and leaves the heap in the same
  condition with the rest of the hole.\<close>

theorem kmalloc_hands_out_fresh_bytes:
  assumes "heap_ready b used s" and "unat sz + 40 \<le> b"
  shows "\<exists>a s'. kmalloc (Suc fuel) sz s = Some (a, s') \<and> unat a + unat sz < 4294967296
    \<and> (\<forall>x. within a (unat sz) x \<longrightarrow> \<not> used x \<and> memory s' x = 0)
    \<and> (\<forall>x. used x \<longrightarrow> memory s' x = memory s x)
    \<and> heap_ready (b - (unat sz + 40)) (\<lambda>x. used x \<or> within a (unat sz) x) s'"
  by (rule heap.gives [OF assms])

text \<open>The heap that \<open>create_heap\<close> makes for the kernel is in this condition.\<close>

lemma kernel_heap_ready:
  obtains s where "heap_ready 0x80000 (\<lambda>_. False) s"
    and "create_heap 0 1 KHEAP_START (KHEAP_START + KHEAP_INITIAL_SIZE) 0xCFFFF000 0 0 early_state
      = Some (0x20000, s\<lparr>kheap := 0\<rparr>)"
proof -
  obtain s' where s': "create_heap 0 1 KHEAP_START (KHEAP_START + KHEAP_INITIAL_SIZE) 0xCFFFF000 0 0 early_state
      = Some (0x20000, s')" "heap_inv s' 0x20000 [(0x80000, True)]" "heap_start (memory s') 0x20000 = 0xC0080000"
    "index_sorted s' 0x20000"
    and z: "\<And>c. \<not> within 0x20000 32 c \<Longrightarrow> \<not> within KHEAP_START 0x80000 c \<Longrightarrow> \<not> within 0xC0080000 12 c \<Longrightarrow>
      memory s' c = 0" and k0: "kheap s' = 0"
    by (rule kernel_heap_created) fast
  let ?s = "s'\<lparr>kheap := 0x20000\<rparr>"
  have "memory s' c = 0" if "within 0xC008000C (0x80000 - 20) c" for c
    using that by (intro z) (simp_all add: within_nat KHEAP_START_def)
  then have "zeroed (memory s') 0xC0080000 [(0x80000, True)]" by simp
  moreover have "heap_inv ?s 0x20000 [(0x80000, True)]" using s'(2) by (simp add: heap_inv_def)
  ultimately have "heap_ready 0x80000 (\<lambda>_. False) ?s" using s'(3)
    by (auto simp: heap_ready_def intro!: exI [of _ "[(0x80000, True)]"])
  moreover have "?s\<lparr>kheap := 0\<rparr> = s'" using k0 by simp
  ultimately show thesis using s'(1) by (intro that [of ?s]) simp_all
qed

theorem kmalloc_hands_out_fresh_bytes_witness:
  "\<exists>s a s'. heap_ready 0x80000 (\<lambda>_. False) s \<and> kmalloc 1 100 s = Some (a, s')
    \<and> (\<forall>x. within a 100 x \<longrightarrow> memory s' x = 0)"
proof -
  obtain s where s: "heap_ready 0x80000 (\<lambda>_. False) s" by (rule kernel_heap_ready)
  then show ?thesis using kmalloc_hands_out_fresh_bytes [OF s, of 100 0] by fastforce
qed

end
