(* ===== verification/Heap_Aligned.thy ===== *)
theory Heap_Aligned
  imports Heap_Source
begin

text \<open>
  \<open>alloc\<close> with page alignment, the allocation of page directories and tables once the heap exists: the first
  hole that is large enough behind the next page boundary is cut into a hole in front of the boundary, a block
  whose data starts on it, and a hole with the rest. The hole in front keeps its place in the index, so its order is
  lost, but the index still holds exactly the holes.
\<close>

subsection \<open>The cut\<close>

text \<open>The size of the hole in front; the header of the block ends at the boundary.\<close>

definition front :: "u32 \<Rightarrow> nat" where
  "front p = 4084 - unat p mod 4096"

definition page_cut :: "nat \<Rightarrow> nat \<Rightarrow> nat \<Rightarrow> block list" where
  "page_cut f k n = (f, True) # (k, False) # (if n = f + k then [] else [(n - (f + k), True)])"

definition cut_mem :: "u32 \<Rightarrow> nat \<Rightarrow> nat \<Rightarrow> nat \<Rightarrow> mem \<Rightarrow> mem" where
  "cut_mem p f k n m =
     (let m = write_block (p + of_nat f) k False (write_block p f True m)
      in if n = f + k then m else write_block (p + of_nat (f + k)) (n - (f + k)) True m)"

lemma total_page_cut: "f + k \<le> n \<Longrightarrow> total (page_cut f k n) = n"
  by (simp add: page_cut_def)

lemma unat_mod_page: "unat ((p::u32) mod 0x1000) = unat p mod 4096"
  by (simp add: unat_mod_distrib)

lemma front_words:
  assumes "unat p mod 4096 \<le> 4084"
  shows "p + 0x1000 - (p AND 0xFFF) - 12 = p + of_nat (front p)" "0x1000 - (p AND 0xFFF) - 12 = of_nat (front p)"
proof -
  have "of_nat (unat p mod 4096) = p AND 0xFFF" by (simp add: low_mask flip: unat_mod_page)
  then have "(of_nat (front p) :: u32) = 4084 - (p AND 0xFFF)" using assms by (simp add: front_def of_nat_diff)
  then show "p + 0x1000 - (p AND 0xFFF) - 12 = p + of_nat (front p)" "0x1000 - (p AND 0xFFF) - 12 = of_nat (front p)"
    by simp_all
qed

lemma front_boundary:
  assumes "unat p mod 4096 \<le> 4084" "unat p + front p + 12 < 4294967296"
  shows "unat (p + of_nat (front p) + 12) mod 4096 = 0"
proof -
  have "unat (p + of_nat (front p + 12)) = unat p + (front p + 12)" using assms(2) by (intro unat_add_of_nat) simp
  also have "\<dots> = 4096 * (unat p div 4096) + 4096"
    using assms(1) mult_div_mod_eq [of 4096 "unat p"] unfolding front_def by linarith
  finally show ?thesis by (simp add: add.assoc)
qed

lemma behind_first_page: "4096 \<le> unat p \<Longrightarrow> (p::u32) AND 0xFFFFF000 \<noteq> 0"
proof
  assume "4096 \<le> unat p" "p AND 0xFFFFF000 = 0"
  then have "p = p mod 0x1000" by (simp add: high_mask)
  then have "unat p = unat p mod 4096" by (metis unat_mod_page)
  then show False using \<open>4096 \<le> unat p\<close> mod_less_divisor [of 4096 "unat p"] by linarith
qed

lemma cut_mem_chain:
  assumes "20 \<le> f" "20 \<le> k" "n = f + k \<or> f + k + 20 \<le> n" "unat p + n < 4294967296"
  shows "chain (cut_mem p f k n m) e p (page_cut f k n)"
    and "\<not> within p n c \<Longrightarrow> cut_mem p f k n m c = m c"
proof -
  have u: "unat (p + of_nat f) = unat p + f" "unat (p + of_nat (f + k)) = unat p + (f + k)"
    using assms(3,4) unat_add_of_nat [of p f] unat_add_of_nat [of p "f + k"] by linarith+
  let ?m1 = "write_block p f True m" let ?m2 = "write_block (p + of_nat f) k False ?m1"
  have out1: "?m1 c = m c" if "\<not> within p f c" for c using that assms by (auto intro!: write_block_outside)
  have out2: "?m2 c = ?m1 c" if "\<not> within (p + of_nat f) k c" for c using that assms u by (auto intro!: write_block_outside)
  have out3: "cut_mem p f k n m c = ?m2 c" if "n = f + k \<or> \<not> within (p + of_nat (f + k)) (n - (f + k)) c" for c
    using that assms u by (auto simp: cut_mem_def intro!: write_block_outside)
  have "block_at ?m1 e p (f, True)" using assms by (intro write_block_at) auto
  then have b1: "block_at (cut_mem p f k n m) e p (f, True)"
    by (rule block_at_cong) (use assms u out2 out3 in \<open>auto simp: within_nat\<close>)
  have "block_at ?m2 e (p + of_nat f) (k, False)" using assms u by (intro write_block_at) auto
  then have b2: "block_at (cut_mem p f k n m) e (p + of_nat f) (k, False)"
    by (rule block_at_cong) (use assms u out3 in \<open>auto simp: within_nat\<close>)
  have "block_at (cut_mem p f k n m) e (p + of_nat (f + k)) (n - (f + k), True)" if "n \<noteq> f + k"
    using that assms u by (auto simp: cut_mem_def intro!: write_block_at)
  then show "chain (cut_mem p f k n m) e p (page_cut f k n)" using b1 b2 by (simp add: page_cut_def add.assoc)
  show "cut_mem p f k n m c = m c" if "\<not> within p n c"
    using that out1 [of c] out2 [of c] out3 [of c] assms u by (auto simp: within_nat)
qed

text \<open>The headers and footers that the cut writes.\<close>

definition cut_own :: "u32 \<Rightarrow> nat \<Rightarrow> nat \<Rightarrow> nat \<Rightarrow> u32 \<Rightarrow> bool" where
  "cut_own p f k n c \<longleftrightarrow> within p 12 c \<or> within (p + of_nat f - 8) 8 c
     \<or> within (p + of_nat f) 12 c \<or> within (p + of_nat (f + k) - 8) 8 c
     \<or> n \<noteq> f + k \<and> within (p + of_nat (f + k)) 12 c \<or> within (p + of_nat n - 8) 8 c"

lemma cut_mem_own:
  assumes "f + k \<le> n" "\<not> cut_own p f k n c"
  shows "cut_mem p f k n m c = m c"
proof -
  have e: "p + of_nat f + of_nat k = p + of_nat (f + k)" "p + of_nat (f + k) + of_nat (n - (f + k)) = p + of_nat n"
    using assms(1) by (simp_all add: of_nat_diff)
  let ?m = "write_block (p + of_nat f) k False (write_block p f True m)"
  have "?m c = m c" using assms(2) unfolding cut_own_def by (simp add: write_block_own e del: of_nat_add)
  moreover have "write_block (p + of_nat (f + k)) (n - (f + k)) True ?m c = ?m c" if "n \<noteq> f + k"
    by (rule write_block_own) (use assms(2) that in \<open>simp_all only: cut_own_def e de_Morgan_disj de_Morgan_conj simp_thms\<close>)
  ultimately show ?thesis by (simp add: cut_mem_def Let_def)
qed

subsection \<open>Placing the block\<close>

lemma alloc_place_aligned_run:
  assumes look: "lookup_s it heap s = (p, s)" and n: "hdr_size (memory s) p = of_nat n"
    and k: "k = unat sz + 20" and f: "f = front p" "20 \<le> f" "n = f + k \<or> f + k + 20 \<le> n"
    and p: "4096 \<le> unat p" "unat p mod 4096 \<le> 4084" "unat p + n < 4294967296" and al: "al \<noteq> 0"
    and e1: "p + of_nat n - 8 < e" and e: "\<And>m'. (\<And>c. \<not> within p n c \<Longrightarrow> m' c = memory s c) \<Longrightarrow> heap_end m' heap = e"
  shows "alloc_place it sz (sz + 12 + 8) al heap s = (p + of_nat f + 12,
    (if n = f + k then id else insert_s (p + of_nat (f + k)) heap) (upd_mem (cut_mem p f k n) s))"
proof -
  define r :: u32 where "r = of_nat (n - (f + k))"
  let ?m1 = "write_block p f True (memory s)" let ?m2 = "write_block (p + of_nat f) k False ?m1"
  have le: "f + k \<le> n" "20 \<le> k" using f(3) k by auto
  have k32: "of_nat k = sz + 20" by (simp add: k)
  have n32: "of_nat n = of_nat f + (sz + 20) + r" using le by (simp add: r_def of_nat_diff k32)
  have u: "unat (p + of_nat f) = unat p + f" "unat (p + of_nat (f + k)) = unat p + (f + k)"
    using le p(3) unat_add_of_nat [of p f] unat_add_of_nat [of p "f + k"] by linarith+
  have fu: "unat (of_nat f :: u32) = f" using le p(3) by (intro unat_of_nat_small) linarith
  have ru: "unat r = n - (f + k)" unfolding r_def using p(3) by (intro unat_of_nat_small) linarith
  have "unat (of_nat (n - k) :: u32) = n - k" using p(3) by (intro unat_of_nat_small) linarith
  then have "\<not> (of_nat (n - k) :: u32) < 20" using f(2) le by (simp add: word_less_nat_alt)
  moreover have "(of_nat (n - k) :: u32) = of_nat n - (sz + 12 + 8)" using le by (simp add: of_nat_diff k32)
  ultimately have nk: "\<not> of_nat n - (sz + 12 + 8) < (12 + 8 :: u32)" by simp
  have r0: "0 < r \<longleftrightarrow> n \<noteq> f + k" using ru le by (auto simp: word_less_nat_alt)
  have "block_at ?m1 e p (f, True)" using f(2) le p(3) by (intro write_block_at) linarith+
  then have size1: "hdr_size ?m1 p = of_nat f" by (simp add: block_at_def)
  note w = front_words [OF p(2), folded f(1)]
  have rest: "of_nat n - of_nat f - (sz + 12 + 8) = r" by (simp add: n32)
  have m1: "put_footer (p + of_nat f - 8) p (put_header p 1 (of_nat f) (memory s)) = ?m1" by (simp add: write_block_def)
  have m2: "put_footer (p + of_nat f + 12 + sz) (p + of_nat f) (put_header (p + of_nat f) 0 (sz + 12 + 8) ?m1) = ?m2"
    by (simp add: write_block_def k32 algebra_simps)
  have hh: "p + of_nat f + 12 + sz + 8 = p + of_nat (f + k)" by (simp add: k32 algebra_simps)
  have hf: "p + of_nat (f + k) + (of_nat n - of_nat f) - (sz + 12 + 8) - 8 = p + of_nat n - 8" by (simp add: k32)
  have e2: "heap_end (put_header (p + of_nat (f + k)) 1 r ?m2) heap = e" if "n \<noteq> f + k"
  proof (rule e)
    fix c assume c: "\<not> within p n c"
    have "\<not> within (p + of_nat (f + k)) (n - (f + k)) c" "\<not> within (p + of_nat f) k c" "\<not> within p f c"
      using c u p(3) le by (auto simp: within_nat)
    then show "put_header (p + of_nat (f + k)) 1 r ?m2 c = memory s c"
      using that f(2,3) le u p(3) by (subst put_header_outside [where n = "n - (f + k)"]) (auto simp: write_block_outside)
  qed
  have m3: "put_footer (p + of_nat n - 8) (p + of_nat (f + k)) (put_header (p + of_nat (f + k)) 1 r ?m2) = cut_mem p f k n (memory s)"
    if "n \<noteq> f + k" using that le by (simp add: cut_mem_def write_block_def r_def of_nat_diff)
  have cond: "al \<noteq> 0 \<and> p AND 0xFFFFF000 \<noteq> 0" using al behind_first_page [OF p(1)] by blast
  have upd: "memory (s\<lparr>memory := m\<rparr>) = m" "s\<lparr>memory := m, memory := m'\<rparr> = s\<lparr>memory := m'\<rparr>" for m m' by simp_all
  note code = alloc_place_def look n nk cond Let_def prod.case if_False if_True simp_thms upd_mem_def upd w m1 size1 rest m2
  show ?thesis
  proof (cases "n = f + k")
    case True
    then have "\<not> 0 < r" using r0 by blast
    then show ?thesis by (simp only: code if_P [OF True] cut_mem_def id_apply)
  next
    case False
    then have "0 < r" using r0 by blast
    then show ?thesis by (simp only: code hh hf e1 e2 [OF False] m3 [OF False] if_not_P [OF False])
  qed
qed

lemma index_step_refl: "heap_shape m heap n \<Longrightarrow> index_step heap m m"
  by (simp add: index_step_def heap_shape_def Let_def)

lemma alloc_place_cuts:
  assumes inv: "heap_inv s heap (xs @ (n, True) # ys)" and p: "p = heap_start (memory s) heap + of_nat (total xs)"
    and room: "oa_size_at (memory s) heap < oa_max_size_at (memory s) heap"
    and i: "oa_list (memory s) heap ! i = p" "(of_nat i :: u32) < oa_size_at (memory s) heap" "unat (of_nat i :: u32) = i"
    and k: "k = unat sz + 20" and f: "f = front p" "20 \<le> f" "n = f + k \<or> f + k + 20 \<le> n"
    and page: "4096 \<le> unat p" and al: "al \<noteq> 0"
  obtains m' where "alloc_place (of_nat i) sz (sz + 12 + 8) al heap s = (p + of_nat f + 12, s\<lparr>memory := m'\<rparr>)"
    and "heap_inv (s\<lparr>memory := m'\<rparr>) heap (xs @ page_cut f k n @ ys)"
    and "\<And>c. index_byte (memory s) heap c \<or> cut_own p f k n c \<or> m' c = memory s c"
    and "heap_start m' heap = heap_start (memory s) heap" "oa_array_at m' heap = oa_array_at (memory s) heap"
      "oa_max_size_at m' heap = oa_max_size_at (memory s) heap"
proof -
  let ?m = "memory s" and ?bs = "xs @ (n, True) # ys" and ?new = "xs @ page_cut f k n @ ys"
  let ?start = "heap_start ?m heap" and ?e = "heap_end ?m heap" and ?m2 = "cut_mem p f k n ?m"
  note hole = heap_inv_hole [OF inv p]
  have le: "f + k \<le> n" "20 \<le> k" and pm: "unat p mod 4096 \<le> 4084" using f k by (auto simp: front_def)
  have sh: "heap_shape ?m heap (total ?bs)" and ch: "chain ?m ?e ?start ?bs" and bound: "unat ?start + total ?bs < 4294967296"
    and idx: "mset (oa_list ?m heap) = mset (holes ?start ?bs)"
    using inv by (simp_all add: heap_inv_def heap_shape_def Let_def)
  note cm = cut_mem_chain [OF f(2) le(2) f(3) hole(6)]
  note a = area_after_index [OF inv p index_step_refl [OF sh], of ?m2]
  have fr: "\<forall>c. \<not> within p n c \<longrightarrow> ?m2 c = ?m c" using cm(2) by blast
  have own: "cut_own p f k n c \<or> ?m2 c = ?m c" for c using cut_mem_own [OF le(1)] by blast
  have ch2: "chain ?m2 ?e ?start ?new"
    by (rule chain_replace [OF ch bound]) (use cm(1) a(8) [OF fr] le in \<open>simp_all add: p total_page_cut\<close>)
  have tot: "total ?new = total ?bs" using le by (simp add: total_page_cut)
  have end8: "p + of_nat n - 8 < ?e"
  proof -
    have "p + of_nat n - 8 = p + of_nat (n - 8)" using hole(3) by simp
    then have "unat (p + of_nat n - 8) = unat p + (n - 8)" using hole(6) by (simp only: unat_add_of_nat)
    then show ?thesis using hole(3,5) by (simp add: word_less_nat_alt)
  qed
  have run: "alloc_place (of_nat i) sz (sz + 12 + 8) al heap s = (p + of_nat f + 12,
      (if n = f + k then id else insert_s (p + of_nat (f + k)) heap) (s\<lparr>memory := ?m2\<rparr>))"
  proof -
    have "lookup_s (of_nat i) heap s = (p, s)" using lookup_s_index [OF i(2)] i(1,3) by simp
    moreover have "heap_end m' heap = ?e" if "\<And>c. \<not> within p n c \<Longrightarrow> m' c = ?m c" for m'
      by (rule area_after_index(4) [OF inv p index_step_refl [OF sh]]) (use that in blast)
    ultimately show ?thesis
      using alloc_place_aligned_run [OF _ hole(2) k f page pm hole(6) al end8, of "of_nat i" heap] unfolding upd_mem_def by blast
  qed
  have hs: "mset (holes ?start ?new) = mset (oa_list ?m2 heap) + (if n = f + k then {#} else {#p + of_nat (f + k)#})"
    unfolding a(2) [OF fr] idx using le by (simp add: holes_append page_cut_def p add.assoc flip: of_nat_add)
  show thesis
  proof (cases "n = f + k")
    case True
    have "heap_inv (s\<lparr>memory := ?m2\<rparr>) heap ?new"
      using a(1,3,4) [OF fr] ch2 hs True tot by (simp add: heap_inv_def Let_def)
    with True show thesis using run a(3,6,7) [OF fr] own by (intro that [of ?m2]) auto
  next
    case False
    obtain m3 where ins: "insert_s (p + of_nat (f + k)) heap (s\<lparr>memory := ?m2\<rparr>) = s\<lparr>memory := m3\<rparr>" and st3: "index_step heap ?m2 m3"
      and m3: "heap_inv (s\<lparr>memory := m3\<rparr>) heap ?new" "heap_start m3 heap = ?start"
      using insert_hole [of "s\<lparr>memory := ?m2\<rparr>" heap ?new "p + of_nat (f + k)"] a(1-6) [OF fr] room ch2 hs False tot by auto
    have "index_byte ?m heap c \<or> cut_own p f k n c \<or> m3 c = ?m c" for c
      using own [of c] index_step_byte [OF st3, of c] a(6,7) [OF fr] by (auto simp: index_byte_def)
    moreover have "oa_array_at m3 heap = oa_array_at ?m heap" "oa_max_size_at m3 heap = oa_max_size_at ?m heap"
      using st3 a(6,7) [OF fr] by (simp_all add: index_step_def)
    ultimately show thesis using run False ins m3 by (intro that [of m3]) auto
  qed
qed

subsection \<open>The search\<close>

definition page_fits :: "u32 \<Rightarrow> mem \<Rightarrow> u32 \<Rightarrow> bool" where
  "page_fits sz m h \<longleftrightarrow> sint sz \<le> sint (hdr_size m h
     - (if (h + 12) AND 0xFFFFF000 \<noteq> 0 then 0x1000 - (h + 12) mod 0x1000 else 0))"

lemma find_aligned_hole_from:
  "iterator \<le> oa_size_at (memory s) heap \<Longrightarrow> 0 < al \<Longrightarrow>
    find_smallest_hole_from sz al heap iterator s = (i, s') \<Longrightarrow>
    s' = s \<and> unat i = unat iterator + length (takeWhile (\<lambda>h. \<not> page_fits sz (memory s) h)
      (drop (unat iterator) (oa_list (memory s) heap)))"
proof (induction sz al heap iterator s rule: find_smallest_hole_from.induct)
  case (1 sz al heap iterator s)
  let ?xs = "oa_list (memory s) heap" and ?i = "unat iterator"
  have len: "length ?xs = unat (oa_size_at (memory s) heap)" by (simp add: oa_list_def)
  show ?case
  proof (cases "iterator < oa_size_at (memory s) heap")
    case False
    then show ?thesis using "1.prems" len
      by (subst (asm) find_smallest_hole_from.simps) (simp add: word_le_nat_alt word_less_nat_alt)
  next
    case True
    then have i: "?i < length ?xs" by (simp add: len word_less_nat_alt)
    have d: "drop ?i ?xs = ?xs ! ?i # drop (Suc ?i) ?xs" using i by (rule Cons_nth_drop_Suc [symmetric])
    note look = lookup_s_index [OF True]
    have step: "find_smallest_hole_from sz al heap iterator s =
        (if page_fits sz (memory s) (?xs ! ?i) then (iterator, s) else find_smallest_hole_from sz al heap (iterator + 1) s)"
      using True "1.prems"(2) by (subst find_smallest_hole_from.simps) (simp add: look page_fits_def Let_def)
    show ?thesis
    proof (cases "page_fits sz (memory s) (?xs ! ?i)")
      case small: False
      have le: "iterator + 1 \<le> oa_size_at (memory s) heap" using True by (simp add: inc_le)
      have run: "find_smallest_hole_from sz al heap (iterator + 1) s = (i, s')" using "1.prems"(3) step small by simp
      have "s' = s \<and> unat i = unat (iterator + 1) + length (takeWhile (\<lambda>h. \<not> page_fits sz (memory s) h)
          (drop (unat (iterator + 1)) ?xs))"
        by (rule "1.IH"(1) [OF True look [symmetric] refl "1.prems"(2) refl refl refl _ le "1.prems"(2) run])
          (use small in \<open>simp add: page_fits_def\<close>)
      then show ?thesis using True small by (simp add: d unat_Suc_below)
    next
      case True
      then have "i = iterator" "s' = s" using "1.prems"(3) step by simp_all
      then show ?thesis using True by (simp add: d)
    qed
  qed
qed

subsection \<open>The allocation\<close>

text \<open>A hole of \<open>n\<close> bytes at \<open>p\<close> from which \<open>k\<close> bytes are cut cleanly: both remainders can hold a header and a footer.\<close>

definition cuts_cleanly :: "u32 \<Rightarrow> nat \<Rightarrow> nat \<Rightarrow> bool" where
  "cuts_cleanly p n k \<longleftrightarrow> 4096 \<le> unat p \<and> 20 \<le> front p \<and> (n = front p + k \<or> front p + k + 20 \<le> n)"

lemma alloc_aligned_hole:
  assumes inv: "heap_inv s heap bs" and room: "oa_size_at (memory s) heap < oa_max_size_at (memory s) heap" and al: "al \<noteq> 0"
    and hole: "x \<in> set (holes (heap_start (memory s) heap) bs)" "page_fits (sz + 12 + 8) (memory s) x"
    and clean: "\<And>xs n ys. bs = xs @ (n, True) # ys \<Longrightarrow> page_fits (sz + 12 + 8) (memory s) (heap_start (memory s) heap + of_nat (total xs)) \<Longrightarrow>
      cuts_cleanly (heap_start (memory s) heap + of_nat (total xs)) n (unat sz + 20)"
  obtains xs n ys p us vs m' where "bs = xs @ (n, True) # ys" "p = heap_start (memory s) heap + of_nat (total xs)"
    and "cuts_cleanly p n (unat sz + 20)" "oa_list (memory s) heap = us @ p # vs"
    and "\<forall>u \<in> set us. \<not> page_fits (sz + 12 + 8) (memory s) u"
    and "alloc (Suc fuel) sz al heap s = Some (p + of_nat (front p) + 12, s\<lparr>memory := m'\<rparr>)"
    and "unat (p + of_nat (front p) + 12) mod 4096 = 0"
    and "heap_inv (s\<lparr>memory := m'\<rparr>) heap (xs @ page_cut (front p) (unat sz + 20) n @ ys)"
    and "\<And>c. index_byte (memory s) heap c \<or> cut_own p (front p) (unat sz + 20) n c \<or> m' c = memory s c"
    and "heap_start m' heap = heap_start (memory s) heap" "oa_array_at m' heap = oa_array_at (memory s) heap"
      "oa_max_size_at m' heap = oa_max_size_at (memory s) heap"
proof -
  let ?m = "memory s" let ?xs = "oa_list ?m heap" and ?P = "\<lambda>h. \<not> page_fits (sz + 12 + 8) ?m h"
  have idx: "set ?xs = set (holes (heap_start ?m heap) bs)"
    using inv by (auto simp: heap_inv_def Let_def dest: mset_eq_setD)
  obtain i s' where f: "find_smallest_hole_from (sz + 12 + 8) al heap 0 s = (i, s')" by (metis surj_pair)
  have r: "s' = s" "unat i = length (takeWhile ?P ?xs)"
    using find_aligned_hole_from [OF _ _ f] al by (simp_all add: word_gt_0)
  have x: "x \<in> set ?xs" "\<not> ?P x" using hole idx by simp_all
  note found = find_smallest_hole_found [OF f r x]
  define p where "p = ?xs ! unat i"
  have "p \<in> set (holes (heap_start ?m heap) bs)" unfolding idx [symmetric] p_def using found(2) by simp
  then obtain xs n ys where bs: "bs = xs @ (n, True) # ys" and p: "p = heap_start ?m heap + of_nat (total xs)"
    by (auto simp: holes_blocks)
  have c: "cuts_cleanly p n (unat sz + 20)" unfolding p by (rule clean [OF bs]) (use found(3) p_def p in simp)
  have cf: "20 \<le> front p" "n = front p + (unat sz + 20) \<or> front p + (unat sz + 20) + 20 \<le> n" "4096 \<le> unat p"
    using c by (auto simp: cuts_cleanly_def)
  have iu: "(of_nat (unat i) :: u32) = i" by simp
  obtain m' where place: "alloc_place i sz (sz + 12 + 8) al heap s = (p + of_nat (front p) + 12, s\<lparr>memory := m'\<rparr>)"
    and res: "heap_inv (s\<lparr>memory := m'\<rparr>) heap (xs @ page_cut (front p) (unat sz + 20) n @ ys)"
    "\<And>c. index_byte ?m heap c \<or> cut_own p (front p) (unat sz + 20) n c \<or> m' c = ?m c" "heap_start m' heap = heap_start ?m heap" "oa_array_at m' heap = oa_array_at ?m heap"
    "oa_max_size_at m' heap = oa_max_size_at ?m heap"
    using alloc_place_cuts [OF inv [unfolded bs] p room _ _ _ refl refl cf al, of "unat i", unfolded iu] p_def found(5) by metis
  have run: "alloc (Suc fuel) sz al heap s = Some (p + of_nat (front p) + 12, s\<lparr>memory := m'\<rparr>)"
    using found(1,4) place by (simp add: Let_def)
  have "unat p + n < 4294967296" by (rule heap_inv_hole(6) [OF inv [unfolded bs] p])
  then have "unat (p + of_nat (front p) + 12) mod 4096 = 0"
    using cf by (intro front_boundary) (auto simp: front_def)
  moreover have "?xs = takeWhile ?P ?xs @ p # drop (Suc (unat i)) ?xs"
    using found(2) id_take_nth_drop [of "unat i" ?xs] r(2) takeWhile_eq_take [of ?P ?xs] by (simp add: p_def)
  moreover have "\<forall>u \<in> set (takeWhile ?P ?xs). ?P u" by (auto dest: set_takeWhileD)
  ultimately show thesis using bs p c run res by (intro that) assumption+
qed

lemma index_length: "length (oa_list m heap) = unat (oa_size_at m heap)"
  by (simp add: oa_list_def)

text \<open>A heap that is one hole, as \<open>create_heap\<close> leaves it.\<close>

lemma one_hole_fits:
  assumes inv: "heap_inv s heap [(n, True)]" and start: "4096 \<le> unat (heap_start (memory s) heap)"
    and n: "n < 2147483648" "front (heap_start (memory s) heap) + unat sz + 40 \<le> n" "20 \<le> front (heap_start (memory s) heap)"
  shows "page_fits (sz + 12 + 8) (memory s) (heap_start (memory s) heap)" "cuts_cleanly (heap_start (memory s) heap) n (unat sz + 20)"
proof -
  let ?a = "heap_start (memory s) heap" let ?f = "of_nat (front ?a) :: u32"
  have hole: "hdr_size (memory s) ?a = of_nat n" "unat ?a + n < 4294967296"
    using heap_inv_hole [of s heap "[]" n "[]" ?a] inv by simp_all
  show "cuts_cleanly ?a n (unat sz + 20)" using start n by (simp add: cuts_cleanly_def)
  have "unat ?a mod 4096 \<le> 4064" using n(3) by (simp add: front_def)
  moreover have u: "unat (?a + 12) = unat ?a + 12" using hole(2) n(2) by (intro unat_add_numeral_nowrap) simp
  ultimately have m: "unat ((?a + 12) mod 0x1000) = unat ?a mod 4096 + 12"
    by (simp add: unat_mod_page mod_add_left_eq [symmetric, of "unat ?a"])
  have "unat (0x1000 - (?a + 12) mod 0x1000) = front ?a"
    using m n(3) by (subst unat_sub_nowrap) (simp_all add: front_def)
  from arg_cong [OF this, of "of_nat :: nat \<Rightarrow> u32"] have off: "0x1000 - (?a + 12) mod 0x1000 = ?f" by simp
  have f: "(of_nat n :: u32) - ?f = of_nat (n - front ?a)" using n(2) by (simp add: of_nat_diff)
  have k: "sz + 12 + 8 = of_nat (unat sz + 20)" by simp
  have "sint (of_nat (unat sz + 20) :: u32) = int (unat sz + 20)" "sint (of_nat (n - front ?a) :: u32) = int (n - front ?a)"
    using n(1,2) by (intro sint_of_nat; linarith)+
  then have "sint (sz + 12 + 8) \<le> sint (of_nat n - ?f)" unfolding f k using n(2) by linarith
  then show "page_fits (sz + 12 + 8) (memory s) ?a"
    using behind_first_page [of "?a + 12"] u start by (simp add: page_fits_def hole(1) off)
qed

subsection \<open>Properties\<close>

text \<open>C9: A page-aligned \<open>alloc\<close> from a heap in whose index an entry is free, and in which every hole that is large
  enough behind a page boundary can be cut cleanly, takes the first such hole of the index and returns an address on a
  page boundary. The hole becomes a hole in front, the block and, unless it is used up, a hole behind; the heap
  invariant holds again, and no byte changes but those of the index and of the headers and footers of the three blocks. The order of the index is not
  claimed: the hole in front stays where the larger hole was.\<close>

theorem alloc_page_aligned:
  assumes "heap_inv s heap bs" and "oa_size_at (memory s) heap < oa_max_size_at (memory s) heap" and "al \<noteq> 0"
    and "x \<in> set (holes (heap_start (memory s) heap) bs)" "page_fits (sz + 12 + 8) (memory s) x"
    and "\<And>xs n ys. bs = xs @ (n, True) # ys \<Longrightarrow> page_fits (sz + 12 + 8) (memory s) (heap_start (memory s) heap + of_nat (total xs)) \<Longrightarrow>
      cuts_cleanly (heap_start (memory s) heap + of_nat (total xs)) n (unat sz + 20)"
  shows "\<exists>xs n ys p us vs m'. bs = xs @ (n, True) # ys \<and> p = heap_start (memory s) heap + of_nat (total xs)
    \<and> oa_list (memory s) heap = us @ p # vs \<and> (\<forall>u \<in> set us. \<not> page_fits (sz + 12 + 8) (memory s) u)
    \<and> alloc (Suc fuel) sz al heap s = Some (p + of_nat (front p) + 12, s\<lparr>memory := m'\<rparr>)
    \<and> unat (p + of_nat (front p) + 12) mod 4096 = 0
    \<and> heap_inv (s\<lparr>memory := m'\<rparr>) heap (xs @ page_cut (front p) (unat sz + 20) n @ ys)
    \<and> (\<forall>c. index_byte (memory s) heap c \<or> cut_own p (front p) (unat sz + 20) n c \<or> m' c = memory s c)"
proof (rule alloc_aligned_hole [OF assms(1-5), where fuel = fuel], goal_cases)
  case (1 xs n ys)
  then show ?case by (rule assms(6))
next
  case (2 xs n ys p us vs m')
  note r = this
  show ?case
    by (intro exI conjI) (rule r(1), rule r(2), rule r(4), rule r(5), rule r(6), rule r(7), rule r(8), use r(9) in blast)
qed

theorem alloc_page_aligned_witness:
  "\<exists>s m'. heap_inv s 0x20000 [(0x80000, True)] \<and> alloc 1 0x2004 1 0x20000 s = Some (0xC0081000, s\<lparr>memory := m'\<rparr>)
    \<and> heap_inv (s\<lparr>memory := m'\<rparr>) 0x20000 [(4084, True), (8216, False), (0x80000 - 12300, True)]"
proof -
  obtain s where s: "heap_inv s 0x20000 [(0x80000, True)]" "heap_start (memory s) 0x20000 = 0xC0080000"
      "oa_max_size_at (memory s) 0x20000 = 0x20000"
    using kernel_heap_created by metis
  have f: "front 0xC0080000 = 4084" by (simp add: front_def)
  note fits = one_hole_fits [OF s(1), unfolded s(2) f, of "0x2004", simplified]
  have "length (oa_list (memory s) 0x20000) = 1"
    using s(1,2) by (simp add: heap_inv_def Let_def flip: size_mset)
  then have "oa_size_at (memory s) 0x20000 < oa_max_size_at (memory s) 0x20000"
    by (simp add: index_length s(3) word_less_nat_alt)
  from alloc_page_aligned [OF s(1) this, of 1 "0xC0080000" "0x2004" 0] fits s show ?thesis
    by (auto simp: Cons_eq_append_conv page_cut_def f)
qed

end
