(* ===== verification/Descriptor_Tables.thy ===== *)
theory Descriptor_Tables
  imports Kernel_Prelude
begin

text \<open>
  The segment and interrupt descriptor tables of \<open>kernel/cpu/gdt.c\<close> and \<open>kernel/cpu/idt.c\<close>.
  The tables are lists of packed structures; \<open>gdt_flush\<close> and \<open>lidt\<close> load a pointer structure,
  which is part of the state here. What the processor reads from an entry is written out as
  \<open>segment_base\<close>, \<open>segment_limit\<close> and \<open>gate_handler\<close>; the properties say that the code's
  encoding is undone by it.
\<close>

subsection \<open>The code: segments\<close>

record gdt_entry =
  limit_low :: u16
  base_low :: u16
  base_middle :: u8
  access :: u8
  granularity :: u8
  base_high :: u8

record table_ptr =
  table_limit :: u16
  table_base :: u32

definition GDT_ENTRIES :: nat where "GDT_ENTRIES = 5"

definition gdt_set_gate :: "nat \<Rightarrow> u32 \<Rightarrow> u32 \<Rightarrow> u8 \<Rightarrow> u8 \<Rightarrow> gdt_entry list \<Rightarrow> gdt_entry list" where
  "gdt_set_gate num base limit acc gran t =
     t[num := \<lparr>limit_low = ucast (limit AND 0xFFFF), base_low = ucast (base AND 0xFFFF),
        base_middle = ucast (drop_bit 16 base AND 0xFF), access = acc,
        granularity = ucast (drop_bit 16 limit AND 0x0F) OR (gran AND 0xF0),
        base_high = ucast (drop_bit 24 base AND 0xFF)\<rparr>]"

text \<open>\<open>gdt_addr\<close> is \<open>&gdt_entries\<close>; an entry is eight bytes.\<close>

definition gdt_install :: "u32 \<Rightarrow> gdt_entry list \<Rightarrow> gdt_entry list \<times> table_ptr" where
  "gdt_install gdt_addr t =
     (let p = \<lparr>table_limit = of_nat (8 * GDT_ENTRIES - 1), table_base = gdt_addr\<rparr>;
          t = gdt_set_gate 0 0 0 0 0 t;
          t = gdt_set_gate 1 0 0xFFFFFFFF 0x9A 0xCF t;
          t = gdt_set_gate 2 0 0xFFFFFFFF 0x92 0xCF t;
          t = gdt_set_gate 3 0 0xFFFFFFFF 0xFA 0xCF t;
          t = gdt_set_gate 4 0 0xFFFFFFFF 0xF2 0xCF t
      in (t, p))"

subsection \<open>The code: interrupt gates\<close>

record idt_gate =
  low_offset :: u16
  sel :: u16
  always0 :: u8
  flags :: u8
  high_offset :: u16

definition KERNEL_CS :: u16 where "KERNEL_CS = 0x08"
definition IDT_ENTRIES :: nat where "IDT_ENTRIES = 256"

definition set_idt_gate :: "nat \<Rightarrow> u32 \<Rightarrow> idt_gate list \<Rightarrow> idt_gate list" where
  "set_idt_gate n handler t =
     t[n := \<lparr>low_offset = low_16 handler, sel = KERNEL_CS, always0 = 0, flags = 0x8E,
        high_offset = high_16 handler\<rparr>]"

definition set_idt :: "u32 \<Rightarrow> table_ptr" where
  "set_idt idt_addr = \<lparr>table_limit = of_nat (IDT_ENTRIES * 8 - 1), table_base = idt_addr\<rparr>"

subsection \<open>What the processor reads\<close>

definition segment_base :: "gdt_entry \<Rightarrow> u32" where
  "segment_base e = ucast (base_low e) OR push_bit 16 (ucast (base_middle e)) OR push_bit 24 (ucast (base_high e))"

definition segment_limit_field :: "gdt_entry \<Rightarrow> u32" where
  "segment_limit_field e = ucast (limit_low e) OR push_bit 16 (ucast (granularity e AND 0x0F))"

text \<open>With the granularity bit the limit counts 4 KiB pages, the last one included.\<close>

definition segment_limit :: "gdt_entry \<Rightarrow> u32" where
  "segment_limit e = (if bit (granularity e) 7 then push_bit 12 (segment_limit_field e) OR 0xFFF
     else segment_limit_field e)"

definition gate_handler :: "idt_gate \<Rightarrow> u32" where
  "gate_handler g = ucast (low_offset g) OR push_bit 16 (ucast (high_offset g))"

text \<open>A present 32-bit interrupt gate into entry 1 of the segment table, the code segment of ring 0.\<close>

definition interrupt_gate :: "idt_gate \<Rightarrow> bool" where
  "interrupt_gate g \<longleftrightarrow> bit (flags g) 7 \<and> flags g AND 0x1F = 0x0E \<and> always0 g = 0 \<and> unat (sel g) = 8 * 1"

lemma and_masks:
  "(a::u32) AND 0xFFFF = take_bit 16 a" "(a::u32) AND 0xFF = take_bit 8 a" "(a::u32) AND 0xF = take_bit 4 a"
  "(b::u8) AND 0xF = take_bit 4 b" "(b::u8) AND 0xF0 = push_bit 4 (drop_bit 4 b)"
proof -
  have m: "(0xFFFF::u32) = mask 16" "(0xFF::u32) = mask 8" "(0xF::u32) = mask 4" "(0xF::u8) = mask 4"
    "(0xF0::u8) = push_bit 4 (mask 4)"
    by (simp_all add: mask_eq_exp_minus_1)
  show "a AND 0xFFFF = take_bit 16 a" "a AND 0xFF = take_bit 8 a" "a AND 0xF = take_bit 4 a"
    "b AND 0xF = take_bit 4 b"
    by (simp_all only: m(1-4) take_bit_eq_mask)
  show "b AND 0xF0 = push_bit 4 (drop_bit 4 b)"
    unfolding m(5) by (rule bit_word_eqI) (auto simp: bit_simps)
qed

lemma gate_handler_set: "n < length t \<Longrightarrow> gate_handler (set_idt_gate n h t ! n) = h"
  unfolding set_idt_gate_def gate_handler_def low_16_def high_16_def and_masks
  by simp (rule bit_word_eqI, auto simp: bit_simps)

lemma segment_base_set:
  "n < length t \<Longrightarrow> segment_base (gdt_set_gate n base limit acc gran t ! n) = base"
  unfolding gdt_set_gate_def segment_base_def and_masks
  by simp (rule bit_word_eqI, rename_tac k, case_tac "k < 24", auto simp: bit_simps not_less)

lemma segment_limit_field_set:
  "n < length t \<Longrightarrow> segment_limit_field (gdt_set_gate n base limit acc gran t ! n) = take_bit 20 limit"
  unfolding gdt_set_gate_def segment_limit_field_def and_masks
  by simp (rule bit_word_eqI, auto simp: bit_simps not_less)

subsection \<open>Properties\<close>

text \<open>C37: A segment descriptor written by \<open>gdt_set_gate\<close> decodes to the base given, to the low 20
  bits of the limit, to the access byte and to the upper half of the flags; the other entries
  stay.\<close>

theorem gdt_set_gate_decodes:
  assumes "n < length t"
  shows "let e = gdt_set_gate n base limit acc gran t ! n in
    segment_base e = base \<and> segment_limit_field e = take_bit 20 limit \<and> access e = acc
    \<and> granularity e AND 0xF0 = gran AND 0xF0
    \<and> (\<forall>k. k \<noteq> n \<longrightarrow> gdt_set_gate n base limit acc gran t ! k = t ! k)"
proof -
  have "(ucast (drop_bit 16 limit AND 0x0F) OR (gran AND 0xF0)) AND 0xF0 = gran AND 0xF0"
    unfolding and_masks by (rule bit_word_eqI) (auto simp: bit_simps)
  then show ?thesis
    using segment_base_set [OF assms] segment_limit_field_set [OF assms] assms
    by (simp add: Let_def) (simp add: gdt_set_gate_def)
qed

theorem gdt_set_gate_decodes_witness:
  "segment_base (gdt_set_gate 1 0x12345678 0xFFFFF 0x9A 0xCF
     (replicate 5 \<lparr>limit_low = 0, base_low = 0, base_middle = 0, access = 0, granularity = 0, base_high = 0\<rparr>) ! 1)
   = 0x12345678"
  using gdt_set_gate_decodes [of 1 "replicate 5 \<lparr>limit_low = 0, base_low = 0, base_middle = 0, access = 0,
      granularity = 0, base_high = 0\<rparr>" "0x12345678" "0xFFFFF" "0x9A" "0xCF"]
  by (simp add: Let_def)

text \<open>\<open>gdt_install\<close> leaves a null segment and four segments that each cover all of the 4 GiB
  address space: code and data for ring 0, code and data for ring 3; the pointer's limit is the
  last byte of the table.\<close>

theorem gdt_install_flat:
  assumes "length t = 5" and "gdt_install gdt_addr t = (t', p)"
  shows "length t' = 5 \<and> unat (table_limit p) = 8 * length t' - 1 \<and> table_base p = gdt_addr
    \<and> (\<forall>i \<in> {1, 2, 3, 4}. segment_base (t' ! i) = 0 \<and> segment_limit (t' ! i) = 0xFFFFFFFF)
    \<and> segment_limit (t' ! 0) = 0
    \<and> map access t' = [0, 0x9A, 0x92, 0xFA, 0xF2]"
proof -
  obtain a b c d e where t: "t = [a, b, c, d, e]"
    using assms(1) by (auto simp: length_Suc_conv numeral_eq_Suc)
  let ?seg = "\<lambda>acc. \<lparr>limit_low = 0xFFFF, base_low = 0, base_middle = 0, access = acc,
      granularity = 0xCF, base_high = 0\<rparr>"
  have t': "t' = [\<lparr>limit_low = 0, base_low = 0, base_middle = 0, access = 0, granularity = 0, base_high = 0\<rparr>,
      ?seg 0x9A, ?seg 0x92, ?seg 0xFA, ?seg 0xF2]" and p: "p = \<lparr>table_limit = 39, table_base = gdt_addr\<rparr>"
    using assms(2) by (simp_all add: gdt_install_def Let_def t gdt_set_gate_def GDT_ENTRIES_def)
  have seg: "segment_base (?seg acc) = 0" "segment_limit (?seg acc) = 0xFFFFFFFF" for acc
    by (simp_all add: segment_base_def segment_limit_def segment_limit_field_def)
  show ?thesis
    using seg by (simp add: t' p) (simp add: segment_limit_def segment_limit_field_def)
qed

theorem gdt_install_flat_witness:
  "segment_limit (fst (gdt_install 0x1000 (replicate 5 \<lparr>limit_low = 0, base_low = 0, base_middle = 0,
     access = 0, granularity = 0, base_high = 0\<rparr>)) ! 2) = 0xFFFFFFFF"
  using gdt_install_flat [of "replicate 5 \<lparr>limit_low = 0, base_low = 0, base_middle = 0,
     access = 0, granularity = 0, base_high = 0\<rparr>" "0x1000", OF _ prod.collapse [symmetric]] by simp

end
