(* ===== verification/Port_Io.thy ===== *)
theory Port_Io
  imports Kernel_Prelude
begin

text \<open>
  The port instructions of \<open>kernel/cpu/ports.c\<close>. A driver's conversation with the hardware is
  the list of its port accesses. The devices are not code of the repository: a device is a
  parameter, a function from the accesses so far and a port to the value the port has, so a
  read may depend on everything written before.
\<close>

datatype port_event =
    Out8 u16 u8 | Out16 u16 u16 | Out32 u16 u32
  | In8 u16 u8 | In16 u16 u16 | In32 u16 u32

type_synonym ports = "port_event list"
type_synonym device = "ports \<Rightarrow> u16 \<Rightarrow> u32"

definition inb :: "device \<Rightarrow> u16 \<Rightarrow> ports \<Rightarrow> u8 \<times> ports" where
  "inb dev port io = (let result = ucast (dev io port) in (result, io @ [In8 port result]))"

definition inw :: "device \<Rightarrow> u16 \<Rightarrow> ports \<Rightarrow> u16 \<times> ports" where
  "inw dev port io = (let result = ucast (dev io port) in (result, io @ [In16 port result]))"

definition inl :: "device \<Rightarrow> u32 \<Rightarrow> ports \<Rightarrow> u32 \<times> ports" where
  "inl dev port io = (let result = dev io (ucast port) in (result, io @ [In32 (ucast port) result]))"

definition outb :: "u16 \<Rightarrow> u8 \<Rightarrow> ports \<Rightarrow> ports" where
  "outb port data io = io @ [Out8 port data]"

definition outw :: "u16 \<Rightarrow> u16 \<Rightarrow> ports \<Rightarrow> ports" where
  "outw port data io = io @ [Out16 port data]"

definition outl :: "u32 \<Rightarrow> u32 \<Rightarrow> ports \<Rightarrow> ports" where
  "outl port val io = io @ [Out32 (ucast port) val]"

end
