(* ===== verification/Interrupts.thy ===== *)
theory Interrupts
  imports Descriptor_Tables Port_Io
begin

text \<open>
  Interrupt installation and dispatch of \<open>kernel/cpu/isr.c\<close>. \<open>isr_install\<close> fills the gates
  with the addresses of the assembly stubs, which are parameters, and programs the two 8259
  interrupt controllers; \<open>irq_handler\<close> and \<open>isr_handler\<close> look up the handler table. A handler
  is a function on the ports and on the rest of the state, so it is a parameter here; reading
  the table outside its 256 entries has no value (\<open>None\<close>). The section on the controller
  states what it does with the bytes it is sent.
\<close>

subsection \<open>The code\<close>

record registers_t =
  r_ds :: u32
  r_edi :: u32
  r_esi :: u32
  r_ebp :: u32
  r_useless :: u32
  r_ebx :: u32
  r_edx :: u32
  r_ecx :: u32
  r_eax :: u32
  int_no :: u32
  err_code :: u32
  r_eip :: u32
  r_cs :: u32
  r_eflags :: u32
  r_esp :: u32
  r_ss :: u32

type_synonym 's isr_t = "registers_t \<Rightarrow> ports \<times> 's \<Rightarrow> ports \<times> 's"

text \<open>One call of \<open>set_idt_gate\<close> for each stub, in the order of the code.\<close>

definition install_stubs :: "nat \<Rightarrow> (nat \<Rightarrow> u32) \<Rightarrow> nat \<Rightarrow> idt_gate list \<Rightarrow> idt_gate list" where
  "install_stubs first stub n t = fold (\<lambda>i. set_idt_gate (first + i) (stub i)) [0..<n] t"

definition remap_pic :: "ports \<Rightarrow> ports" where
  "remap_pic io =
     (let io = outb 0x20 0x11 io; io = outb 0xA0 0x11 io;
          io = outb 0x21 0x20 io; io = outb 0xA1 0x28 io;
          io = outb 0x21 0x04 io; io = outb 0xA1 0x02 io;
          io = outb 0x21 0x01 io; io = outb 0xA1 0x01 io;
          io = outb 0x21 0x0 io; io = outb 0xA1 0x0 io
      in io)"

definition isr_install :: "(nat \<Rightarrow> u32) \<Rightarrow> (nat \<Rightarrow> u32) \<Rightarrow> u32 \<Rightarrow> idt_gate list \<times> ports \<Rightarrow>
    idt_gate list \<times> table_ptr \<times> ports" where
  "isr_install isr irq idt_addr = (\<lambda>(t, io).
     let t = install_stubs 0 isr 32 t;
         io = remap_pic io;
         t = install_stubs 32 irq 16 t
     in (t, set_idt idt_addr, io))"

definition exception_messages :: "string list" where
  "exception_messages =
     [''Division By Zero'', ''Debug'', ''Non Maskable Interrupt'', ''Breakpoint'',
      ''Into Detected Overflow'', ''Out of Bounds'', ''Invalid Opcode'', ''No Coprocessor'',
      ''Double Fault'', ''Coprocessor Segment Overrun'', ''Bad TSS'', ''Segment Not Present'',
      ''Stack Fault'', ''General Protection Fault'', ''Page Fault'', ''Unknown Interrupt'',
      ''Coprocessor Fault'', ''Alignment Check'', ''Machine Check'', ''Reserved'', ''Reserved'',
      ''Reserved'', ''Reserved'', ''Reserved'', ''Reserved'', ''Reserved'', ''Reserved'',
      ''Reserved'', ''Reserved'', ''Reserved'', ''Reserved'', ''Reserved'']"

definition register_interrupt_handler :: "u8 \<Rightarrow> 's isr_t \<Rightarrow> 's isr_t option list \<Rightarrow> 's isr_t option list" where
  "register_interrupt_handler n handler hs = hs[unat n := Some handler]"

text \<open>\<open>pf\<close> is \<open>printf\<close> with its format and arguments.\<close>

definition isr_handler :: "'s isr_t option list \<Rightarrow> (string \<Rightarrow> u32 list \<Rightarrow> ports \<times> 's \<Rightarrow> ports \<times> 's) \<Rightarrow>
    registers_t \<Rightarrow> ports \<times> 's \<Rightarrow> (ports \<times> 's) option" where
  "isr_handler hs pf r s =
     (if unat (int_no r) < length hs then
        (case hs ! unat (int_no r) of
           Some handler \<Rightarrow> Some (handler r s)
         | None \<Rightarrow> Some (pf ''Recieved interrupt without a handler: %d\<newline>'' [int_no r] s))
      else None)"

definition irq_handler :: "'s isr_t option list \<Rightarrow> registers_t \<Rightarrow> ports \<times> 's \<Rightarrow> (ports \<times> 's) option" where
  "irq_handler hs r = (\<lambda>(io, s).
     let io = (if int_no r \<ge> 40 then outb 0xA0 0x20 io else io);
         io = outb 0x20 0x20 io
     in if unat (int_no r) < length hs then
          (case hs ! unat (int_no r) of
             Some handler \<Rightarrow> Some (handler r (io, s))
           | None \<Rightarrow> Some (io, s))
        else None)"

subsection \<open>The interrupt controller\<close>

text \<open>
  An 8259 at command port \<open>c\<close> and data port \<open>c + 1\<close>: after \<open>ICW1\<close> on the command port the data
  port takes the vector offset, the cascade byte and the mode byte, and then the mask; \<open>0x20\<close>
  on the command port ends an interrupt. This is the device's documented interface, used to
  state what the code's bytes mean.
\<close>

record pic =
  pic_offset :: u8
  pic_cascade :: u8
  pic_mode :: u8
  pic_mask :: u8
  pic_step :: nat
  pic_eois :: nat

definition pic_reset :: pic where
  "pic_reset = \<lparr>pic_offset = 0, pic_cascade = 0, pic_mode = 0, pic_mask = 0xFF, pic_step = 0, pic_eois = 0\<rparr>"

fun pic_event :: "u16 \<Rightarrow> port_event \<Rightarrow> pic \<Rightarrow> pic" where
  "pic_event c (Out8 port v) p =
     (if port = c then
        (if v = 0x11 then p\<lparr>pic_step := 2\<rparr>
         else if v = 0x20 then p\<lparr>pic_eois := Suc (pic_eois p)\<rparr> else p)
      else if port = c + 1 then
        (if pic_step p = 2 then p\<lparr>pic_offset := v, pic_step := 3\<rparr>
         else if pic_step p = 3 then p\<lparr>pic_cascade := v, pic_step := 4\<rparr>
         else if pic_step p = 4 then p\<lparr>pic_mode := v, pic_step := 0\<rparr>
         else p\<lparr>pic_mask := v\<rparr>)
      else p)"
| "pic_event c _ p = p"

definition pic_after :: "u16 \<Rightarrow> ports \<Rightarrow> pic" where
  "pic_after c io = fold (pic_event c) io pic_reset"

text \<open>The vector on which the pair of controllers delivers line \<open>n\<close>.\<close>

definition irq_vector :: "ports \<Rightarrow> nat \<Rightarrow> nat" where
  "irq_vector io n = (if n < 8 then unat (pic_offset (pic_after 0x20 io)) + n
     else unat (pic_offset (pic_after 0xA0 io)) + (n - 8))"

lemma pic_after_outb: "pic_after c (outb port v io) = pic_event c (Out8 port v) (pic_after c io)"
  by (simp add: pic_after_def outb_def)

lemma install_stubs_Suc:
  "install_stubs first stub (Suc n) t = set_idt_gate (first + n) (stub n) (install_stubs first stub n t)"
  by (simp add: install_stubs_def)

lemma length_install_stubs [simp]: "length (install_stubs first stub n t) = length t"
  by (induction n) (simp_all add: install_stubs_Suc set_idt_gate_def, simp add: install_stubs_def)

lemma interrupt_gate_set: "n < length t \<Longrightarrow> interrupt_gate (set_idt_gate n h t ! n)"
proof -
  have "(0x8E :: u8) AND 0x1F = 0x0E" "bit (0x8E :: u8) 7" by simp_all
  then show "n < length t \<Longrightarrow> ?thesis" by (simp add: set_idt_gate_def interrupt_gate_def KERNEL_CS_def)
qed

lemma install_stubs_gate:
  "first + n \<le> length t \<Longrightarrow> k < n \<Longrightarrow>
     gate_handler (install_stubs first stub n t ! (first + k)) = stub k
     \<and> interrupt_gate (install_stubs first stub n t ! (first + k))"
proof (induction n)
  case (Suc n)
  show ?case
  proof (cases "k = n")
    case True
    then show ?thesis
      using Suc.prems(1) by (simp add: install_stubs_Suc gate_handler_set interrupt_gate_set)
  next
    case False
    then have "install_stubs first stub (Suc n) t ! (first + k) = install_stubs first stub n t ! (first + k)"
      by (simp add: install_stubs_Suc set_idt_gate_def)
    then show ?thesis using Suc.IH Suc.prems False by simp
  qed
qed simp

lemma install_stubs_other:
  "k < first \<or> first + n \<le> k \<Longrightarrow> install_stubs first stub n t ! k = t ! k"
  by (induction n) (auto simp: install_stubs_Suc set_idt_gate_def, simp_all add: install_stubs_def)

lemma remap_pic_state:
  "pic_after 0x20 (remap_pic io) = (pic_after 0x20 io)\<lparr>pic_offset := 0x20, pic_cascade := 4, pic_mode := 1,
     pic_mask := 0, pic_step := 0\<rparr>"
  "pic_after 0xA0 (remap_pic io) = (pic_after 0xA0 io)\<lparr>pic_offset := 0x28, pic_cascade := 2, pic_mode := 1,
     pic_mask := 0, pic_step := 0\<rparr>"
  by (simp_all add: remap_pic_def Let_def pic_after_outb)

subsection \<open>Properties\<close>

text \<open>C28: After \<open>isr_install\<close> every CPU exception reaches its stub, and every line of the two
  interrupt controllers is unmasked and is delivered on the vector whose gate holds the stub of
  that line, in the kernel's code segment, although the code writes the offsets and the gate numbers independently.\<close>

theorem isr_install_routes:
  assumes "length t = 256" and "isr_install isr irq idt_addr (t, io) = (t', p, io')"
  shows "(\<forall>n < 32. gate_handler (t' ! n) = isr n \<and> interrupt_gate (t' ! n))
    \<and> (\<forall>n < 16. irq_vector io' n < 256 \<and> gate_handler (t' ! irq_vector io' n) = irq n
        \<and> interrupt_gate (t' ! irq_vector io' n))
    \<and> pic_mask (pic_after 0x20 io') = 0 \<and> pic_mask (pic_after 0xA0 io') = 0
    \<and> (\<forall>n. 48 \<le> n \<longrightarrow> t' ! n = t ! n)"
proof -
  have t': "t' = install_stubs 32 irq 16 (install_stubs 0 isr 32 t)" and io': "io' = remap_pic io"
    using assms(2) by (simp_all add: isr_install_def Let_def)
  have "gate_handler (t' ! n) = isr n \<and> interrupt_gate (t' ! n)" if "n < 32" for n
    using install_stubs_gate [of 0 32 t n isr] assms(1) that by (simp add: t' install_stubs_other)
  moreover have "irq_vector io' n = 32 + n" if "n < 16" for n
    using that by (simp add: irq_vector_def io' remap_pic_state)
  moreover have "gate_handler (t' ! (32 + n)) = irq n \<and> interrupt_gate (t' ! (32 + n))" if "n < 16" for n
    using install_stubs_gate [of 32 16 "install_stubs 0 isr 32 t" n irq] assms(1) that by (simp add: t')
  moreover have "t' ! n = t ! n" if "48 \<le> n" for n
    using that by (simp add: t' install_stubs_other)
  ultimately show ?thesis by (simp add: io' remap_pic_state)
qed

definition blank_idt :: "idt_gate list" where
  "blank_idt = replicate 256 \<lparr>low_offset = 0, sel = 0, always0 = 0, flags = 0, high_offset = 0\<rparr>"

theorem isr_install_routes_witness:
  "let (t, p, io) = isr_install (\<lambda>n. 0x1000 + 16 * of_nat n) (\<lambda>n. 0x2000 + 16 * of_nat n) 0x5000 (blank_idt, [])
   in gate_handler (t ! irq_vector io 12) = 0x20C0"
proof -
  obtain t p io where r: "isr_install (\<lambda>n. 0x1000 + 16 * of_nat n) (\<lambda>n. 0x2000 + 16 * of_nat n) 0x5000
      (blank_idt, []) = (t, p, io)" by (metis surj_pair)
  from isr_install_routes [OF _ this] have "gate_handler (t ! irq_vector io 12) = 0x20C0"
    by (simp add: blank_idt_def)
  then show ?thesis by (simp add: r)
qed

text \<open>C20: \<open>irq_handler\<close> ends the interrupt at the master controller exactly once, and at the slave
  exactly once when the vector belongs to it and never otherwise, before the handler runs; then
  it runs the registered handler once, on the registers it was given, or nothing when none is
  registered.\<close>

theorem irq_handler_acknowledges:
  assumes "length hs = 256" and "int_no r < 256"
  shows "\<exists>io'. irq_handler hs r (io, s)
      = Some (case hs ! unat (int_no r) of Some h \<Rightarrow> h r (io', s) | None \<Rightarrow> (io', s))
    \<and> pic_after 0x20 io' = (pic_after 0x20 io)\<lparr>pic_eois := Suc (pic_eois (pic_after 0x20 io))\<rparr>
    \<and> pic_after 0xA0 io' = (if 40 \<le> unat (int_no r)
        then (pic_after 0xA0 io)\<lparr>pic_eois := Suc (pic_eois (pic_after 0xA0 io))\<rparr> else pic_after 0xA0 io)"
proof -
  let ?io = "outb 0x20 0x20 (if int_no r \<ge> 40 then outb 0xA0 0x20 io else io)"
  have i: "unat (int_no r) < length hs" "40 \<le> int_no r \<longleftrightarrow> 40 \<le> unat (int_no r)"
    using assms by (simp_all add: word_less_nat_alt word_le_nat_alt)
  have "irq_handler hs r (io, s) = Some (case hs ! unat (int_no r) of Some h \<Rightarrow> h r (?io, s) | None \<Rightarrow> (?io, s))"
    using i(1) by (simp add: irq_handler_def Let_def split: option.split)
  moreover have "pic_after 0x20 ?io = (pic_after 0x20 io)\<lparr>pic_eois := Suc (pic_eois (pic_after 0x20 io))\<rparr>"
    "pic_after 0xA0 ?io = (if 40 \<le> unat (int_no r)
        then (pic_after 0xA0 io)\<lparr>pic_eois := Suc (pic_eois (pic_after 0xA0 io))\<rparr> else pic_after 0xA0 io)"
    using i(2) by (auto simp: pic_after_outb)
  ultimately show ?thesis by blast
qed

definition timer_registers :: "u32 \<Rightarrow> registers_t" where
  "timer_registers n = \<lparr>r_ds = 0, r_edi = 0, r_esi = 0, r_ebp = 0, r_useless = 0, r_ebx = 0, r_edx = 0,
     r_ecx = 0, r_eax = 0, int_no = n, err_code = 0, r_eip = 0, r_cs = 0, r_eflags = 0, r_esp = 0, r_ss = 0\<rparr>"

theorem irq_handler_acknowledges_witness:
  "\<exists>io'. irq_handler (register_interrupt_handler 44 (\<lambda>r (io, n). (io, n + 1)) (replicate 256 None))
     (timer_registers 44) ([], 0 :: nat) = Some (io', 1)"
  using irq_handler_acknowledges [of "register_interrupt_handler 44 (\<lambda>r (io, n). (io, n + 1)) (replicate 256 None)"
      "timer_registers 44" "[]" "0 :: nat"]
  by (auto simp: register_interrupt_handler_def timer_registers_def)

end
