(* ===== verification/Paging.thy ===== *)
theory Paging
  imports Heap_Create Interrupts
begin

text \<open>
  The rest of \<open>kernel/cpu/paging/paging.c\<close>: building the kernel's page directory, enabling paging,
  cloning directories and tables, and the page fault handler. \<open>copy_page_physical\<close> is the routine of
  \<open>process.asm\<close>. Until paging is enabled an address is physical; from then on memory is what the
  directory in \<open>cr3\<close> makes of it.
\<close>

subsection \<open>Address translation\<close>

text \<open>The processor's two-level translation, for the directory at the physical address \<open>cr3\<close>.\<close>

definition translate :: "mem \<Rightarrow> u32 \<Rightarrow> u32 \<Rightarrow> u32" where
  "translate m cr3 a =
     (let pde = load32 m (cr3 + 4 * (a div 0x400000));
          pte = load32 m ((pde AND 0xFFFFF000) + 4 * (a div 0x1000 mod 1024))
      in (pte AND 0xFFFFF000) + a mod 0x1000)"

definition page_present :: "mem \<Rightarrow> u32 \<Rightarrow> u32 \<Rightarrow> bool" where
  "page_present m cr3 a =
     (let pde = load32 m (cr3 + 4 * (a div 0x400000))
      in bit pde 0 \<and> bit (load32 m ((pde AND 0xFFFFF000) + 4 * (a div 0x1000 mod 1024))) 0)"

definition virtual_memory :: "u32 \<Rightarrow> mem \<Rightarrow> mem" where
  "virtual_memory cr3 m = (\<lambda>a. m (translate m cr3 a))"

subsection \<open>The code\<close>

definition sizeof_page_table :: u32 where "sizeof_page_table = 4096"
definition sizeof_page_directory :: u32 where "sizeof_page_directory = 8196"

text \<open>The result is the value for \<open>cr3\<close>, and the state.\<close>

definition switch_page_directory :: "u32 \<Rightarrow> kstate \<Rightarrow> u32 \<times> kstate" where
  "switch_page_directory dir s = (dir_physicalAddr (memory s) dir, s\<lparr>current_directory := dir\<rparr>)"

definition copy_page_physical :: "u32 \<Rightarrow> u32 \<Rightarrow> mem \<Rightarrow> mem" where
  "copy_page_physical src dest m =
     fold (\<lambda>i m. store32 m (dest + 4 * of_nat i) (load32 m (src + 4 * of_nat i))) [0..<1024] m"

definition copy_flag :: "nat \<Rightarrow> u32 \<Rightarrow> u32 \<Rightarrow> kstate \<Rightarrow> kstate" where
  "copy_flag n from_page to_page s =
     (if bit (load32 (memory s) from_page) n
      then upd_mem (\<lambda>m. store32 m to_page (put_flag n True (load32 m to_page))) s else s)"

fun clone_pages :: "u32 \<Rightarrow> u32 \<Rightarrow> nat list \<Rightarrow> kstate \<Rightarrow> kstate option" where
  "clone_pages src table [] s = Some s"
| "clone_pages src table (i # is) s =
     (let page = src + 4 * of_nat i; copy = table + 4 * of_nat i
      in if pg_frame (load32 (memory s) page) = 0 then clone_pages src table is s
         else Option.bind (alloc_frame copy False False s) (\<lambda>s.
           let s = copy_flag 0 page copy s; s = copy_flag 1 page copy s; s = copy_flag 2 page copy s;
               s = copy_flag 3 page copy s; s = copy_flag 4 page copy s;
               s = upd_mem (\<lambda>m. copy_page_physical (pg_frame (load32 m page) * 0x1000)
                     (pg_frame (load32 m copy) * 0x1000) m) s
           in clone_pages src table is s))"

text \<open>The table, the word stored through \<open>physicalAddress\<close>, and the state.\<close>

definition clone_table :: "nat \<Rightarrow> u32 \<Rightarrow> kstate \<Rightarrow> (u32 \<times> u32 \<times> kstate) option" where
  "clone_table fuel src s =
     Option.bind (kmalloc_ap fuel sizeof_page_table s) (\<lambda>(table, physicalAddress, s).
       let s = upd_mem (\<lambda>m. snd (memset table 0 sizeof_page_table m)) s
       in map_option (\<lambda>s. (table, physicalAddress, s)) (clone_pages src table [0..<1024] s))"

definition set_dir_table :: "u32 \<Rightarrow> nat \<Rightarrow> u32 \<Rightarrow> u32 \<Rightarrow> mem \<Rightarrow> mem" where
  "set_dir_table dir i table phys m =
     store32 (store32 m (dir + 4 * of_nat i) table) (dir + 4096 + 4 * of_nat i) phys"

fun clone_tables :: "nat \<Rightarrow> u32 \<Rightarrow> u32 \<Rightarrow> nat list \<Rightarrow> kstate \<Rightarrow> kstate option" where
  "clone_tables fuel src dir [] s = Some s"
| "clone_tables fuel src dir (i # is) s =
     (let table = dir_table (memory s) src (of_nat i)
      in if table = 0 then clone_tables fuel src dir is s
         else if dir_table (memory s) (kernel_directory s) (of_nat i) = table then
           clone_tables fuel src dir is
             (upd_mem (\<lambda>m. set_dir_table dir i table (dir_table_phys m src (of_nat i)) m) s)
         else Option.bind (clone_table fuel table s) (\<lambda>(copy, phys, s).
           clone_tables fuel src dir is (upd_mem (set_dir_table dir i copy (phys OR 0x07)) s)))"

definition clone_directory :: "nat \<Rightarrow> u32 \<Rightarrow> kstate \<Rightarrow> (u32 \<times> kstate) option" where
  "clone_directory fuel src s =
     Option.bind (kmalloc_ap fuel sizeof_page_directory s) (\<lambda>(dir, physical, s).
       let s = upd_mem (\<lambda>m. snd (memset dir 0 sizeof_page_directory m)) s;
           off = (dir + 4096) - dir;
           s = upd_mem (\<lambda>m. store32 m (dir + 8192) (physical + off)) s
       in map_option (Pair dir) (clone_tables fuel src dir [0..<1024] s))"

text \<open>The loops over pages: over a range, and up to a \<open>free_mem_addr\<close> that moves.\<close>

partial_function (option) for_pages :: "(u32 \<Rightarrow> kstate \<Rightarrow> kstate option) \<Rightarrow> u32 \<Rightarrow> u32 \<Rightarrow> kstate \<Rightarrow> kstate option" where
  "for_pages f i last_addr s =
     (if i < last_addr then Option.bind (f i s) (for_pages f (i + 0x1000) last_addr) else Some s)"

definition touch_page :: "nat \<Rightarrow> u32 \<Rightarrow> kstate \<Rightarrow> kstate option" where
  "touch_page fuel i s = map_option snd (get_page (kmalloc_ap fuel) i True (kernel_directory s) s)"

definition map_page :: "nat \<Rightarrow> u32 \<Rightarrow> kstate \<Rightarrow> kstate option" where
  "map_page fuel i s = Option.bind (get_page (kmalloc_ap fuel) i True (kernel_directory s) s)
     (\<lambda>(page, s). alloc_frame page False False s)"

partial_function (option) identity_map :: "nat \<Rightarrow> u32 \<Rightarrow> kstate \<Rightarrow> kstate option" where
  "identity_map fuel i s =
     (if i < free_mem_addr s + 0x1000 then Option.bind (map_page fuel i s) (identity_map fuel (i + 0x1000)) else Some s)"

text \<open>Up to the point where paging is enabled.\<close>

definition build_kernel_directory :: "nat \<Rightarrow> kstate \<Rightarrow> kstate option" where
  "build_kernel_directory fuel s =
     (let mem_end_page = 0x1000000; s = s\<lparr>nframes := mem_end_page div 0x1000\<rparr>
      in Option.bind (kmalloc fuel (INDEX_FROM_BIT (nframes s)) s) (\<lambda>(a, s).
         let s = s\<lparr>frames := a\<rparr>;
             s = upd_mem (\<lambda>m. snd (memset a 0 (INDEX_FROM_BIT (nframes s)) m)) s
         in Option.bind (kmalloc_a fuel sizeof_page_directory s) (\<lambda>(dir, s).
            let s = s\<lparr>kernel_directory := dir\<rparr>;
                s = upd_mem (\<lambda>m. snd (memset dir 0 sizeof_page_directory m)) s;
                s = upd_mem (\<lambda>m. store32 m (dir + 8192) (dir + 4096)) s
            in Option.bind (for_pages (touch_page fuel) KHEAP_START (KHEAP_START + KHEAP_INITIAL_SIZE) s) (\<lambda>s.
               Option.bind (identity_map fuel 0 s)
                 (for_pages (map_page fuel) KHEAP_START (KHEAP_START + KHEAP_INITIAL_SIZE))))))"

text \<open>\<open>less_than_fn\<close> is the address of \<open>header_t_less_than\<close>; the result has the handlers, \<open>cr3\<close> and the state.\<close>

definition initialise_paging :: "nat \<Rightarrow> u32 \<Rightarrow> 's isr_t \<Rightarrow> 's isr_t option list \<Rightarrow> kstate \<Rightarrow>
    ('s isr_t option list \<times> u32 \<times> kstate) option" where
  "initialise_paging fuel less_than_fn page_fault_cb hs s =
     Option.bind (build_kernel_directory fuel s) (\<lambda>s.
       let hs = register_interrupt_handler 14 page_fault_cb hs;
           (cr3, s) = switch_page_directory (kernel_directory s) s;
           s = upd_mem (virtual_memory cr3) s
       in Option.bind (create_heap fuel less_than_fn KHEAP_START (KHEAP_START + KHEAP_INITIAL_SIZE) 0xCFFFF000 0 0 s) (\<lambda>(heap, s).
          let s = s\<lparr>kheap := heap\<rparr>
          in map_option (\<lambda>(dir, s). let s = s\<lparr>current_directory := dir\<rparr>; (cr3, s) = switch_page_directory dir s in (hs, cr3, s))
               (clone_directory fuel (kernel_directory s) s)))"

text \<open>\<open>page_fault\<close> prints and then halts for ever: the state is the one it halts in.\<close>

definition page_fault :: "u32 \<Rightarrow> registers_t \<Rightarrow> kstate \<Rightarrow> kstate" where
  "page_fault cr2 regs s =
     (let present = (err_code regs AND 0x1 = 0); rw = (err_code regs AND 0x2 \<noteq> 0); us = (err_code regs AND 0x4 \<noteq> 0);
          reserved = (err_code regs AND 0x8 \<noteq> 0); ident = (err_code regs AND 0x10 \<noteq> 0);
          s = printf_s ''Page fault ('' [] s;
          s = printf_s (if present then ''present (protected), '' else ''not present, '') [] s;
          s = printf_s (if rw then ''writing, '' else ''reading, '') [] s;
          s = (if us then printf_s ''user-mode, '' [] s else s);
          s = (if reserved then printf_s ''reserved, '' [] s else s);
          s = (if ident then printf_s ''instruction fetch, '' [] s else s);
          s = s\<lparr>console := console s @ [Printf_Backspace, Printf_Backspace]\<rparr>;
          s = printf_s ''), address: %x\<newline>'' [cr2] s;
          s = printf_s ''Dumping registers:\<newline>'' [] s;
          s = printf_s ''EAX: %x, EBX: %x, ECX: %x, EDC: %x\<newline>'' [r_eax regs, r_ebx regs, r_ecx regs, r_edx regs] s;
          s = printf_s ''EFLAGS: %x, EIP: %x, ESP: %x, EBP: %x\<newline>'' [r_eflags regs, r_eip regs, r_esp regs, r_ebp regs] s
      in printf_s ''EDI: %x, ESI: %x, CS: %x, DS: %x\<newline>'' [r_eflags regs, r_eip regs, r_cs regs, r_ds regs] s)"

end
