(* ===== verification/Paging_Maps.thy ===== *)
theory Paging_Maps
  imports Paging
begin

text \<open>
  What \<open>initialise_paging\<close> achieves before it enables paging: the directory it builds maps every page in
  use to itself and the heap's pages to the frames that follow. \<open>dir_ok\<close> is the shape of the directory
  while tables come from the early allocator, \<open>maps\<close> lists the mapped pages, in the order of
  their frames.
\<close>

subsection \<open>Taking the next frame\<close>

text \<open>With exactly the first \<open>n\<close> frames in use, \<open>alloc_frame\<close> takes frame \<open>n\<close>.\<close>

lemma alloc_frame_next:
  assumes ok: "bitmap_ok s" and ap: "page_apart page s" and no: "pg_frame (load32 (memory s) page) = 0"
    and used: "\<And>f. tracked s f \<Longrightarrow> frame_used s f \<longleftrightarrow> f < n" and n: "tracked s n"
  shows "\<exists>s'. alloc_frame page k w s = Some s' \<and> pg_frame (load32 (memory s') page) = of_nat n
    \<and> pg_present (load32 (memory s') page) \<and> (\<forall>f. tracked s f \<longrightarrow> (frame_used s' f \<longleftrightarrow> f < Suc n))
    \<and> (\<exists>m. s' = s\<lparr>memory := m\<rparr>)
    \<and> (\<forall>a. \<not> within page 4 a \<longrightarrow> \<not> within (frames s) (4 * (unat (nframes s) div 32)) a \<longrightarrow> memory s' a = memory s a)"
proof -
  have "first_frame s \<noteq> None" using first_frame_none [OF _ ok n] used [OF n] by auto
  then obtain idx where idx: "first_frame s = Some idx" by blast
  note t = first_frame_some [OF idx ok]
  have u: "unat idx = n"
  proof (rule linorder_cases)
    show ?thesis if "unat idx < n" using t used [of "unat idx"] that by blast
    show ?thesis if "n < unat idx" using t used [OF n] that by blast
  qed
  then have i: "idx = of_nat n" by auto
  note n20 = tracked_bound [OF ok n]
  obtain s' where s': "alloc_frame page k w s = Some s'" "pg_frame (load32 (memory s') page) = idx"
    "pg_present (load32 (memory s') page)" "\<And>f. tracked s f \<Longrightarrow> frame_used s' f \<longleftrightarrow> f = unat idx \<or> frame_used s f"
    using alloc_frame_takes_lowest [OF ok ap no idx, of k w] by metis
  have "idx \<noteq> - 1"
  proof
    assume "idx = - 1"
    then have "unat idx = 4294967295" by (simp add: unsigned_minus_1_eq_mask mask_eq_exp_minus_1)
    then show False using u n20 by simp
  qed
  then have e: "s' = upd_mem (\<lambda>m. store32 m page (put_frame idx (put_flag 2 (\<not> k) (put_flag 1 w
      (put_flag 0 True (load32 m page)))))) (set_frame (idx * 0x1000) s)"
    using s'(1) no idx by (simp add: alloc_frame_def Let_def)
  have set: "set_frame (idx * 0x1000) s
      = upd_mem (\<lambda>m. store32 m (frames s + 4 * of_nat (n div 32)) (frame_word s (of_nat (n div 32)) OR push_bit (n mod 32) 1)) s"
    unfolding i by (simp add: set_frame_def frame_index [OF n20] Let_def)
  have slot: "within (frames s) (4 * (unat (nframes s) div 32)) a" if "within (frames s + 4 * of_nat (n div 32)) 4 a" for a
    using slot_within [OF _ tracked_word [OF n] that] ok by (simp add: bitmap_ok_def)
  have "memory s' a = memory s a"
    if "\<not> within page 4 a" "\<not> within (frames s) (4 * (unat (nframes s) div 32)) a" for a
    using that slot [of a] unfolding e set by (cases "within (frames s + 4 * of_nat (n div 32)) 4 a") (simp_all add: store32_other)
  moreover have "\<exists>m. s' = s\<lparr>memory := m\<rparr>" unfolding e set by (auto simp: upd_mem_def)
  ultimately show ?thesis using s' u i used by (auto simp: less_Suc_eq)
qed

subsection \<open>The directory and its regions\<close>

definition tbl :: "u32 \<Rightarrow> kstate \<Rightarrow> nat \<Rightarrow> u32" where
  "tbl D s j = dir_table (memory s) D (of_nat j)"

definition entry_at :: "u32 \<Rightarrow> kstate \<Rightarrow> nat \<Rightarrow> u32" where
  "entry_at D s p = tbl D s (p div 1024) + 4 * of_nat (p mod 1024)"

text \<open>Below the bitmap and behind the allocator's position memory is still \<open>M\<close>.\<close>

definition kept :: "mem \<Rightarrow> u32 \<Rightarrow> kstate \<Rightarrow> bool" where
  "kept M F s \<longleftrightarrow> (\<forall>a. a < F \<or> free_mem_addr s \<le> a \<longrightarrow> memory s a = M a)"

definition dir_ok :: "u32 \<Rightarrow> u32 \<Rightarrow> mem \<Rightarrow> kstate \<Rightarrow> bool" where
  "dir_ok D F M s \<longleftrightarrow> kept M F s \<and> kheap s = 0 \<and> kernel_directory s = D \<and> frames s = F \<and> nframes s = 0x1000
     \<and> dir_physicalAddr (memory s) D = D + 4096 \<and> unat (free_mem_addr s) mod 4096 = 0 \<and> unat F + 512 \<le> unat D \<and> unat D + 0x3000 \<le> unat (free_mem_addr s)
     \<and> (\<forall>j<1024. tbl D s j \<noteq> 0 \<longrightarrow> unat (tbl D s j) mod 4096 = 0 \<and> unat D + 0x3000 \<le> unat (tbl D s j)
          \<and> unat (tbl D s j) + 4096 \<le> unat (free_mem_addr s)
          \<and> dir_table_phys (memory s) D (of_nat j) = tbl D s j OR 7)
     \<and> (\<forall>j<1024. \<forall>k<1024. tbl D s j = tbl D s k \<longrightarrow> tbl D s j \<noteq> 0 \<longrightarrow> j = k)"

definition maps :: "u32 \<Rightarrow> nat list \<Rightarrow> kstate \<Rightarrow> bool" where
  "maps D ps s \<longleftrightarrow> distinct ps \<and> length ps \<le> 4096
     \<and> (\<forall>f<4096. frame_used s f \<longleftrightarrow> f < length ps)
     \<and> (\<forall>p<1048576. tbl D s (p div 1024) \<noteq> 0 \<longrightarrow> p \<notin> set ps \<longrightarrow> load32 (memory s) (entry_at D s p) = 0)
     \<and> (\<forall>n<length ps. ps ! n < 1048576 \<and> tbl D s (ps ! n div 1024) \<noteq> 0
          \<and> pg_frame (load32 (memory s) (entry_at D s (ps ! n))) = of_nat n
          \<and> pg_present (load32 (memory s) (entry_at D s (ps ! n))))"

lemma word_slot_within:
  assumes "4 * k + 4 \<le> l" "l \<le> 4294967296" "within (b + 4 * of_nat k) 4 a"
  shows "within b l a"
proof -
  have "within b (4 * k + 4) a" using within_split [of "4 * k" 4 b a] assms by simp
  then show ?thesis using assms(1) by (rule within_mono)
qed

lemma dir_slot_within: "j < 1024 \<Longrightarrow> within (D + 4 * of_nat j) 4 a \<Longrightarrow> within D 8196 a"
  by (rule word_slot_within [of j]) simp_all

lemma dir_phys_within:
  assumes "j < 1024" "within (D + 4096 + 4 * of_nat j) 4 a"
  shows "within D 8196 a"
  using word_slot_within [of "1024 + j" 8196 D a] assms by (simp add: add.assoc distrib_left)

lemma phys_addr_within: "within (D + 8192) 4 a \<Longrightarrow> within D 8196 a"
  using word_slot_within [of 2048 8196 D a] by simp

lemma pages_apart: "(x::nat) mod 4096 = 0 \<Longrightarrow> y mod 4096 = 0 \<Longrightarrow> x \<noteq> y \<Longrightarrow> x + 4096 \<le> y \<or> y + 4096 \<le> x"
proof -
  assume "x mod 4096 = 0" "y mod 4096 = 0" "x \<noteq> y"
  then obtain i j where ij: "x = 4096 * i" "y = 4096 * j" by (auto elim!: dvdE)
  then have "i < j \<or> j < i" using \<open>x \<noteq> y\<close> by auto
  then show ?thesis using ij by auto
qed

lemma dir_ok_regions:
  assumes "dir_ok D F M s" "unat (free_mem_addr s) + 4096 < 4294967296"
  shows "apart F 512 D 8196" "apart (free_mem_addr s) 4096 D 8196" "apart (free_mem_addr s) 4096 F 512"
    and "j < 1024 \<Longrightarrow> tbl D s j \<noteq> 0 \<Longrightarrow> apart (tbl D s j) 4096 D 8196"
    and "j < 1024 \<Longrightarrow> tbl D s j \<noteq> 0 \<Longrightarrow> apart (tbl D s j) 4096 F 512"
    and "j < 1024 \<Longrightarrow> tbl D s j \<noteq> 0 \<Longrightarrow> apart (tbl D s j) 4096 (free_mem_addr s) 4096"
    and "j < 1024 \<Longrightarrow> k < 1024 \<Longrightarrow> j \<noteq> k \<Longrightarrow> tbl D s j \<noteq> 0 \<Longrightarrow> tbl D s k \<noteq> 0 \<Longrightarrow> apart (tbl D s j) 4096 (tbl D s k) 4096"
proof -
  have o: "unat F + 512 \<le> unat D" "unat D + 0x3000 \<le> unat (free_mem_addr s)"
    using assms(1) by (simp_all add: dir_ok_def)
  have t: "unat (tbl D s j) mod 4096 = 0" "unat D + 0x3000 \<le> unat (tbl D s j)" "unat (tbl D s j) + 4096 \<le> unat (free_mem_addr s)"
    if "j < 1024" "tbl D s j \<noteq> 0" for j using assms(1) that by (simp_all add: dir_ok_def)
  show "apart F 512 D 8196" by (rule apart_nat(1)) (use o assms(2) in linarith)+
  show "apart (free_mem_addr s) 4096 D 8196" by (rule apart_nat(2)) (use o assms(2) in linarith)+
  show "apart (free_mem_addr s) 4096 F 512" by (rule apart_nat(2)) (use o assms(2) in linarith)+
  show "apart (tbl D s j) 4096 D 8196" if "j < 1024" "tbl D s j \<noteq> 0"
    by (rule apart_nat(2)) (use o t [OF that] assms(2) in linarith)+
  show "apart (tbl D s j) 4096 F 512" if "j < 1024" "tbl D s j \<noteq> 0"
    by (rule apart_nat(2)) (use o t [OF that] assms(2) in linarith)+
  show "apart (tbl D s j) 4096 (free_mem_addr s) 4096" if "j < 1024" "tbl D s j \<noteq> 0"
    by (rule apart_nat(1)) (use o t [OF that] assms(2) in linarith)+
  show "apart (tbl D s j) 4096 (tbl D s k) 4096" if jk: "j < 1024" "k < 1024" "j \<noteq> k" "tbl D s j \<noteq> 0" "tbl D s k \<noteq> 0"
  proof -
    have "\<forall>j<1024. \<forall>k<1024. tbl D s j = tbl D s k \<longrightarrow> tbl D s j \<noteq> 0 \<longrightarrow> j = k"
      using assms(1) unfolding dir_ok_def by (elim conjE)
    then have "tbl D s j \<noteq> tbl D s k" using jk by blast
    then have "unat (tbl D s j) \<noteq> unat (tbl D s k)" by (simp add: word_unat_eq_iff)
    from pages_apart [OF t(1) [OF jk(1,4)] t(1) [OF jk(2,5)] this] show ?thesis
    proof
      assume "unat (tbl D s j) + 4096 \<le> unat (tbl D s k)"
      then show ?thesis by (rule apart_nat(1)) (use t(3) [OF jk(2,5)] assms(2) in linarith)
    next
      assume "unat (tbl D s k) + 4096 \<le> unat (tbl D s j)"
      then show ?thesis by (rule apart_nat(2)) (use t(3) [OF jk(1,4)] assms(2) in linarith)
    qed
  qed
qed

lemma dir_loads_cong:
  assumes "\<And>a. within D 8196 a \<Longrightarrow> memory s' a = memory s a" "j < 1024"
  shows "tbl D s' j = tbl D s j" "dir_table_phys (memory s') D (of_nat j) = dir_table_phys (memory s) D (of_nat j)"
    "dir_physicalAddr (memory s') D = dir_physicalAddr (memory s) D"
proof -
  show "dir_physicalAddr (memory s') D = dir_physicalAddr (memory s) D" unfolding dir_physicalAddr_def
    by (rule load32_cong) (use assms(1) phys_addr_within in blast)
  show "tbl D s' j = tbl D s j" unfolding tbl_def dir_table_def
    by (rule load32_cong) (use assms dir_slot_within in blast)
  show "dir_table_phys (memory s') D (of_nat j) = dir_table_phys (memory s) D (of_nat j)" unfolding dir_table_phys_def
    by (rule load32_cong) (use assms dir_phys_within in blast)
qed

lemma entry_within: "p < 1048576 \<Longrightarrow> within (entry_at D s p) 4 a \<Longrightarrow> within (tbl D s (p div 1024)) 4096 a"
  unfolding entry_at_def by (rule word_slot_within [of "p mod 1024"]) simp_all

lemma entry_cong:
  assumes "tbl D s' (p div 1024) = tbl D s (p div 1024)"
    and "\<And>a. within (entry_at D s p) 4 a \<Longrightarrow> memory s' a = memory s a"
  shows "load32 (memory s') (entry_at D s' p) = load32 (memory s) (entry_at D s p)"
  unfolding entry_at_def assms(1) by (rule load32_cong) (use assms(2) in \<open>simp add: entry_at_def\<close>)

lemma entries_apart:
  assumes "p < 1048576" "q < 1048576" "p \<noteq> q" "p div 1024 = q div 1024" "unat (tbl D s (p div 1024)) + 4096 \<le> 4294967296"
  shows "apart (entry_at D s p) 4 (entry_at D s q) 4"
proof -
  have "p mod 1024 \<noteq> q mod 1024" using assms(3,4) by (metis div_mult_mod_eq)
  then show ?thesis unfolding entry_at_def assms(4) [symmetric]
    by (intro slots_apart [where n = 1024]) (use assms(5) in simp_all)
qed

lemma frame_used_cong:
  assumes "\<And>a. within (frames s) 512 a \<Longrightarrow> memory s' a = memory s a" "frames s' = frames s" "f < 4096"
  shows "frame_used s' f \<longleftrightarrow> frame_used s f"
proof -
  have "frame_word s' (of_nat (f div 32)) = frame_word s (of_nat (f div 32))"
    unfolding frame_word_def assms(2)
    by (rule load32_cong) (use assms(1,3) word_slot_within [of "f div 32" 512] in fastforce)
  then show ?thesis by (simp add: frame_used_def)
qed

subsection \<open>Finding and making tables\<close>

lemma page_index:
  assumes "p < 1048576"
  shows "of_nat p * 0x1000 div 0x1000 = (of_nat p :: u32)" "of_nat p div 1024 = (of_nat (p div 1024) :: u32)"
    "of_nat p mod 1024 = (of_nat (p mod 1024) :: u32)"
  using assms frame_index(1) [OF assms]
  by (simp_all add: word_unat_eq_iff unat_div_distrib unat_mod_distrib unat_of_nat_small)

lemma get_page_present:
  "p < 1048576 \<Longrightarrow> tbl D s (p div 1024) \<noteq> 0 \<Longrightarrow>
     get_page f (of_nat p * 0x1000) mk D s = Some (entry_at D s p, s)"
  by (simp add: get_page_def page_index Let_def tbl_def entry_at_def)

text \<open>The memory after a new table \<open>T\<close> was entered at \<open>j\<close>.\<close>

definition with_table :: "u32 \<Rightarrow> nat \<Rightarrow> u32 \<Rightarrow> mem \<Rightarrow> mem" where
  "with_table D j T m = store32 (fill_bytes T 4096 0 (store32 m (D + 4 * of_nat j) T)) (D + 4096 + 4 * of_nat j) (T OR 7)"

lemma load32_fill_apart: "apart a n b 4 \<Longrightarrow> load32 (fill_bytes a n v m) b = load32 m b"
  by (rule load32_cong) (auto simp: fill_bytes_def apart_iff)

lemma with_table_reads:
  assumes ap: "apart T 4096 D 8196" and D: "unat D + 8196 \<le> 4294967296" and j: "j < 1024" and k: "k < 1024"
  shows "dir_table (with_table D j T m) D (of_nat k) = (if k = j then T else dir_table m D (of_nat k))"
    and "dir_table_phys (with_table D j T m) D (of_nat k) = (if k = j then T OR 7 else dir_table_phys m D (of_nat k))"
    and "dir_physicalAddr (with_table D j T m) D = dir_physicalAddr m D"
proof -
  have e3: "D + 8192 = D + 4 * of_nat 2048" by simp
  have t3: "apart T 4096 (D + 8192) 4" by (rule apart_sub [OF ap]) (use phys_addr_within in auto)
  have t1: "apart T 4096 (D + 4 * of_nat k) 4" by (rule apart_sub [OF ap]) (use dir_slot_within [OF k] in auto)
  have t2: "apart T 4096 (D + 4096 + 4 * of_nat k) 4" by (rule apart_sub [OF ap]) (use dir_phys_within [OF k] in auto)
  have e: "D + 4096 + 4 * of_nat i = D + 4 * of_nat (1024 + i)" for i by (simp add: distrib_left)
  have s1: "apart (D + 4096 + 4 * of_nat j) 4 (D + 4 * of_nat k) 4" "apart (D + 4 * of_nat j) 4 (D + 4096 + 4 * of_nat k) 4"
    unfolding e by (rule slots_apart [where n = 2049]; use D j k in simp)+
  have s2: "apart (D + 4 * of_nat j) 4 (D + 4 * of_nat k) 4" "apart (D + 4096 + 4 * of_nat j) 4 (D + 4096 + 4 * of_nat k) 4" if "k \<noteq> j"
    unfolding e by (rule slots_apart [where n = 2049]; use D j k that in simp)+
  have s3: "apart (D + 4 * of_nat j) 4 (D + 8192) 4" "apart (D + 4096 + 4 * of_nat j) 4 (D + 8192) 4"
    unfolding e e3 by (rule slots_apart [where n = 2049]; use D j in simp)+
  show "dir_physicalAddr (with_table D j T m) D = dir_physicalAddr m D"
    using s3 t3 by (simp add: dir_physicalAddr_def with_table_def load32_fill_apart mem_simps del: apart_same_base)
  show "dir_table (with_table D j T m) D (of_nat k) = (if k = j then T else dir_table m D (of_nat k))"
    using s1 s2 t1 by (auto simp: dir_table_def with_table_def load32_fill_apart mem_simps)
  show "dir_table_phys (with_table D j T m) D (of_nat k) = (if k = j then T OR 7 else dir_table_phys m D (of_nat k))"
    using s1 s2 t2 by (auto simp: dir_table_phys_def with_table_def load32_fill_apart mem_simps simp del: apart_same_base)
qed

lemma with_table_other:
  assumes "j < 1024" "\<not> within D 8196 a"
  shows "with_table D j T m a = (if within T 4096 a then 0 else m a)"
proof -
  have "\<not> within (D + 4 * of_nat j) 4 a" "\<not> within (D + 4096 + 4 * of_nat j) 4 a"
    using dir_slot_within [OF assms(1), of D a] dir_phys_within [OF assms(1), of D a] assms(2) by blast+
  then show ?thesis by (simp add: with_table_def fill_bytes_def store32_other)
qed

lemma get_page_new:
  assumes early: "kheap s = 0" and al: "unat (free_mem_addr s) mod 4096 = 0" and p: "p < 1048576"
    and none: "tbl D s (p div 1024) = 0" and D: "unat D + 8196 \<le> 4294967296"
    and ap: "apart (free_mem_addr s) 4096 D 8196"
  shows "get_page (kmalloc_ap fuel) (of_nat p * 0x1000) True D s =
    (let s' = s\<lparr>memory := with_table D (p div 1024) (free_mem_addr s) (memory s), free_mem_addr := free_mem_addr s + 4096\<rparr>
     in Some (entry_at D s' p, s'))"
proof -
  let ?T = "free_mem_addr s" and ?j = "p div 1024"
  have j: "?j < 1024" using p by simp
  have "?T AND 0xFFF = 0" using al by (simp add: low_mask word_unat_eq_iff unat_mod_distrib)
  then have km: "kmalloc_ap fuel 4096 s = Some (?T, ?T, s\<lparr>free_mem_addr := ?T + 4096\<rparr>)"
    using early by (simp add: kmalloc_ap_def kmalloc_int_early page_up_def Let_def)
  have m1: "dir_table (store32 (memory s) (D + 4 * of_nat ?j) ?T) D (of_nat ?j) = ?T"
    by (simp add: dir_table_def mem_simps)
  have ms: "snd (memset ?T 0 0x1000 m) = fill_bytes ?T 4096 0 m" for m by (simp add: memset_zero_fills)
  show ?thesis using none
    by (simp add: get_page_def page_index [OF p] km m1 ms tbl_def entry_at_def with_table_def upd_mem_def Let_def)
qed

lemma dir_okD:
  assumes "dir_ok D F M s"
  shows "kheap s = 0" "kernel_directory s = D" "frames s = F" "nframes s = 0x1000" "unat (free_mem_addr s) mod 4096 = 0"
    "unat F + 512 \<le> unat D" "unat D + 0x3000 \<le> unat (free_mem_addr s)"
    and "j < 1024 \<Longrightarrow> tbl D s j \<noteq> 0 \<Longrightarrow> unat (tbl D s j) mod 4096 = 0"
    and "j < 1024 \<Longrightarrow> tbl D s j \<noteq> 0 \<Longrightarrow> unat D + 0x3000 \<le> unat (tbl D s j)"
    and "j < 1024 \<Longrightarrow> tbl D s j \<noteq> 0 \<Longrightarrow> unat (tbl D s j) + 4096 \<le> unat (free_mem_addr s)"
    and "j < 1024 \<Longrightarrow> tbl D s j \<noteq> 0 \<Longrightarrow> dir_table_phys (memory s) D (of_nat j) = tbl D s j OR 7"
    and "j < 1024 \<Longrightarrow> k < 1024 \<Longrightarrow> tbl D s j = tbl D s k \<Longrightarrow> tbl D s j \<noteq> 0 \<Longrightarrow> j = k"
    and "dir_physicalAddr (memory s) D = D + 4096" "kept M F s"
proof -
  have inj: "\<forall>j<1024. \<forall>k<1024. tbl D s j = tbl D s k \<longrightarrow> tbl D s j \<noteq> 0 \<longrightarrow> j = k"
    using assms unfolding dir_ok_def by (elim conjE)
  then show "j < 1024 \<Longrightarrow> k < 1024 \<Longrightarrow> tbl D s j = tbl D s k \<Longrightarrow> tbl D s j \<noteq> 0 \<Longrightarrow> j = k" by blast
qed (use assms in \<open>simp_all add: dir_ok_def\<close>)

definition adds_table :: "u32 \<Rightarrow> u32 \<Rightarrow> mem \<Rightarrow> kstate \<Rightarrow> nat \<Rightarrow> kstate \<Rightarrow> bool" where
  "adds_table D F M s j s' \<longleftrightarrow> dir_ok D F M s \<and> unat (free_mem_addr s) + 4096 < 4294967296 \<and> j < 1024 \<and> tbl D s j = 0
     \<and> s' = s\<lparr>memory := with_table D j (free_mem_addr s) (memory s), free_mem_addr := free_mem_addr s + 4096\<rparr>"

lemma adds_tableD:
  assumes "adds_table D F M s j s'"
  shows "dir_ok D F M s" "unat (free_mem_addr s) + 4096 < 4294967296" "j < 1024" "tbl D s j = 0"
    "s' = s\<lparr>memory := with_table D j (free_mem_addr s) (memory s), free_mem_addr := free_mem_addr s + 4096\<rparr>"
  using assms by (simp_all add: adds_table_def)

lemma new_table_reads:
  assumes new: "adds_table D F M s j s'"
  shows "k < 1024 \<Longrightarrow> tbl D s' k = (if k = j then free_mem_addr s else tbl D s k)"
  "k < 1024 \<Longrightarrow> dir_table_phys (memory s') D (of_nat k) = (if k = j then free_mem_addr s OR 7 else dir_table_phys (memory s) D (of_nat k))"
proof -
  note ok = adds_tableD(1) [OF new] and room = adds_tableD(2) [OF new] and j = adds_tableD(3) [OF new]
    and none = adds_tableD(4) [OF new] and s' = adds_tableD(5) [OF new]
  have D: "unat D + 8196 \<le> 4294967296" using dir_okD(7) [OF ok] room by linarith
  note r = with_table_reads [OF dir_ok_regions(2) [OF ok room] D j, of k "memory s"]
  show "k < 1024 \<Longrightarrow> tbl D s' k = (if k = j then free_mem_addr s else tbl D s k)" using r(1) by (simp add: s' tbl_def)
  show "k < 1024 \<Longrightarrow> dir_table_phys (memory s') D (of_nat k) = (if k = j then free_mem_addr s OR 7 else dir_table_phys (memory s) D (of_nat k))"
    using r(2) by (simp add: s')
qed

lemma new_table_free:
  assumes new: "adds_table D F M s j s'"
  shows "unat (free_mem_addr s') = unat (free_mem_addr s) + 4096" "free_mem_addr s \<noteq> 0"
proof -
  note ok = adds_tableD(1) [OF new] and room = adds_tableD(2) [OF new] and j = adds_tableD(3) [OF new]
    and none = adds_tableD(4) [OF new] and s' = adds_tableD(5) [OF new]
  show "unat (free_mem_addr s') = unat (free_mem_addr s) + 4096" "free_mem_addr s \<noteq> 0"
    using dir_okD(7) [OF ok] room by (auto simp: s' bound_simps)
qed

lemma new_table_dir_ok:
  assumes new: "adds_table D F M s j s'"
  shows "dir_ok D F M s'"
  unfolding dir_ok_def
proof (intro conjI allI impI)
  note ok = adds_tableD(1) [OF new] and room = adds_tableD(2) [OF new] and j = adds_tableD(3) [OF new]
    and none = adds_tableD(4) [OF new] and s' = adds_tableD(5) [OF new]
  have D: "unat D + 8196 \<le> 4294967296" using dir_okD(7) [OF ok] room by linarith
  show "kept M F s'" unfolding kept_def
  proof (intro allI impI)
    fix a assume a: "a < F \<or> free_mem_addr s' \<le> a"
    then have "\<not> within D 8196 a" "\<not> within (free_mem_addr s) 4096 a" "a < F \<or> free_mem_addr s \<le> a"
      using dir_okD(6,7) [OF ok] room new_table_free(1) [OF new] by (auto simp: within_nat word_less_nat_alt word_le_nat_alt)
    moreover from this(3) have "memory s a = M a" using dir_okD(14) [OF ok] unfolding kept_def by blast
    ultimately show "memory s' a = M a" by (simp add: s' with_table_other [OF j])
  qed
  show "dir_physicalAddr (memory s') D = D + 4096"
    using with_table_reads(3) [OF dir_ok_regions(2) [OF ok room] D j j] dir_okD(13) [OF ok] by (simp add: s')
  show "kheap s' = 0" "kernel_directory s' = D" "frames s' = F" "nframes s' = 0x1000" using dir_okD(1-4) [OF ok] by (simp_all add: s')
  show "unat (free_mem_addr s') mod 4096 = 0" "unat F + 512 \<le> unat D" "unat D + 0x3000 \<le> unat (free_mem_addr s')"
    using dir_okD(5-7) [OF ok] new_table_free(1) [OF new] by simp_all
  fix k :: nat assume k: "k < 1024"
  {
    assume t: "tbl D s' k \<noteq> 0"
    show "unat (tbl D s' k) mod 4096 = 0" "unat D + 0x3000 \<le> unat (tbl D s' k)" "unat (tbl D s' k) + 4096 \<le> unat (free_mem_addr s')"
      "dir_table_phys (memory s') D (of_nat k) = tbl D s' k OR 7"
      using t dir_okD(5,7) [OF ok] dir_okD(8-11) [OF ok k] new_table_free(1) [OF new]
      by (auto simp: new_table_reads [OF new k] simp del: of_nat_eq_iff split: if_splits)
  }
  fix l :: nat assume l: "l < 1024" and e: "tbl D s' k = tbl D s' l" "tbl D s' k \<noteq> 0"
  have "tbl D s i \<noteq> free_mem_addr s" if "i < 1024" for i
    using dir_okD(10) [OF ok that] new_table_free(2) [OF new] by auto
  then show "k = l" using e dir_okD(12) [OF ok k l] k l by (auto simp: new_table_reads [OF new] split: if_splits)
qed

lemma new_table_other:
  assumes new: "adds_table D F M s j s'"
  shows "\<not> within D 8196 a \<Longrightarrow> memory s' a = (if within (free_mem_addr s) 4096 a then 0 else memory s a)"
  by (simp add: adds_tableD(5) [OF new] with_table_other [OF adds_tableD(3) [OF new]])

lemma new_table_entries:
  assumes new: "adds_table D F M s j s'"
    and p: "p < 1048576" and t: "tbl D s' (p div 1024) \<noteq> 0"
  shows "load32 (memory s') (entry_at D s' p) = (if p div 1024 = j then 0 else load32 (memory s) (entry_at D s p))"
proof (cases "p div 1024 = j")
  case True
  note ok = adds_tableD(1) [OF new] and room = adds_tableD(2) [OF new] and j = adds_tableD(3) [OF new]
    and none = adds_tableD(4) [OF new] and s' = adds_tableD(5) [OF new]
  have "memory s' a = 0" if "within (entry_at D s' p) 4 a" for a
  proof -
    have w: "within (free_mem_addr s) 4096 a"
      using entry_within [OF p that] new_table_reads(1) [OF new j] True by simp
    then have "\<not> within D 8196 a" by (rule apart_within [OF dir_ok_regions(2) [OF ok room]])
    then show ?thesis using new_table_other [OF new] w by simp
  qed
  then have "load32 (memory s') (entry_at D s' p) = load32 (\<lambda>_. 0) (entry_at D s' p)" by (rule load32_cong)
  then show ?thesis using True by (simp add: load32_def)
next
  case False
  note ok = adds_tableD(1) [OF new] and room = adds_tableD(2) [OF new] and j = adds_tableD(3) [OF new]
    and none = adds_tableD(4) [OF new] and s' = adds_tableD(5) [OF new]
  have k: "p div 1024 < 1024" using p by simp
  have e: "tbl D s' (p div 1024) = tbl D s (p div 1024)" using new_table_reads(1) [OF new k] False by simp
  have "memory s' a = memory s a" if "within (entry_at D s p) 4 a" for a
  proof -
    note w = entry_within [OF p that]
    have "\<not> within D 8196 a" "\<not> within (free_mem_addr s) 4096 a"
      using apart_within [OF dir_ok_regions(4) [OF ok room k] w] apart_within [OF dir_ok_regions(6) [OF ok room k] w] t e by auto
    then show ?thesis using new_table_other [OF new] by simp
  qed
  then show ?thesis using entry_cong [OF e] False by simp
qed

lemma new_table_maps:
  assumes new: "adds_table D F M s j s'"
    and maps: "maps D ps s"
  shows "maps D ps s'"
proof -
  note ok = adds_tableD(1) [OF new] and room = adds_tableD(2) [OF new] and j = adds_tableD(3) [OF new]
    and none = adds_tableD(4) [OF new] and s' = adds_tableD(5) [OF new]
  have f: "frame_used s' f \<longleftrightarrow> frame_used s f" if "f < 4096" for f
  proof (rule frame_used_cong [OF _ _ that])
    fix a assume "within (frames s) 512 a"
    then have w: "within F 512 a" by (simp add: dir_okD(3) [OF ok])
    have "\<not> within D 8196 a" by (rule apart_within [OF dir_ok_regions(1) [OF ok room] w])
    moreover have "\<not> within (free_mem_addr s) 4096 a"
      by (rule apart_within [OF apart_sym [THEN iffD1] w]) (rule dir_ok_regions(3) [OF ok room])
    ultimately show "memory s' a = memory s a" using new_table_other [OF new] by simp
  qed (simp add: s')
  have "tbl D s' (p div 1024) = tbl D s (p div 1024)" if "p < 1048576" "tbl D s (p div 1024) \<noteq> 0" for p
    using new_table_reads(1) [OF new, of "p div 1024"] that none by auto
  then show ?thesis using maps f new_table_entries [OF new] new_table_reads(1) [OF new] none
    unfolding maps_def by (auto split: if_splits)
qed

subsection \<open>One page\<close>

lemma dir_ok_bitmap:
  assumes "dir_ok D F M s"
  shows "bitmap_ok s" "tracked s f \<longleftrightarrow> f < 4096" "4 * (unat (nframes s) div 32) = 512"
proof -
  have "unat F + 512 \<le> 4294967296" using dir_okD(6) [OF assms] unat_lt_2p32 [of D] by linarith
  then show "bitmap_ok s" using dir_okD(3,4) [OF assms] by (simp add: bitmap_ok_def)
qed (simp_all add: tracked_def dir_okD(4) [OF assms])

text \<open>The entry of \<open>p\<close> was filled with the next frame, and nothing else changed.\<close>

lemma maps_snoc:
  assumes maps: "maps D ps s" and t: "\<And>j. j < 1024 \<Longrightarrow> tbl D s' j = tbl D s j"
    and p: "p < 1048576" "tbl D s (p div 1024) \<noteq> 0" "p \<notin> set ps" and n: "length ps < 4096"
    and used: "\<And>f. f < 4096 \<Longrightarrow> frame_used s' f \<longleftrightarrow> f < Suc (length ps)"
    and e: "pg_frame (load32 (memory s') (entry_at D s p)) = of_nat (length ps)" "pg_present (load32 (memory s') (entry_at D s p))"
    and same: "\<And>q. q < 1048576 \<Longrightarrow> q \<noteq> p \<Longrightarrow> tbl D s (q div 1024) \<noteq> 0 \<Longrightarrow>
      load32 (memory s') (entry_at D s' q) = load32 (memory s) (entry_at D s q)"
  shows "maps D (ps @ [p]) s'"
  unfolding maps_def
proof (intro conjI allI impI)
  show "distinct (ps @ [p])" "length (ps @ [p]) \<le> 4096" using maps p(3) n by (simp_all add: maps_def)
  show "frame_used s' f \<longleftrightarrow> f < length (ps @ [p])" if "f < 4096" for f using used that by simp
  show "load32 (memory s') (entry_at D s' q) = 0" if "q < 1048576" "tbl D s' (q div 1024) \<noteq> 0" "q \<notin> set (ps @ [p])" for q
    using maps same [of q] that t [of "q div 1024"] by (simp add: maps_def)
  fix i assume i: "i < length (ps @ [p])"
  show i20: "(ps @ [p]) ! i < 1048576" using maps p(1) i by (auto simp: maps_def nth_append less_Suc_eq)
  have "tbl D s ((ps @ [p]) ! i div 1024) \<noteq> 0" using maps p(2) i by (auto simp: maps_def nth_append less_Suc_eq)
  then show "tbl D s' ((ps @ [p]) ! i div 1024) \<noteq> 0" using t i20 by simp
  have ee: "entry_at D s' p = entry_at D s p" using t p(1) by (simp add: entry_at_def)
  have old: "load32 (memory s') (entry_at D s' (ps ! i)) = load32 (memory s) (entry_at D s (ps ! i))" if "i < length ps"
  proof -
    have "ps ! i \<noteq> p" using p(3) that by auto
    then show ?thesis using same [of "ps ! i"] maps that by (simp add: maps_def)
  qed
  show "pg_frame (load32 (memory s') (entry_at D s' ((ps @ [p]) ! i))) = of_nat i"
    "pg_present (load32 (memory s') (entry_at D s' ((ps @ [p]) ! i)))"
    using maps i e ee old by (auto simp: maps_def nth_append less_Suc_eq)
qed

lemma entry_apart_entry:
  assumes ok: "dir_ok D F M s" and room: "unat (free_mem_addr s) + 4096 < 4294967296"
    and p: "p < 1048576" "tbl D s (p div 1024) \<noteq> 0" and q: "q < 1048576" "tbl D s (q div 1024) \<noteq> 0" and "p \<noteq> q"
  shows "apart (entry_at D s p) 4 (entry_at D s q) 4"
proof (cases "p div 1024 = q div 1024")
  case True
  have "p div 1024 < 1024" using p(1) by simp
  then have "unat (tbl D s (p div 1024)) + 4096 \<le> 4294967296" using dir_okD(10) [OF ok _ p(2)] room by simp
  then show ?thesis by (rule entries_apart [OF p(1) q(1) \<open>p \<noteq> q\<close> True])
next
  case False
  have "p div 1024 < 1024" "q div 1024 < 1024" using p(1) q(1) by simp_all
  note ap = dir_ok_regions(7) [OF ok room this False p(2) q(2)]
  show ?thesis by (rule apart_sub [OF ap]) (use entry_within p(1) q(1) in auto)
qed

lemma take_frame_step:
  assumes ok: "dir_ok D F M s" and maps: "maps D ps s" and room: "unat (free_mem_addr s) + 4096 < 4294967296"
    and p: "p < 1048576" "tbl D s (p div 1024) \<noteq> 0" "p \<notin> set ps" and n: "length ps < 4096"
  shows "\<exists>s'. alloc_frame (entry_at D s p) k w s = Some s' \<and> dir_ok D F M s' \<and> maps D (ps @ [p]) s'
    \<and> (\<forall>j<1024. tbl D s' j = tbl D s j) \<and> free_mem_addr s' = free_mem_addr s"
proof -
  let ?e = "entry_at D s p"
  have k: "p div 1024 < 1024" using p(1) by simp
  note F = dir_okD(3) [OF ok] and b = dir_ok_bitmap [OF ok]
  have ew: "within (tbl D s (p div 1024)) 4096 a" if "within ?e 4 a" for a by (rule entry_within [OF p(1) that])
  have apF: "apart ?e 4 F 512" by (rule apart_sub [OF dir_ok_regions(5) [OF ok room k p(2)]]) (use ew in auto)
  have apD: "apart ?e 4 D 8196" by (rule apart_sub [OF dir_ok_regions(4) [OF ok room k p(2)]]) (use ew in auto)
  have fr: "frame_used s f \<longleftrightarrow> f < length ps" if "tracked s f" for f using maps that b by (simp add: maps_def)
  have no: "pg_frame (load32 (memory s) ?e) = 0" using maps p by (simp add: maps_def pg_frame_def)
  have pa: "page_apart ?e s" using apF by (simp add: page_apart_def F b)
  have tn: "tracked s (length ps)" using n b by simp
  obtain s' where run: "alloc_frame ?e k w s = Some s'" and e: "pg_frame (load32 (memory s') ?e) = of_nat (length ps)"
      "pg_present (load32 (memory s') ?e)" and used: "\<forall>f. tracked s f \<longrightarrow> (frame_used s' f \<longleftrightarrow> f < Suc (length ps))"
      and only: "\<exists>m. s' = s\<lparr>memory := m\<rparr>"
      and other: "\<And>a. \<not> within ?e 4 a \<Longrightarrow> \<not> within F 512 a \<Longrightarrow> memory s' a = memory s a"
    using alloc_frame_next [OF b(1) pa no fr tn, of k w] by (auto simp: F b)
  have fixed: "kheap s' = kheap s" "kernel_directory s' = kernel_directory s" "frames s' = frames s" "nframes s' = nframes s"
    "free_mem_addr s' = free_mem_addr s" using only by auto
  have dirs: "memory s' a = memory s a" if "within D 8196 a" for a
  proof (rule other)
    show "\<not> within ?e 4 a" using apart_within [OF apart_sym [THEN iffD1, OF apD] that] .
    show "\<not> within F 512 a" using apart_within [OF apart_sym [THEN iffD1, OF dir_ok_regions(1) [OF ok room]] that] .
  qed
  note t = dir_loads_cong [of D s' s, OF dirs]
  have "dir_physicalAddr (memory s') D = dir_physicalAddr (memory s) D" by (rule t(3) [of 0]) simp_all
  moreover have "kept M F s'" unfolding kept_def fixed
  proof (intro allI impI)
    fix a assume a: "a < F \<or> free_mem_addr s \<le> a"
    have "\<not> within (tbl D s (p div 1024)) 4096 a" "\<not> within F 512 a"
      using a dir_okD(6,7) [OF ok] dir_okD(9,10) [OF ok k p(2)] room by (auto simp: within_nat word_less_nat_alt word_le_nat_alt)
    moreover from this(1) have "\<not> within ?e 4 a" using ew by blast
    moreover have "memory s a = M a" using a dir_okD(14) [OF ok] unfolding kept_def by blast
    ultimately show "memory s' a = M a" using other [of a] by simp
  qed
  ultimately have "dir_ok D F M s'" using ok unfolding dir_ok_def by (simp add: t fixed)
  moreover have "maps D (ps @ [p]) s'"
  proof (rule maps_snoc [OF maps t(1) p n _ e])
    show "frame_used s' f \<longleftrightarrow> f < Suc (length ps)" if "f < 4096" for f using used b that by simp
    fix q assume q: "q < 1048576" "q \<noteq> p" "tbl D s (q div 1024) \<noteq> 0"
    note eq = entry_apart_entry [OF ok room p(1,2) q(1,3) q(2) [symmetric]]
    have kq: "q div 1024 < 1024" using q(1) by simp
    show "load32 (memory s') (entry_at D s' q) = load32 (memory s) (entry_at D s q)"
    proof (rule entry_cong [OF t(1) [OF _ kq]])
      fix a assume a: "within (entry_at D s q) 4 a"
      show "memory s' a = memory s a"
        using apart_within [OF apart_sym [THEN iffD1, OF eq] a]
          apart_within [OF dir_ok_regions(5) [OF ok room kq q(3)] entry_within [OF q(1) a]] by (rule other)
    qed
  qed
  ultimately show ?thesis using run t(1) fixed by blast
qed

definition tables :: "u32 \<Rightarrow> kstate \<Rightarrow> nat set" where
  "tables D s = {j. j < 1024 \<and> tbl D s j \<noteq> 0}"

text \<open>\<open>get_page\<close> with \<open>make\<close>: the table is there afterwards.\<close>

lemma get_page_step:
  assumes ok: "dir_ok D F M s" and room: "unat (free_mem_addr s) + 4096 < 4294967296" and p: "p < 1048576"
  shows "\<exists>s'. get_page (kmalloc_ap fuel) (of_nat p * 0x1000) True D s = Some (entry_at D s' p, s')
    \<and> dir_ok D F M s' \<and> tables D s' = insert (p div 1024) (tables D s)
    \<and> unat (free_mem_addr s') = unat (free_mem_addr s) + (if p div 1024 \<in> tables D s then 0 else 4096)
    \<and> (\<forall>ps. maps D ps s \<longrightarrow> maps D ps s')"
proof (cases "tbl D s (p div 1024) = 0")
  case False
  then show ?thesis using get_page_present [OF p False] ok p by (auto simp: tables_def)
next
  case True
  define s' where "s' = s\<lparr>memory := with_table D (p div 1024) (free_mem_addr s) (memory s), free_mem_addr := free_mem_addr s + 4096\<rparr>"
  have k: "p div 1024 < 1024" using p by simp
  have new: "adds_table D F M s (p div 1024) s'" using ok room k True by (simp add: adds_table_def s'_def)
  have D: "unat D + 8196 \<le> 4294967296" using dir_okD(7) [OF ok] room by linarith
  have "get_page (kmalloc_ap fuel) (of_nat p * 0x1000) True D s = Some (entry_at D s' p, s')"
    using get_page_new [OF dir_okD(1) [OF ok] dir_okD(5) [OF ok] p True D dir_ok_regions(2) [OF ok room]] by (simp add: s'_def Let_def)
  moreover have "tables D s' = insert (p div 1024) (tables D s)"
    using new_table_reads(1) [OF new] new_table_free(2) [OF new] k by (auto simp: tables_def split: if_splits)
  ultimately show ?thesis
    using new_table_dir_ok [OF new] new_table_free(1) [OF new] new_table_maps [OF new] True by (auto simp: tables_def)
qed

lemma touch_page_step:
  assumes ok: "dir_ok D F M s" and maps: "maps D ps s" and room: "unat (free_mem_addr s) + 4096 < 4294967296" and p: "p < 1048576"
  shows "\<exists>s'. touch_page fuel (of_nat p * 0x1000) s = Some s' \<and> dir_ok D F M s' \<and> maps D ps s'
    \<and> tables D s' = insert (p div 1024) (tables D s)
    \<and> unat (free_mem_addr s') = unat (free_mem_addr s) + (if p div 1024 \<in> tables D s then 0 else 4096)"
  using get_page_step [OF ok room p, of fuel] maps dir_okD(2) [OF ok] by (auto simp: touch_page_def)

lemma map_page_step:
  assumes ok: "dir_ok D F M s" and maps: "maps D ps s" and room: "unat (free_mem_addr s) + 8192 < 4294967296"
    and p: "p < 1048576" "p \<notin> set ps" and n: "length ps < 4096"
  shows "\<exists>s'. map_page fuel (of_nat p * 0x1000) s = Some s' \<and> dir_ok D F M s' \<and> maps D (ps @ [p]) s'
    \<and> tables D s' = insert (p div 1024) (tables D s)
    \<and> unat (free_mem_addr s') = unat (free_mem_addr s) + (if p div 1024 \<in> tables D s then 0 else 4096)"
proof -
  have "unat (free_mem_addr s) + 4096 < 4294967296" using room by linarith
  from get_page_step [OF ok this p(1), of fuel] obtain s1 where
    g: "get_page (kmalloc_ap fuel) (of_nat p * 0x1000) True D s = Some (entry_at D s1 p, s1)" and ok1: "dir_ok D F M s1"
    and t1: "tables D s1 = insert (p div 1024) (tables D s)"
    and f1: "unat (free_mem_addr s1) = unat (free_mem_addr s) + (if p div 1024 \<in> tables D s then 0 else 4096)"
    and maps1: "maps D ps s1" using maps by blast
  have room1: "unat (free_mem_addr s1) + 4096 < 4294967296" using f1 room by (auto split: if_splits)
  have "tbl D s1 (p div 1024) \<noteq> 0" using t1 by (auto simp: tables_def)
  from take_frame_step [OF ok1 maps1 room1 p(1) this p(2) n, of False False] obtain s' where
    "alloc_frame (entry_at D s1 p) False False s1 = Some s'" "dir_ok D F M s'" "maps D (ps @ [p]) s'"
    "\<forall>j<1024. tbl D s' j = tbl D s1 j" "free_mem_addr s' = free_mem_addr s1" by blast
  moreover from this(4) have "tables D s' = tables D s1" by (auto simp: tables_def)
  ultimately show ?thesis using g t1 f1 dir_okD(2) [OF ok] by (auto simp: map_page_def)
qed

subsection \<open>The loops\<close>

lemma for_pages_run:
  assumes step: "\<And>k s. k < n \<Longrightarrow> I k s \<Longrightarrow> \<exists>s'. f (a + of_nat k * 0x1000) s = Some s' \<and> I (Suc k) s'"
    and fits: "unat a + n * 4096 < 4294967296" and k: "k \<le> n" and I: "I k s"
  shows "\<exists>s'. for_pages f (a + of_nat k * 0x1000) (a + of_nat n * 0x1000) s = Some s' \<and> I n s'"
  using k I
proof (induction "n - k" arbitrary: k s)
  case 0
  then show ?case by (simp add: for_pages.simps)
next
  case (Suc d)
  then have "k < n" by simp
  have at: "unat (a + of_nat i * 0x1000) = unat a + i * 4096" if "i \<le> n" for i
  proof -
    have "i * 4096 \<le> n * 4096" using that by simp
    then show ?thesis using fits unat_add_of_nat [of a "i * 4096"] by (simp add: mult.commute)
  qed
  have lt: "a + of_nat k * 0x1000 < a + of_nat n * 0x1000"
    unfolding word_less_nat_alt using at [of k] at [of n] \<open>k < n\<close> by simp
  obtain s1 where s1: "f (a + of_nat k * 0x1000) s = Some s1" "I (Suc k) s1" using step [OF \<open>k < n\<close> Suc.prems(2)] by blast
  have e: "a + of_nat k * 0x1000 + 0x1000 = a + of_nat (Suc k) * 0x1000" by (simp add: algebra_simps)
  have "for_pages f (a + of_nat k * 0x1000) (a + of_nat n * 0x1000) s = for_pages f (a + of_nat (Suc k) * 0x1000) (a + of_nat n * 0x1000) s1"
    using lt s1(1) by (subst for_pages.simps) (simp only: e if_True bind.bind_lunit)
  moreover have "d = n - Suc k" "Suc k \<le> n" using Suc.hyps(2) \<open>k < n\<close> by simp_all
  ultimately show ?case using Suc.hyps(1) [of "Suc k" s1] s1(2) by simp
qed

text \<open>The heap's pages are those from 786432 on, all in table 768.\<close>

lemma heap_page: "KHEAP_START + of_nat k * 0x1000 = of_nat (786432 + k) * 0x1000"
  by (simp add: KHEAP_START_def algebra_simps)

lemma heap_pages_end: "KHEAP_START + KHEAP_INITIAL_SIZE = KHEAP_START + of_nat 256 * 0x1000"
  by (simp add: KHEAP_START_def KHEAP_INITIAL_SIZE_def)

lemma heap_pages_run:
  assumes "\<And>k s. k < 256 \<Longrightarrow> I k s \<Longrightarrow> \<exists>s'. f (of_nat (786432 + k) * 0x1000) s = Some s' \<and> I (Suc k) s'" and "I 0 s"
  shows "\<exists>s'. for_pages f KHEAP_START (KHEAP_START + KHEAP_INITIAL_SIZE) s = Some s' \<and> I 256 s'"
proof -
  have "\<exists>s'. for_pages f (KHEAP_START + of_nat 0 * 0x1000) (KHEAP_START + of_nat 256 * 0x1000) s = Some s' \<and> I 256 s'"
  proof (rule for_pages_run)
    show "unat KHEAP_START + 256 * 4096 < 4294967296" by (simp add: KHEAP_START_def)
  qed (use assms in \<open>simp_all only: heap_page le0\<close>)
  then show ?thesis unfolding heap_pages_end by simp
qed

end
