(* ===== verification/Paging_Build.thy ===== *)
theory Paging_Build
  imports Paging_Maps
begin

text \<open>
  The three loops of \<open>initialise_paging\<close> put together, and what the processor makes of the directory:
  memory in use is mapped to itself, the heap to the frames behind it.
\<close>

subsection \<open>The loop over used memory\<close>

text \<open>
  The state with \<open>k\<close> pages mapped. The tables are the heap's and one for each 1024 pages begun; \<open>A\<close> is
  the allocator's position before the loop. The loop maps the tables it makes, so its end moves.
\<close>

definition idmapped :: "u32 \<Rightarrow> u32 \<Rightarrow> mem \<Rightarrow> nat \<Rightarrow> nat \<Rightarrow> kstate \<Rightarrow> bool" where
  "idmapped D F M A k s \<longleftrightarrow> dir_ok D F M s \<and> maps D [0..<k] s
     \<and> tables D s = insert 768 {..<(k + 1023) div 1024}
     \<and> unat (free_mem_addr s) = A + 4096 * ((k + 1023) div 1024)"

lemma pages_begun:
  "(Suc k + 1023) div 1024 = Suc (k div 1024)" "(k + 1023) div 1024 = k div 1024 \<or> (k + 1023) div 1024 = Suc (k div 1024)"
proof -
  show s: "(Suc k + 1023) div 1024 = Suc (k div 1024)" using div_add_self2 [of 1024 k] by simp
  have "k div 1024 \<le> (k + 1023) div 1024" "(k + 1023) div 1024 \<le> (Suc k + 1023) div 1024" by (simp_all add: div_le_mono)
  then show "(k + 1023) div 1024 = k div 1024 \<or> (k + 1023) div 1024 = Suc (k div 1024)" using s by linarith
qed

lemma idmapped_step:
  assumes "idmapped D F M A k s" "k < 3400" "A \<le> 0xD00000"
  shows "\<exists>s'. map_page fuel (of_nat k * 0x1000) s = Some s' \<and> idmapped D F M A (Suc k) s'"
proof -
  have ok: "dir_ok D F M s" and maps: "maps D [0..<k] s" and t: "tables D s = insert 768 {..<(k + 1023) div 1024}"
    and f: "unat (free_mem_addr s) = A + 4096 * ((k + 1023) div 1024)" using assms(1) by (simp_all add: idmapped_def)
  have "(k + 1023) div 1024 \<le> 4" using assms(2) by simp
  then have "unat (free_mem_addr s) + 8192 < 4294967296" using f assms(3) by simp
  from map_page_step [OF ok maps this, of k fuel] obtain s' where
    s': "map_page fuel (of_nat k * 0x1000) s = Some s'" "dir_ok D F M s'" "maps D ([0..<k] @ [k]) s'"
      "tables D s' = insert (k div 1024) (tables D s)"
      "unat (free_mem_addr s') = unat (free_mem_addr s) + (if k div 1024 \<in> tables D s then 0 else 4096)"
    using assms(2) by auto
  note d = pages_begun [of k]
  have n: "k div 1024 \<noteq> 768" using assms(2) by auto
  define q c where "q = k div 1024" and "c = (k + 1023) div 1024"
  have "q \<in> tables D s \<longleftrightarrow> c = Suc q" "insert q (tables D s) = insert 768 {..<Suc q}"
    using d(2) n unfolding t q_def [symmetric] c_def [symmetric] by (elim disjE; auto simp: lessThan_Suc)+
  then have "tables D s' = insert 768 {..<Suc q}" "unat (free_mem_addr s') = A + 4096 * Suc q"
    using s'(4,5) f d(2) unfolding q_def [symmetric] c_def [symmetric] by auto
  then have "idmapped D F M A (Suc k) s'" using s'(2,3) unfolding idmapped_def d(1) q_def [symmetric] by simp
  then show ?thesis using s'(1) by blast
qed

lemma identity_map_run:
  assumes A: "A \<le> 0xD00000"
  shows "idmapped D F M A k s \<Longrightarrow> k \<le> 3340 \<Longrightarrow> (0 < k \<Longrightarrow> k * 4096 \<le> unat (free_mem_addr s) + 4096) \<Longrightarrow>
    \<exists>s' n. identity_map fuel (of_nat k * 0x1000) s = Some s' \<and> idmapped D F M A n s' \<and> n \<le> 3340
      \<and> n * 4096 = unat (free_mem_addr s') + 4096"
proof (induction "3340 - k" arbitrary: k s rule: less_induct)
  case less
  have ok: "dir_ok D F M s" and f: "unat (free_mem_addr s) = A + 4096 * ((k + 1023) div 1024)"
    using less.prems(1) by (simp_all add: idmapped_def)
  have c: "(k + 1023) div 1024 \<le> 4" using less.prems(2) by simp
  have fb: "unat (free_mem_addr s) + 4096 \<le> 0xD05000" using f c A by simp
  have at: "unat (of_nat k * 0x1000 :: u32) = k * 4096"
    using unat_of_nat_small [of "k * 4096"] less.prems(2) by simp
  have fu: "unat (free_mem_addr s + 0x1000) = unat (free_mem_addr s) + 4096"
    using fb by (simp add: bound_simps)
  show ?case
  proof (cases "k * 4096 < unat (free_mem_addr s) + 4096")
    case False
    then have "identity_map fuel (of_nat k * 0x1000) s = Some s"
      by (subst identity_map.simps) (simp add: word_less_nat_alt at fu)
    moreover have "k * 4096 = unat (free_mem_addr s) + 4096" using False less.prems(3) by (cases k) auto
    ultimately show ?thesis using less.prems(1,2) by blast
  next
    case True
    then have k: "k < 3334" using fb by simp
    obtain s1 where s1: "map_page fuel (of_nat k * 0x1000) s = Some s1" "idmapped D F M A (Suc k) s1"
      using idmapped_step [OF less.prems(1) _ A, of fuel] k by auto
    have "unat (free_mem_addr s) \<le> unat (free_mem_addr s1)"
      using s1(2) f by (simp add: idmapped_def div_le_mono)
    moreover have "unat (free_mem_addr s) mod 4096 = 0" by (rule dir_okD(5) [OF ok])
    then obtain q where q: "unat (free_mem_addr s) = 4096 * q" by auto
    then have "k \<le> q" using True by simp
    ultimately have "Suc k * 4096 \<le> unat (free_mem_addr s1) + 4096" using q by simp
    moreover have e: "of_nat k * 0x1000 + 0x1000 = (of_nat (Suc k) * 0x1000 :: u32)" by (simp add: algebra_simps)
    have "identity_map fuel (of_nat k * 0x1000) s = identity_map fuel (of_nat (Suc k) * 0x1000) s1"
      using True s1(1) by (subst identity_map.simps) (simp add: word_less_nat_alt at fu e del: of_nat_Suc)
    ultimately show ?thesis using less.hyps [of "Suc k" s1] s1(2) k by simp
  qed
qed

subsection \<open>The loops over the heap's pages\<close>

lemma heap_frames_run:
  assumes "dir_ok D F M s" "maps D [0..<n] s" "768 \<in> tables D s" "n \<le> 3340" "unat (free_mem_addr s) + 8192 < 4294967296"
  shows "\<exists>s'. for_pages (map_page fuel) KHEAP_START (KHEAP_START + KHEAP_INITIAL_SIZE) s = Some s' \<and> dir_ok D F M s'
    \<and> maps D ([0..<n] @ [786432..<786688]) s' \<and> free_mem_addr s' = free_mem_addr s"
proof -
  define I where "I = (\<lambda>k t. dir_ok D F M t \<and> maps D ([0..<n] @ [786432..<786432 + k]) t \<and> 768 \<in> tables D t \<and> free_mem_addr t = free_mem_addr s)"
  have "\<exists>t'. map_page fuel (of_nat (786432 + k) * 0x1000) t = Some t' \<and> I (Suc k) t'" if k: "k < 256" and I: "I k t" for k t
  proof -
    have j: "(786432 + k) div 1024 = 768" using k by simp
    have *: "786432 + k < 1048576" "786432 + k \<notin> set ([0..<n] @ [786432..<786432 + k])" "length ([0..<n] @ [786432..<786432 + k]) < 4096"
      using k assms(4) by auto
    have t: "dir_ok D F M t" "maps D ([0..<n] @ [786432..<786432 + k]) t" "unat (free_mem_addr t) + 8192 < 4294967296"
      "768 \<in> tables D t" "free_mem_addr t = free_mem_addr s" using I assms(5) by (simp_all add: I_def)
    have e: "([0..<n] @ [786432..<786432 + k]) @ [786432 + k] = [0..<n] @ [786432..<786432 + Suc k]"
      using upt_Suc_append [of 786432 "786432 + k"] by simp
    from map_page_step [OF t(1-3) *, of fuel, unfolded e j] t(4,5) obtain t' where
      "map_page fuel (of_nat (786432 + k) * 0x1000) t = Some t'" "dir_ok D F M t'"
      "maps D ([0..<n] @ [786432..<786432 + Suc k]) t'" "768 \<in> tables D t'" "unat (free_mem_addr t') = unat (free_mem_addr s)"
      by auto
    then show ?thesis by (auto simp: I_def word_unat_eq_iff)
  qed
  moreover have "I 0 s" using assms by (simp add: I_def)
  ultimately show ?thesis using heap_pages_run [of I "map_page fuel" s] by (auto simp: I_def)
qed

lemma touch_page_aligns:
  assumes early: "kheap s = 0" and room: "unat (free_mem_addr s) < 4294963200" and p: "p < 1048576" and none: "tbl (kernel_directory s) s (p div 1024) = 0"
  shows "touch_page fuel (of_nat p * 0x1000) s = touch_page fuel (of_nat p * 0x1000) (s\<lparr>free_mem_addr := page_up (free_mem_addr s)\<rparr>)"
proof -
  have "page_up (free_mem_addr s) AND 0xFFF = 0"
    using page_up_bounds(1) [OF room] by (simp add: low_mask word_unat_eq_iff unat_mod_distrib)
  then have "page_up (page_up (free_mem_addr s)) = page_up (free_mem_addr s)" by (simp add: page_up_def)
  then show ?thesis using early p none
    by (simp add: touch_page_def get_page_def page_index tbl_def kmalloc_ap_def kmalloc_int_early Let_def)
qed

lemma heap_tables_run:
  assumes ok: "dir_ok D F M (s\<lparr>free_mem_addr := page_up (free_mem_addr s)\<rparr>)" and maps: "maps D [] s" and none: "tables D s = {}"
    and room: "unat (free_mem_addr s) < 4294950000"
  shows "\<exists>s'. for_pages (touch_page fuel) KHEAP_START (KHEAP_START + KHEAP_INITIAL_SIZE) s = Some s' \<and> dir_ok D F M s'
    \<and> maps D [] s' \<and> tables D s' = {768} \<and> unat (free_mem_addr s') = unat (page_up (free_mem_addr s)) + 4096"
proof -
  let ?s = "s\<lparr>free_mem_addr := page_up (free_mem_addr s)\<rparr>"
  have up: "unat (page_up (free_mem_addr s)) + 8192 < 4294967296"
    using page_up_bounds(3) [of "free_mem_addr s"] room by linarith
  define I where "I = (\<lambda>(k::nat) t. if k = 0 then t = s else dir_ok D F M t \<and> maps D [] t \<and> tables D t = {768}
    \<and> unat (free_mem_addr t) = unat (page_up (free_mem_addr s)) + 4096)"
  have same: "tbl D ?s j = tbl D s j" "maps D ps ?s = maps D ps s" for j ps
    by (simp_all add: tbl_def maps_def entry_at_def frame_used_def frame_word_def)
  have "\<exists>t'. touch_page fuel (of_nat (786432 + k) * 0x1000) t = Some t' \<and> I (Suc k) t'" if k: "k < 256" and I: "I k t" for k :: nat and t
  proof (cases "k = 0")
    case True
    have "kheap s = 0" "kernel_directory s = D" using dir_okD(1,2) [OF ok] by simp_all
    moreover have "tbl D s 768 = 0" using none by (auto simp: tables_def)
    ultimately have "touch_page fuel (of_nat 786432 * 0x1000) s = touch_page fuel (of_nat 786432 * 0x1000) ?s"
      using room by (intro touch_page_aligns) simp_all
    moreover have "tables D ?s = {}" using none by (simp add: tables_def same)
    ultimately show ?thesis using touch_page_step [OF ok, of "[]" 786432 fuel] maps up True I by (auto simp: I_def same)
  next
    case False
    have j: "(786432 + k) div 1024 = 768" using k by simp
    show ?thesis using touch_page_step [of D F M t "[]" "786432 + k" fuel] I False j k up by (auto simp: I_def)
  qed
  moreover have "I 0 s" by (simp add: I_def)
  ultimately show ?thesis using heap_pages_run [of I "touch_page fuel" s] by (auto simp: I_def)
qed

subsection \<open>The directory \<open>initialise_paging\<close> builds\<close>

lemma page_up_after_bitmap:
  assumes "unat F mod 4096 \<le> 3584" "unat F \<le> 0xC00000"
  shows "unat (page_up (F + 128)) mod 4096 = 0" "unat F + 512 \<le> unat (page_up (F + 128))" "unat (page_up (F + 128)) \<le> unat F + 4224"
proof -
  have u: "unat (F + 128) = unat F + 128" using assms(2) by (simp add: bound_simps)
  have b: "unat (F + 128) < 4294963200" using u assms(2) by simp
  note up = page_up_bounds [OF b]
  show "unat (page_up (F + 128)) mod 4096 = 0" by (rule up(1))
  show "unat (page_up (F + 128)) \<le> unat F + 4224" using up(3) u by simp
  obtain q where q: "unat (page_up (F + 128)) = 4096 * q" using up(1) by auto
  have f: "unat F = 4096 * (unat F div 4096) + unat F mod 4096" by simp
  have "4096 * (unat F div 4096) < 4096 * q" using up(2) u q f by linarith
  then have "4096 * (unat F div 4096) + 4096 \<le> 4096 * q" by simp
  then show "unat F + 512 \<le> unat (page_up (F + 128))" using f assms(1) q by linarith
qed

text \<open>The state after the bitmap and the directory were set up, before the first table.\<close>

lemma fresh_directory:
  assumes s0: "kheap s = 0" "frames s = F" "nframes s = 0x1000" "kernel_directory s = D"
    and lay: "unat F + 512 \<le> unat D" "unat D mod 4096 = 0" "unat D \<le> 0xD00000" and free: "free_mem_addr s = D + 8196"
    and bits: "\<And>a. within F 512 a \<Longrightarrow> memory s a = 0"
    and dir: "\<And>a. within D 8192 a \<Longrightarrow> memory s a = 0" "load32 (memory s) (D + 8192) = D + 4096"
    and kept: "kept M F (s\<lparr>free_mem_addr := page_up (free_mem_addr s)\<rparr>)"
  shows "dir_ok D F M (s\<lparr>free_mem_addr := page_up (free_mem_addr s)\<rparr>)" "maps D [] s" "tables D s = {}"
    "unat (page_up (free_mem_addr s)) = unat D + 0x3000"
proof -
  have t: "tbl D s j = 0" if "j < 1024" for j
  proof -
    have "tbl D s j = load32 (\<lambda>_. 0) (D + 4 * of_nat j)" unfolding tbl_def dir_table_def
      by (rule load32_cong) (use dir(1) word_slot_within [of j 8192 D] that in auto)
    then show ?thesis by (simp add: load32_def)
  qed
  then show "tables D s = {}" by (simp add: tables_def)
  have "\<not> frame_used s f" if "f < 4096" for f
  proof -
    have "frame_word s (of_nat (f div 32)) = load32 (\<lambda>_. 0) (frames s + 4 * of_nat (f div 32))" unfolding frame_word_def
      by (rule load32_cong) (use bits s0(2) word_slot_within [of "f div 32" 512 F] that in auto)
    then show ?thesis by (simp add: frame_used_def load32_def)
  qed
  then show "maps D [] s" using t by (simp add: maps_def)
  obtain q where q: "unat D = 4096 * q" using lay(2) by auto
  have u: "unat (D + 8196) = 4096 * q + 8196" using q lay(3) by (simp add: bound_simps)
  have b: "unat (D + 8196) < 4294963200" using u q lay(3) by simp
  obtain r where r: "unat (page_up (D + 8196)) = 4096 * r" using page_up_bounds(1) [OF b] by auto
  have "4096 * q + 8196 \<le> 4096 * r" "4096 * r < 4096 * q + 8196 + 4096" using page_up_bounds(2,3) [OF b] u r by linarith+
  then have "r = q + 3" by linarith
  then show pu: "unat (page_up (free_mem_addr s)) = unat D + 0x3000" using r q free by simp
  show "dir_ok D F M (s\<lparr>free_mem_addr := page_up (free_mem_addr s)\<rparr>)"
    using s0 lay(1,2) pu t dir(2) q kept by (simp add: dir_ok_def tbl_def dir_physicalAddr_def)
qed

text \<open>The state in which the loops start: bitmap and directory are behind each other and zero.\<close>

definition laid_out :: "kstate \<Rightarrow> kstate" where
  "laid_out s = (let F = free_mem_addr s; D = page_up (F + 128)
     in s\<lparr>nframes := 0x1000, frames := F, free_mem_addr := D + 8196, kernel_directory := D,
          memory := store32 (fill_bytes D 8196 0 (fill_bytes F 128 0 (memory s))) (D + 8192) (D + 4096)\<rparr>)"

lemma build_kernel_directory_early:
  "kheap s = 0 \<Longrightarrow> build_kernel_directory fuel s =
      Option.bind (for_pages (touch_page fuel) KHEAP_START (KHEAP_START + KHEAP_INITIAL_SIZE) (laid_out s)) (\<lambda>s.
        Option.bind (identity_map fuel 0 s) (for_pages (map_page fuel) KHEAP_START (KHEAP_START + KHEAP_INITIAL_SIZE)))"
  by (simp add: build_kernel_directory_def kmalloc_early kmalloc_a_def kmalloc_int_early memset_zero_fills INDEX_FROM_BIT_def
      sizeof_page_directory_def laid_out_def upd_mem_def Let_def)

lemma laid_out_memory:
  assumes F: "unat (free_mem_addr s) mod 4096 \<le> 3584" "unat (free_mem_addr s) \<le> 0xC00000"
    and rest: "\<And>a. within (free_mem_addr s + 128) 384 a \<Longrightarrow> memory s a = 0"
  defines "D \<equiv> page_up (free_mem_addr s + 128)"
  shows "within (free_mem_addr s) 512 a \<Longrightarrow> memory (laid_out s) a = 0" "within D 8192 a \<Longrightarrow> memory (laid_out s) a = 0"
    and "load32 (memory (laid_out s)) (D + 8192) = D + 4096"
    and "a < free_mem_addr s \<or> page_up (D + 8196) \<le> a \<Longrightarrow> memory (laid_out s) a = memory s a"
proof -
  let ?F = "free_mem_addr s"
  note lay = page_up_after_bitmap [OF F, folded D_def]
  have m: "memory (laid_out s) = store32 (fill_bytes D 8196 0 (fill_bytes ?F 128 0 (memory s))) (D + 8192) (D + 4096)"
    by (simp add: laid_out_def D_def Let_def)
  have "apart ?F 512 D 8196" by (rule apart_nat(1)) (use lay F(2) in linarith)+
  note apFD = apart_within [OF this]
  show "memory (laid_out s) a = 0" if a: "within ?F 512 a"
  proof -
    have "\<not> within (D + 8192) 4 a" using apFD [OF a] phys_addr_within by blast
    moreover have "within ?F 128 a \<or> within (?F + 128) 384 a" using within_split [of 128 384 ?F a] a by simp
    ultimately show ?thesis using rest [of a] apFD [OF a] by (auto simp: m fill_bytes_def store32_other)
  qed
  show "memory (laid_out s) a = 0" if a: "within D 8192 a"
    using not_within_later [OF a, of 8192 4] within_mono [OF a, of 8196] by (simp add: m fill_bytes_def store32_other)
  show "load32 (memory (laid_out s)) (D + 8192) = D + 4096" by (simp add: m mem_simps)
  show "memory (laid_out s) a = memory s a" if a: "a < ?F \<or> page_up (D + 8196) \<le> a"
  proof -
    have D: "unat D \<le> 0xD00000" using lay(3) F(2) by linarith
    have u: "unat (D + 8196) = unat D + 8196" using D by (simp add: bound_simps)
    then have "unat (D + 8196) \<le> unat (page_up (D + 8196))" using D by (intro page_up_bounds(2)) simp
    then have "\<not> within D 8196 a" "\<not> within ?F 128 a"
      using a lay F(2) D u by (auto simp: within_nat word_less_nat_alt word_le_nat_alt)
    moreover from this have "\<not> within (D + 8192) 4 a" using phys_addr_within by blast
    ultimately show ?thesis by (simp add: m store32_other fill_bytes_def)
  qed
qed

lemma laid_out_directory:
  assumes early: "kheap s = 0" and F: "unat (free_mem_addr s) mod 4096 \<le> 3584" "unat (free_mem_addr s) \<le> 0xC00000"
    and rest: "\<And>a. within (free_mem_addr s + 128) 384 a \<Longrightarrow> memory s a = 0"
  defines "D \<equiv> page_up (free_mem_addr s + 128)" and "s1 \<equiv> laid_out s"
  shows "dir_ok D (free_mem_addr s) (memory s) (s1\<lparr>free_mem_addr := page_up (free_mem_addr s1)\<rparr>)" "maps D [] s1" "tables D s1 = {}"
    "unat (page_up (free_mem_addr s1)) = unat D + 0x3000" "unat (free_mem_addr s1) < 4294950000"
proof -
  let ?F = "free_mem_addr s"
  note lay = page_up_after_bitmap [OF F, folded D_def] and mem = laid_out_memory [OF F rest, folded D_def s1_def]
  have D: "unat D \<le> 0xD00000" using lay(3) F(2) by linarith
  have s1: "kheap s1 = 0" "nframes s1 = 0x1000" "frames s1 = ?F" "free_mem_addr s1 = D + 8196" "kernel_directory s1 = D"
    using early by (simp_all add: s1_def laid_out_def D_def Let_def)
  have kept: "kept (memory s) ?F (s1\<lparr>free_mem_addr := page_up (free_mem_addr s1)\<rparr>)"
    unfolding kept_def by (simp add: s1 mem(4))
  show "dir_ok D ?F (memory s) (s1\<lparr>free_mem_addr := page_up (free_mem_addr s1)\<rparr>)" "maps D [] s1" "tables D s1 = {}"
    "unat (page_up (free_mem_addr s1)) = unat D + 0x3000"
    using fresh_directory [of s1 ?F D "memory s"] s1 lay(1,2) D mem(1-3) kept by simp_all
  show "unat (free_mem_addr s1) < 4294950000" using D by (simp add: s1 bound_simps)
qed

lemma build_kernel_directory_maps:
  assumes early: "kheap s = 0" and F: "unat (free_mem_addr s) mod 4096 \<le> 3584" "unat (free_mem_addr s) \<le> 0xC00000"
    and rest: "\<And>a. within (free_mem_addr s + 128) 384 a \<Longrightarrow> memory s a = 0"
  shows "\<exists>s' n. build_kernel_directory fuel s = Some s' \<and> dir_ok (page_up (free_mem_addr s + 128)) (free_mem_addr s) (memory s) s'
    \<and> n \<le> 3340 \<and> n * 4096 = unat (free_mem_addr s') + 4096
    \<and> maps (page_up (free_mem_addr s + 128)) ([0..<n] @ [786432..<786688]) s'"
proof -
  let ?F = "free_mem_addr s"
  define D where "D = page_up (?F + 128)"
  note lay = page_up_after_bitmap [OF F, folded D_def] and fresh = laid_out_directory [OF early F rest, folded D_def]
  obtain s2 where s2: "for_pages (touch_page fuel) KHEAP_START (KHEAP_START + KHEAP_INITIAL_SIZE) (laid_out s) = Some s2"
      "dir_ok D ?F (memory s) s2" "maps D [] s2" "tables D s2 = {768}" "unat (free_mem_addr s2) = unat D + 0x4000"
    using heap_tables_run [OF fresh(1-3,5), of fuel] fresh(4) by auto
  have "idmapped D ?F (memory s) (unat D + 0x4000) 0 s2" using s2 by (simp add: idmapped_def)
  moreover have "unat D + 0x4000 \<le> 0xD00000" using lay(3) F(2) by linarith
  ultimately obtain s3 n where
    s3: "identity_map fuel 0 s2 = Some s3" "idmapped D ?F (memory s) (unat D + 0x4000) n s3" "n \<le> 3340" "n * 4096 = unat (free_mem_addr s3) + 4096"
    using identity_map_run [of "unat D + 0x4000" D ?F "memory s" 0 s2 fuel] by auto
  have "unat (free_mem_addr s3) + 8192 < 4294967296" using s3(3,4) by linarith
  then obtain s4 where
    "for_pages (map_page fuel) KHEAP_START (KHEAP_START + KHEAP_INITIAL_SIZE) s3 = Some s4" "dir_ok D ?F (memory s) s4"
    "maps D ([0..<n] @ [786432..<786688]) s4" "free_mem_addr s4 = free_mem_addr s3"
    using heap_frames_run [of D ?F "memory s" s3 n fuel] s3(2,3) by (auto simp: idmapped_def)
  then show ?thesis using build_kernel_directory_early [OF early] s2(1) s3(1,3,4) unfolding D_def [symmetric] by auto
qed

subsection \<open>What the processor sees\<close>

lemma table_mask:
  assumes "unat (t::u32) mod 4096 = 0"
  shows "(t OR 7) AND 0xFFFFF000 = t"
proof -
  have "t mod 0x1000 = 0" using assms by (simp add: word_unat_eq_iff unat_mod_distrib)
  then have "t AND 0xFFFFF000 = t" by (simp add: high_mask)
  then show ?thesis by (simp add: bit.conj_disj_distrib2)
qed

lemma frame_mask: "(w::u32) AND 0xFFFFF000 = pg_frame w * 0x1000"
  by (simp add: high_mask pg_frame_def drop_bit_eq_div minus_mod_eq_div_mult)

lemma page_number: "of_nat (unat (a::u32) div 4096) = a div 0x1000"
proof -
  have "unat a div 4096 < 4294967296" using unat_lt_2p32 [of a] by linarith
  then show ?thesis by (simp add: word_unat_eq_iff unat_div_distrib unat_of_nat_small)
qed

lemma address_parts:
  assumes "unat (a::u32) div 4096 = p"
  shows "a div 0x400000 = of_nat (p div 1024)" "a div 0x1000 mod 1024 = of_nat (p mod 1024)" "p < 1048576"
proof -
  show p: "p < 1048576" using assms unat_lt_2p32 [of a] by linarith
  have "unat a div 4194304 = p div 1024" unfolding assms [symmetric] by (simp add: div_mult2_eq [symmetric])
  then show "a div 0x400000 = of_nat (p div 1024)"
    using p by (simp add: word_unat_eq_iff unat_div_distrib unat_of_nat_small)
  show "a div 0x1000 mod 1024 = of_nat (p mod 1024)"
    using p assms by (simp add: word_unat_eq_iff unat_div_distrib unat_mod_distrib unat_of_nat_small)
qed

lemma translate_mapped:
  assumes ok: "dir_ok D F M s" and maps: "maps D ps s" and i: "i < length ps" and a: "unat a div 4096 = ps ! i"
  shows "translate (memory s) (D + 4096) a = of_nat i * 0x1000 + a mod 0x1000" "page_present (memory s) (D + 4096) a"
proof -
  let ?p = "ps ! i"
  note parts = address_parts [OF a]
  have j: "?p div 1024 < 1024" using parts(3) by simp
  have t: "tbl D s (?p div 1024) \<noteq> 0" and e: "pg_frame (load32 (memory s) (entry_at D s ?p)) = of_nat i"
    and pr: "pg_present (load32 (memory s) (entry_at D s ?p))" using maps i by (simp_all add: maps_def)
  have pde: "load32 (memory s) (D + 4096 + 4 * (a div 0x400000)) = tbl D s (?p div 1024) OR 7"
    using dir_okD(11) [OF ok j t] by (simp add: parts(1) dir_table_phys_def)
  note m = table_mask [OF dir_okD(8) [OF ok j t]]
  show "translate (memory s) (D + 4096) a = of_nat i * 0x1000 + a mod 0x1000"
    unfolding translate_def Let_def pde m parts(2) entry_at_def [symmetric] by (simp only: frame_mask e)
  have "bit (7::u32) 0" by simp
  then have "bit (tbl D s (?p div 1024) OR 7) 0" by (simp add: bit_or_iff)
  then show "page_present (memory s) (D + 4096) a"
    using pr unfolding page_present_def Let_def pde m parts(2) entry_at_def [symmetric] pg_present_def by simp
qed

lemma all_pages:
  "length ([0..<n] @ [786432..<786688]) = n + 256" "i < n \<Longrightarrow> ([0..<n] @ [786432..<786688]) ! i = i"
  "i < 256 \<Longrightarrow> ([0..<n] @ [786432..<786688]) ! (n + i) = 786432 + i"
proof -
  show "length ([0..<n] @ [786432..<786688]) = n + 256" by (simp only: length_append length_upt)
  show "i < n \<Longrightarrow> ([0..<n] @ [786432..<786688]) ! i = i" by (simp only: nth_append length_upt) simp
  assume "i < 256"
  then have "[786432..<786688] ! i = 786432 + i" by (intro nth_upt) simp
  then show "([0..<n] @ [786432..<786688]) ! (n + i) = 786432 + i"
    using nth_append_length_plus [of "[0..<n]" "[786432..<786688]" i] by (simp only: length_upt diff_zero)
qed

text \<open>The directory with the pages from 0 and those of the heap, where the next address of the allocator is one page
  below the end of the former.\<close>

lemma kernel_pages_translate:
  assumes ok: "dir_ok D F M s'" and n: "n \<le> 3340" "n * 4096 = unat (free_mem_addr s') + 4096"
    and maps: "maps D ([0..<n] @ [786432..<786688]) s'"
  shows "a < free_mem_addr s' + 0x1000 \<Longrightarrow> page_present (memory s') (D + 4096) a \<and> translate (memory s') (D + 4096) a = a"
    and "b < KHEAP_INITIAL_SIZE \<Longrightarrow> page_present (memory s') (D + 4096) (KHEAP_START + b)
      \<and> translate (memory s') (D + 4096) (KHEAP_START + b) = free_mem_addr s' + 0x1000 + b"
proof -
  have e: "unat (free_mem_addr s' + 0x1000) = n * 4096" using n by (simp add: bound_simps)
  then have en: "free_mem_addr s' + 0x1000 = of_nat n * 0x1000"
    using n(1) by (simp add: word_unat_eq_iff unat_word_ariths unat_of_nat_small)
  show "page_present (memory s') (D + 4096) a \<and> translate (memory s') (D + 4096) a = a" if "a < free_mem_addr s' + 0x1000" for a
  proof -
    define i where "i = unat a div 4096"
    have "unat a < n * 4096" using that e by (simp add: word_less_nat_alt)
    then have i: "i < n" by (simp add: i_def less_mult_imp_div_less)
    note tr = translate_mapped [OF ok maps, of i a, unfolded all_pages(1) all_pages(2) [OF i]]
    have "of_nat i * 0x1000 = a div 0x1000 * 0x1000" by (simp only: i_def page_number)
    then have "of_nat i * 0x1000 + a mod 0x1000 = a" using div_mult_mod_eq [of a "0x1000"] by simp
    then show ?thesis using tr i by (simp add: i_def [symmetric])
  qed
  show "page_present (memory s') (D + 4096) (KHEAP_START + b) \<and> translate (memory s') (D + 4096) (KHEAP_START + b) = free_mem_addr s' + 0x1000 + b"
    if "b < KHEAP_INITIAL_SIZE" for b
  proof -
    define i where "i = unat b div 4096"
    have b: "unat b < 0x100000" using that by (simp add: word_less_nat_alt KHEAP_INITIAL_SIZE_def)
    then have i: "i < 256" by (simp add: i_def)
    have "unat (KHEAP_START + b) = 3221225472 + unat b" using b by (simp add: KHEAP_START_def unat_word_ariths)
    then have p: "unat (KHEAP_START + b) div 4096 = 786432 + i" by (simp add: i_def)
    note tr = translate_mapped [OF ok maps, of "n + i" "KHEAP_START + b", unfolded all_pages(1) all_pages(3) [OF i]]
    have m: "(KHEAP_START + b) mod 0x1000 = b mod 0x1000"
      using \<open>unat (KHEAP_START + b) = 3221225472 + unat b\<close> mod_mult_self3 [of 786432 4096 "unat b"]
      by (simp add: word_unat_eq_iff unat_mod_distrib)
    have "of_nat i * 0x1000 = b div 0x1000 * 0x1000" by (simp only: i_def page_number)
    then have "of_nat (n + i) * 0x1000 + b mod 0x1000 = of_nat n * 0x1000 + b"
      using div_mult_mod_eq [of b "0x1000"] by (simp add: distrib_right add.assoc)
    then show ?thesis using tr i p m en by simp
  qed
qed

text \<open>Before paging is enabled, \<open>initialise_paging\<close> builds a directory under which the kernel goes on
  running: every address up to one page behind the early allocator's last table - the code, the ramdisk, the
  directory and its tables among it - is present and translated to itself, although the loop that maps it
  allocates tables on the way; and the megabyte of the heap is present and mapped to the megabyte of frames that
  follows, so no frame is mapped twice. It needs that the bitmap of frames does not reach into the directory and
  that the part of the bitmap that is not cleared holds zeros.\<close>

theorem kernel_directory_identity_maps:
  assumes "kheap s = 0" and "unat (free_mem_addr s) mod 4096 \<le> 3584" and "unat (free_mem_addr s) \<le> 0xC00000"
    and "\<And>a. within (free_mem_addr s + 128) 384 a \<Longrightarrow> memory s a = 0"
  shows "\<exists>s'. build_kernel_directory fuel s = Some s' \<and> unat (free_mem_addr s') \<le> 0xD0B000
    \<and> (\<forall>a < free_mem_addr s' + 0x1000. page_present (memory s') (fst (switch_page_directory (kernel_directory s') s')) a
         \<and> translate (memory s') (fst (switch_page_directory (kernel_directory s') s')) a = a)
    \<and> (\<forall>b < KHEAP_INITIAL_SIZE. page_present (memory s') (fst (switch_page_directory (kernel_directory s') s')) (KHEAP_START + b)
         \<and> translate (memory s') (fst (switch_page_directory (kernel_directory s') s')) (KHEAP_START + b)
           = free_mem_addr s' + 0x1000 + b)"
proof -
  let ?D = "page_up (free_mem_addr s + 128)"
  obtain s' n where run: "build_kernel_directory fuel s = Some s'" and ok: "dir_ok ?D (free_mem_addr s) (memory s) s'"
    and n: "n \<le> 3340" "n * 4096 = unat (free_mem_addr s') + 4096" and maps: "maps ?D ([0..<n] @ [786432..<786688]) s'"
    using build_kernel_directory_maps [OF assms, of fuel] by blast
  have cr3: "fst (switch_page_directory (kernel_directory s') s') = ?D + 4096"
    by (simp add: switch_page_directory_def dir_okD(2,13) [OF ok])
  note tr = kernel_pages_translate [OF ok n maps]
  show ?thesis using run tr n by (auto simp: cr3)
qed

theorem kernel_directory_identity_maps_witness:
  "\<exists>s'. build_kernel_directory 0 early_state = Some s'
    \<and> (\<forall>a < free_mem_addr s' + 0x1000. translate (memory s') (fst (switch_page_directory (kernel_directory s') s')) a = a)"
  using kernel_directory_identity_maps [of early_state 0] by (auto simp: early_state_def)

end
