(* ===== verification/Paging_Enabled.thy ===== *)
theory Paging_Enabled
  imports Heap_Aligned Paging_Build
begin

text \<open>
  What \<open>initialise_paging\<close> achieves from the moment it enables paging: memory is seen through the directory that was
  built, the heap is created behind it, and the directory is cloned into the heap. The clone shares every table with
  the kernel's directory, so the switch to it changes no address.
\<close>

subsection \<open>Cloning the kernel's directory\<close>

lemma set_dir_table_reads:
  assumes D: "unat dir + 8196 \<le> 4294967296" and j: "j < 1024" and k: "k < 1024"
  shows "dir_table (set_dir_table dir j t ph m) dir (of_nat k) = (if k = j then t else dir_table m dir (of_nat k))"
    and "dir_table_phys (set_dir_table dir j t ph m) dir (of_nat k) = (if k = j then ph else dir_table_phys m dir (of_nat k))"
    and "dir_physicalAddr (set_dir_table dir j t ph m) dir = dir_physicalAddr m dir"
proof -
  have e3: "dir + 8192 = dir + 4 * of_nat 2048" by simp
  have e: "dir + 4096 + 4 * of_nat i = dir + 4 * of_nat (1024 + i)" for i by (simp add: distrib_left)
  have s1: "apart (dir + 4096 + 4 * of_nat j) 4 (dir + 4 * of_nat k) 4" "apart (dir + 4 * of_nat j) 4 (dir + 4096 + 4 * of_nat k) 4"
    unfolding e by (rule slots_apart [where n = 2049]; use D j k in simp)+
  have s2: "apart (dir + 4 * of_nat j) 4 (dir + 4 * of_nat k) 4" "apart (dir + 4096 + 4 * of_nat j) 4 (dir + 4096 + 4 * of_nat k) 4"
    if "k \<noteq> j" unfolding e by (rule slots_apart [where n = 2049]; use D j k that in simp)+
  have s3: "apart (dir + 4 * of_nat j) 4 (dir + 8192) 4" "apart (dir + 4096 + 4 * of_nat j) 4 (dir + 8192) 4"
    unfolding e e3 by (rule slots_apart [where n = 2049]; use D j in simp)+
  show "dir_table (set_dir_table dir j t ph m) dir (of_nat k) = (if k = j then t else dir_table m dir (of_nat k))"
    using s1 s2 by (auto simp: dir_table_def set_dir_table_def mem_simps)
  show "dir_table_phys (set_dir_table dir j t ph m) dir (of_nat k) = (if k = j then ph else dir_table_phys m dir (of_nat k))"
    using s1 s2 by (auto simp: dir_table_phys_def set_dir_table_def mem_simps simp del: apart_same_base)
  show "dir_physicalAddr (set_dir_table dir j t ph m) dir = dir_physicalAddr m dir"
    using s3 by (simp add: dir_physicalAddr_def set_dir_table_def mem_simps del: apart_same_base)
qed

lemma set_dir_table_other:
  assumes "j < 1024" "\<not> within dir 8196 a"
  shows "set_dir_table dir j t ph m a = m a"
proof -
  have "\<not> within (dir + 4 * of_nat j) 4 a" "\<not> within (dir + 4096 + 4 * of_nat j) 4 a"
    using dir_slot_within [OF assms(1), of dir a] dir_phys_within [OF assms(1), of dir a] assms(2) by blast+
  then show ?thesis by (simp add: set_dir_table_def store32_other)
qed

text \<open>Two directories in two memories with the same tables at the positions \<open>K\<close>.\<close>

lemma dir_entries_cong:
  assumes "\<And>a. within D 8196 a \<Longrightarrow> m' a = m a" "k < 1024"
  shows "dir_table m' D (of_nat k) = dir_table m D (of_nat k)" "dir_table_phys m' D (of_nat k) = dir_table_phys m D (of_nat k)"
  unfolding dir_table_def dir_table_phys_def
  by (rule load32_cong; use assms dir_slot_within dir_phys_within in blast)+

lemma clone_tables_shares:
  assumes ap: "apart dir 8196 D 8196" and dir: "unat dir + 8196 \<le> 4294967296"
  shows "kernel_directory s = D \<Longrightarrow> set is \<subseteq> {..<1024} \<Longrightarrow> \<exists>m'. clone_tables fuel D dir is s = Some (s\<lparr>memory := m'\<rparr>)
    \<and> (\<forall>a. \<not> within dir 8196 a \<longrightarrow> m' a = memory s a) \<and> dir_physicalAddr m' dir = dir_physicalAddr (memory s) dir
    \<and> (\<forall>k<1024. dir_table m' dir (of_nat k) = (if k \<in> set is \<and> dir_table (memory s) D (of_nat k) \<noteq> 0
          then dir_table (memory s) D (of_nat k) else dir_table (memory s) dir (of_nat k))
        \<and> dir_table_phys m' dir (of_nat k) = (if k \<in> set is \<and> dir_table (memory s) D (of_nat k) \<noteq> 0
          then dir_table_phys (memory s) D (of_nat k) else dir_table_phys (memory s) dir (of_nat k)))"
proof (induction "is" arbitrary: s)
  case Nil
  then show ?case by (auto intro: exI [of _ "memory s"])
next
  case (Cons i "is")
  have i: "i < 1024" and rest: "set is \<subseteq> {..<1024}" using Cons.prems(2) by auto
  let ?t = "dir_table (memory s) D (of_nat i)"
  show ?case
  proof (cases "?t = 0")
    case True
    then have "clone_tables fuel D dir (i # is) s = clone_tables fuel D dir is s" by (simp add: Let_def)
    then show ?thesis using Cons.IH [OF Cons.prems(1) rest] True by (auto cong: if_cong)
  next
    case False
    let ?m = "set_dir_table dir i ?t (dir_table_phys (memory s) D (of_nat i)) (memory s)"
    have run: "clone_tables fuel D dir (i # is) s = clone_tables fuel D dir is (s\<lparr>memory := ?m\<rparr>)"
      using False Cons.prems(1) by (simp add: Let_def upd_mem_def)
    have "?m a = memory s a" if "within D 8196 a" for a
      using that ap by (intro set_dir_table_other [OF i]) (auto simp: apart_iff)
    note old = dir_entries_cong [OF this] and new = set_dir_table_reads [OF dir i]
    obtain m' where m': "clone_tables fuel D dir is (s\<lparr>memory := ?m\<rparr>) = Some (s\<lparr>memory := m'\<rparr>)"
      "\<forall>a. \<not> within dir 8196 a \<longrightarrow> m' a = ?m a" "dir_physicalAddr m' dir = dir_physicalAddr ?m dir"
      "\<forall>k<1024. dir_table m' dir (of_nat k) = (if k \<in> set is \<and> dir_table ?m D (of_nat k) \<noteq> 0
          then dir_table ?m D (of_nat k) else dir_table ?m dir (of_nat k))
        \<and> dir_table_phys m' dir (of_nat k) = (if k \<in> set is \<and> dir_table ?m D (of_nat k) \<noteq> 0
          then dir_table_phys ?m D (of_nat k) else dir_table_phys ?m dir (of_nat k))"
      using Cons.IH [of "s\<lparr>memory := ?m\<rparr>"] Cons.prems(1) rest by auto
    show ?thesis
    proof (intro exI [of _ m'] conjI allI impI)
      show "clone_tables fuel D dir (i # is) s = Some (s\<lparr>memory := m'\<rparr>)" using run m'(1) by simp
      show "m' a = memory s a" if "\<not> within dir 8196 a" for a using m'(2) that set_dir_table_other [OF i that] by simp
      show "dir_physicalAddr m' dir = dir_physicalAddr (memory s) dir" using m'(3) new(3) [OF i] by simp
    qed (use m'(4) old new False in \<open>auto split: if_splits\<close>)
  qed
qed

lemma clone_directory_shares:
  assumes km: "kmalloc_ap fuel 8196 s = Some (dir, phys, s1)" and D: "kernel_directory s1 = D"
    and ap: "apart dir 8196 D 8196" and dir: "unat dir + 8196 \<le> 4294967296"
  shows "\<exists>m'. clone_directory fuel D s = Some (dir, s1\<lparr>memory := m'\<rparr>)
    \<and> (\<forall>a. \<not> within dir 8196 a \<longrightarrow> m' a = memory s1 a) \<and> dir_physicalAddr m' dir = phys + 4096
    \<and> (\<forall>k<1024. dir_table m' dir (of_nat k) = dir_table (memory s1) D (of_nat k)
        \<and> (dir_table (memory s1) D (of_nat k) \<noteq> 0 \<longrightarrow> dir_table_phys m' dir (of_nat k) = dir_table_phys (memory s1) D (of_nat k)))"
proof -
  let ?m = "store32 (fill_bytes dir 8196 0 (memory s1)) (dir + 8192) (phys + 4096)"
  have upd: "memory (s1\<lparr>memory := ?m\<rparr>) = ?m" "s1\<lparr>memory := ?m, memory := m'\<rparr> = s1\<lparr>memory := m'\<rparr>"
    "kernel_directory (s1\<lparr>memory := ?m\<rparr>) = kernel_directory s1" for m' by simp_all
  define ks where "ks = [0..<1024]"
  have ks: "set ks = {..<1024}" by (simp only: ks_def set_upt atLeast0LessThan)
  have run: "clone_directory fuel D s = map_option (Pair dir) (clone_tables fuel D dir ks (s1\<lparr>memory := ?m\<rparr>))"
    by (simp add: clone_directory_def sizeof_page_directory_def km memset_zero_fills upd_mem_def Let_def flip: ks_def)
  have out: "?m a = memory s1 a" if "\<not> within dir 8196 a" for a
  proof -
    have "\<not> within (dir + 8192) 4 a" using that phys_addr_within by blast
    then show ?thesis using that by (simp add: store32_other fill_bytes_def)
  qed
  have old: "dir_table ?m D (of_nat k) = dir_table (memory s1) D (of_nat k)"
    "dir_table_phys ?m D (of_nat k) = dir_table_phys (memory s1) D (of_nat k)" if "k < 1024" for k
    using dir_entries_cong [of D ?m "memory s1" k] that out ap by (auto simp: apart_iff)
  have zero: "dir_table ?m dir (of_nat k) = 0" if k: "k < 1024" for k
  proof -
    have "?m a = 0" if "within (dir + 4 * of_nat k) 4 a" for a
    proof -
      have "within dir 4096 a" by (rule word_slot_within [OF _ _ that]) (use k in simp_all)
      then have "within dir 8196 a" "\<not> within (dir + 8192) 4 a"
        using within_mono [of dir 4096 a 8196] not_within_later [of dir 4096 a 8192 4] by simp_all
      then show ?thesis by (simp add: store32_other fill_bytes_def)
    qed
    then have "load32 ?m (dir + 4 * of_nat k) = load32 (\<lambda>_. 0) (dir + 4 * of_nat k)" by (intro load32_cong) simp
    then show ?thesis by (simp add: dir_table_def load32_def)
  qed
  note shares = clone_tables_shares [OF ap dir, of "s1\<lparr>memory := ?m\<rparr>" ks fuel, unfolded upd, OF D equalityD1 [OF ks]]
  obtain m' where m': "clone_tables fuel D dir ks (s1\<lparr>memory := ?m\<rparr>) = Some (s1\<lparr>memory := m'\<rparr>)"
    "\<forall>a. \<not> within dir 8196 a \<longrightarrow> m' a = ?m a" "dir_physicalAddr m' dir = dir_physicalAddr ?m dir"
    "\<forall>k<1024. dir_table m' dir (of_nat k) = (if k \<in> set ks \<and> dir_table ?m D (of_nat k) \<noteq> 0
          then dir_table ?m D (of_nat k) else dir_table ?m dir (of_nat k))
        \<and> dir_table_phys m' dir (of_nat k) = (if k \<in> set ks \<and> dir_table ?m D (of_nat k) \<noteq> 0
          then dir_table_phys ?m D (of_nat k) else dir_table_phys ?m dir (of_nat k))"
    using shares by blast
  show ?thesis
  proof (intro exI [of _ m'] conjI allI impI)
    show "clone_directory fuel D s = Some (dir, s1\<lparr>memory := m'\<rparr>)" by (simp only: run m'(1) option.map)
    show "m' a = memory s1 a" if "\<not> within dir 8196 a" for a using m'(2) out that by simp
    show "dir_physicalAddr m' dir = phys + 4096" unfolding m'(3) by (simp add: dir_physicalAddr_def mem_simps)
    fix k :: nat assume k: "k < 1024"
    show "dir_table m' dir (of_nat k) = dir_table (memory s1) D (of_nat k)"
      using m'(4) ks k old(1) [OF k] zero [OF k] by auto
    show "dir_table_phys m' dir (of_nat k) = dir_table_phys (memory s1) D (of_nat k)" if "dir_table (memory s1) D (of_nat k) \<noteq> 0"
      using m'(4) ks k old [OF k] that by auto
  qed
qed

subsection \<open>Views\<close>

text \<open>A page directory's array at \<open>c\<close>, and any memory that agrees on the tables, translate as the directory that was built.\<close>

lemma table_index: "unat (a::u32) div 4194304 < 1024" "(a::u32) div 0x400000 = of_nat (unat a div 4194304)"
proof -
  show j: "unat a div 4194304 < 1024" using unat_lt_2p32 [of a] by linarith
  have "unat (a div 0x400000) = unat a div 4194304" by (simp add: unat_div_distrib)
  then show "a div 0x400000 = of_nat (unat a div 4194304)"
    unfolding word_unat_eq_iff using j by (subst unat_of_nat_small) simp_all
qed

lemma same_view:
  assumes ok: "dir_ok D F M s" and low: "\<And>a. a < free_mem_addr s \<Longrightarrow> m' a = memory s a"
    and j: "j = unat a div 4194304" and t: "tbl D s j \<noteq> 0"
    and pde: "load32 m' (c + 4 * (a div 0x400000)) = dir_table_phys (memory s) D (of_nat j)"
  shows "translate m' c a = translate (memory s) (D + 4096) a"
    "page_present m' c a \<longleftrightarrow> page_present (memory s) (D + 4096) a"
proof -
  note j1024 = table_index(1) [of a, folded j] and aj = table_index(2) [of a, folded j]
  have p: "load32 (memory s) (D + 4096 + 4 * (a div 0x400000)) = tbl D s j OR 7"
    using dir_okD(11) [OF ok j1024 t] by (simp add: aj dir_table_phys_def)
  have p': "load32 m' (c + 4 * (a div 0x400000)) = tbl D s j OR 7" unfolding pde by (rule dir_okD(11) [OF ok j1024 t])
  note m = table_mask [OF dir_okD(8) [OF ok j1024 t]]
  have i: "a div 0x1000 mod 1024 = of_nat (unat (a div 0x1000 mod 1024))" by (simp only: of_nat_unat ucast_id)
  have i2: "unat (a div 0x1000 mod 1024) < 1024" by (simp add: unat_mod_distrib)
  have pte: "load32 m' (tbl D s j + 4 * (a div 0x1000 mod 1024)) = load32 (memory s) (tbl D s j + 4 * (a div 0x1000 mod 1024))"
  proof (rule load32_cong)
    fix c assume "within (tbl D s j + 4 * (a div 0x1000 mod 1024)) 4 c"
    then have "within (tbl D s j) 4096 c" by (subst (asm) i) (rule word_slot_within [rotated 2], assumption, use i2 in simp_all)
    moreover have "unat (tbl D s j) + 4096 \<le> unat (free_mem_addr s)" by (rule dir_okD(10) [OF ok j1024 t])
    moreover from this have "unat (tbl D s j) + 4096 \<le> 4294967296" using unat_lt_2p32 [of "free_mem_addr s"] by linarith
    ultimately have "c < free_mem_addr s" by (simp add: within_nat word_less_nat_alt)
    then show "m' c = memory s c" by (rule low)
  qed
  show "translate m' c a = translate (memory s) (D + 4096) a"
    "page_present m' c a \<longleftrightarrow> page_present (memory s) (D + 4096) a"
    unfolding translate_def page_present_def Let_def p p' m pte by (rule refl)+
qed

subsection \<open>The first allocation from the heap\<close>

lemma first_directory_block:
  assumes inv: "heap_inv s H [(0x80000, True)]" and at: "heap_start (memory s) H = 0xC0080000" "oa_array_at (memory s) H = KHEAP_START"
      "oa_max_size_at (memory s) H = 0x20000"
  obtains m where "alloc (Suc fuel) 8196 1 H s = Some (0xC0081000, s\<lparr>memory := m\<rparr>)"
    and "heap_inv (s\<lparr>memory := m\<rparr>) H [(4084, True), (8216, False), (511988, True)]"
    and "heap_start m H = 0xC0080000" "oa_array_at m H = KHEAP_START" "oa_max_size_at m H = 0x20000"
    and "\<And>c. within (H + 4) 4 c \<or> within KHEAP_START 0x100000 c \<or> m c = memory s c"
    and "\<forall>c. within 0xC008000C 524268 c \<longrightarrow> memory s c = 0 \<Longrightarrow> unat H + 32 \<le> 0xC0000000 \<Longrightarrow>
      zeroed m 0xC0080000 [(4084, True), (8216, False), (511988, True)]"
proof -
  have f: "front 0xC0080000 = 4084" by (simp add: front_def)
  note fits = one_hole_fits [OF inv, unfolded at(1) f, of 8196, simplified]
  have "length (oa_list (memory s) H) = 1" using inv at(1) by (simp add: heap_inv_def Let_def flip: size_mset)
  then have room: "oa_size_at (memory s) H < oa_max_size_at (memory s) H"
    by (simp add: index_length at(3) word_less_nat_alt)
  have hole: "0xC0080000 \<in> set (holes (heap_start (memory s) H) [(0x80000, True)])" by (simp add: at(1))
  have clean: "cuts_cleanly (heap_start (memory s) H + of_nat (total xs)) n (unat (8196 :: u32) + 20)"
    if "[(0x80000, True)] = xs @ (n, True) # ys" for xs n ys
    using that fits(2) by (auto simp: Cons_eq_append_conv at(1))
  obtain xs n ys p us vs m where one: "[(0x80000, True)] = xs @ (n, True) # ys" "p = heap_start (memory s) H + of_nat (total xs)"
    and run: "alloc (Suc fuel) 8196 1 H s = Some (p + of_nat (front p) + 12, s\<lparr>memory := m\<rparr>)"
    and inv': "heap_inv (s\<lparr>memory := m\<rparr>) H (xs @ page_cut (front p) (unat (8196 :: u32) + 20) n @ ys)"
    and fr: "\<And>c. index_byte (memory s) H c \<or> cut_own p (front p) (unat (8196 :: u32) + 20) n c \<or> m c = memory s c"
    and fields: "heap_start m H = heap_start (memory s) H" "oa_array_at m H = oa_array_at (memory s) H"
      "oa_max_size_at m H = oa_max_size_at (memory s) H"
    by (rule alloc_aligned_hole [OF inv room, of 1 "0xC0080000" 8196, where fuel = fuel]) (use hole fits(1) clean in auto)
  have p: "xs = []" "ys = []" "n = 0x80000" "p = 0xC0080000" using one by (auto simp: Cons_eq_append_conv at(1))
  have "within (H + 4) 4 c \<or> within KHEAP_START 0x100000 c \<or> m c = memory s c" for c
    using fr [of c] at(2,3) by (auto simp: index_byte_def cut_own_def p f KHEAP_START_def within_nat)
  moreover have "m c = memory s c"
    if c: "within 0xC008000C 4064 c \<or> within 0xC0083018 511968 c" "unat H + 32 \<le> 0xC0000000" for c
  proof -
    have "unat (H + 4) = unat H + 4" using c(2) by (intro unat_add_numeral_nowrap) simp
    then have "\<not> within (H + 4) 4 c" using c by (auto simp: within_nat)
    then show ?thesis using fr [of c] at(2,3) c by (auto simp: index_byte_def cut_own_def p f KHEAP_START_def within_nat)
  qed
  then have "zeroed m 0xC0080000 [(4084, True), (8216, False), (511988, True)]"
    if "\<forall>c. within 0xC008000C 524268 c \<longrightarrow> memory s c = 0" "unat H + 32 \<le> 0xC0000000" using that by (simp add: within_nat)
  ultimately show thesis using run inv' fields at by (intro that [of m]) (simp_all add: p f page_cut_def)
qed

subsection \<open>From the directory to the running system\<close>

text \<open>What \<open>build_kernel_directory\<close> leaves: the pages \<open>0..<n\<close> and those of the heap, and where the allocator stands.\<close>

definition used_pages :: "nat \<Rightarrow> nat list" where
  "used_pages n = [0..<n] @ [786432..<786688]"

lemmas used_pages_nth = all_pages [folded used_pages_def]

definition built :: "u32 \<Rightarrow> u32 \<Rightarrow> mem \<Rightarrow> nat \<Rightarrow> kstate \<Rightarrow> bool" where
  "built D F M n s \<longleftrightarrow> dir_ok D F M s \<and> n \<le> 3340 \<and> n * 4096 = unat (free_mem_addr s) + 4096
     \<and> maps D (used_pages n) s"

lemma built_tables:
  assumes b: "built D F M n s"
  shows "a < free_mem_addr s + 0x1000 \<Longrightarrow> tbl D s (unat a div 4194304) \<noteq> 0"
    and "x < KHEAP_INITIAL_SIZE \<Longrightarrow> tbl D s (unat (KHEAP_START + x) div 4194304) \<noteq> 0"
    and "tbl D s 768 \<noteq> 0"
    and "i < 256 \<Longrightarrow> pg_frame (load32 (memory s) (entry_at D s (786432 + i))) = of_nat (n + i)"
proof -
  have n: "n \<le> 3340" "n * 4096 = unat (free_mem_addr s) + 4096" and m: "maps D (used_pages n) s"
    using b by (simp_all add: built_def)
  have page: "tbl D s (used_pages n ! i div 1024) \<noteq> 0"
    "pg_frame (load32 (memory s) (entry_at D s (used_pages n ! i))) = of_nat i" if "i < n + 256" for i
    using m that unfolding maps_def used_pages_nth(1) by blast+
  show "tbl D s (unat a div 4194304) \<noteq> 0" if "a < free_mem_addr s + 0x1000"
  proof -
    have "unat (free_mem_addr s + 0x1000) = n * 4096" using n by (simp add: bound_simps)
    then have "unat a div 4096 < n" using that by (simp add: word_less_nat_alt less_mult_imp_div_less)
    then show ?thesis using page(1) [of "unat a div 4096"] used_pages_nth(2) [of "unat a div 4096" n] by (simp add: div_mult2_eq [symmetric])
  qed
  have all: "used_pages n ! (n + i) = 786432 + i" if "i < 256" for i by (rule used_pages_nth(3) [OF that])
  show t: "tbl D s 768 \<noteq> 0" using page(1) [of n] unfolding all [of 0, simplified] by simp
  show "pg_frame (load32 (memory s) (entry_at D s (786432 + i))) = of_nat (n + i)" if "i < 256"
    using page(2) [of "n + i", unfolded all [OF that]] that by simp
  show "tbl D s (unat (KHEAP_START + x) div 4194304) \<noteq> 0" if "x < KHEAP_INITIAL_SIZE"
  proof -
    have x: "unat x < 0x100000" using that by (simp add: word_less_nat_alt KHEAP_INITIAL_SIZE_def)
    then have "unat (KHEAP_START + x) = 3221225472 + unat x" by (simp add: KHEAP_START_def unat_word_ariths)
    then have "unat (KHEAP_START + x) div 4194304 = 768" using x by simp
    then show ?thesis using t by simp
  qed
qed

text \<open>The first frame number behind the pages in use.\<close>

lemma built_frame:
  assumes "built D F M n s"
  shows "of_nat (n + 129) * 0x1000 = free_mem_addr s + 0x82000"
proof -
  have n: "n \<le> 3340" "n * 4096 = unat (free_mem_addr s) + 4096" using assms by (simp_all add: built_def)
  have "unat (free_mem_addr s + 0x1000) = n * 4096" using n by (simp add: bound_simps)
  then have "free_mem_addr s + 0x1000 = of_nat n * 0x1000"
    using n(1) by (simp add: word_unat_eq_iff unat_word_ariths unat_of_nat_small)
  then have "free_mem_addr s + 0x1000 + 0x81000 = of_nat (n + 129) * 0x1000" by (simp add: distrib_right)
  then show ?thesis by simp
qed

text \<open>After paging is enabled, memory below the end of the pages in use is what it was.\<close>

lemma enabled_low:
  assumes b: "built D F M n s" and a: "a < free_mem_addr s + 0x1000"
  shows "virtual_memory (D + 4096) (memory s) a = memory s a"
  using kernel_pages_translate(1) [folded used_pages_def, of D F M s n a] b a by (simp add: built_def virtual_memory_def)

lemma built_bounds:
  assumes b: "built D F M n s"
  shows "unat (free_mem_addr s) \<le> 0xD0B000" "4096 \<le> unat (free_mem_addr s)" "unat D + 0x3000 \<le> unat (free_mem_addr s)"
    "kheap s = 0" "kernel_directory s = D" "dir_ok D F M s"
proof -
  show ok: "dir_ok D F M s" using b by (simp add: built_def)
  show "kheap s = 0" "kernel_directory s = D" "unat D + 0x3000 \<le> unat (free_mem_addr s)" by (rule dir_okD [OF ok])+
  then show "4096 \<le> unat (free_mem_addr s)" by linarith
  have "n \<le> 3340" "n * 4096 = unat (free_mem_addr s) + 4096" using b by (simp_all add: built_def)
  then show "unat (free_mem_addr s) \<le> 0xD0B000" by simp
qed

text \<open>The heap's megabyte is the megabyte of frames behind the pages in use.\<close>

lemma enabled_heap:
  assumes b: "built D F M n s" and c: "within KHEAP_START 0x100000 c"
    and zero: "\<forall>a. within (free_mem_addr s + 0x1000) 0x100000 a \<longrightarrow> memory s a = 0"
  shows "virtual_memory (D + 4096) (memory s) c = 0"
proof -
  let ?x = "c - KHEAP_START" and ?H = "free_mem_addr s"
  have cx: "unat KHEAP_START \<le> unat c" "unat c < unat KHEAP_START + 0x100000" using c by (simp_all add: within_nat KHEAP_START_def)
  then have x: "unat ?x < 0x100000" by (subst unat_sub_nowrap) simp_all
  then have "?x < KHEAP_INITIAL_SIZE" by (simp add: word_less_nat_alt KHEAP_INITIAL_SIZE_def)
  from kernel_pages_translate(2) [folded used_pages_def, of D F M s n ?x] this b
  have tr: "translate (memory s) (D + 4096) c = ?H + 0x1000 + ?x" by (simp add: built_def)
  have "unat (?H + 0x1000) = unat ?H + 4096" "unat ?H \<le> 0xD0B000" using built_bounds(1) [OF b] by (simp_all add: bound_simps)
  moreover from this have "unat (?H + 0x1000 + ?x) = unat ?H + 4096 + unat ?x" using x by (subst unat_add_nowrap) simp_all
  ultimately have "within (?H + 0x1000) 0x100000 (?H + 0x1000 + ?x)" using x by (simp add: within_nat)
  then show ?thesis using zero by (simp add: virtual_memory_def tr)
qed

lemma heap_behind_paging:
  assumes b: "built D F M n s" and fn: "fn \<noteq> 0"
  obtains s3 where "create_heap fuel fn KHEAP_START (KHEAP_START + KHEAP_INITIAL_SIZE) 0xCFFFF000 0 0
      (s\<lparr>current_directory := D, memory := virtual_memory (D + 4096) (memory s)\<rparr>) = Some (free_mem_addr s, s3)"
    and "heap_inv s3 (free_mem_addr s) [(0x80000, True)]" "heap_start (memory s3) (free_mem_addr s) = 0xC0080000"
    and "oa_array_at (memory s3) (free_mem_addr s) = KHEAP_START" "oa_max_size_at (memory s3) (free_mem_addr s) = 0x20000"
    and "kernel_directory s3 = D" "\<And>a. a < free_mem_addr s \<Longrightarrow> memory s3 a = memory s a"
    and "\<forall>c. within (free_mem_addr s + 0x1000) 0x100000 c \<longrightarrow> memory s c = 0 \<Longrightarrow>
      \<forall>c. within 0xC008000C 524268 c \<longrightarrow> memory s3 c = 0"
proof -
  let ?s = "s\<lparr>current_directory := D, memory := virtual_memory (D + 4096) (memory s)\<rparr>" let ?H = "free_mem_addr s"
  note bb = built_bounds [OF b]
  have hn: "unat ?H + 4096 < 4294967296" using bb(1) by simp
  have early: "kheap ?s = 0" "free_mem_addr ?s = ?H" using bb(4) by simp_all
  have al: "KHEAP_START mod 0x1000 = 0" "(KHEAP_START + KHEAP_INITIAL_SIZE) mod 0x1000 = 0"
    "unat KHEAP_START + 0x80000 + 20 \<le> unat (KHEAP_START + KHEAP_INITIAL_SIZE)"
    by (simp_all add: KHEAP_START_def KHEAP_INITIAL_SIZE_def)
  have size: "unat (KHEAP_START + KHEAP_INITIAL_SIZE) - unat KHEAP_START - 0x80000 = 0x80000"
    "unat (KHEAP_START + KHEAP_INITIAL_SIZE) - unat KHEAP_START = 0x100000"
    by (simp_all add: KHEAP_START_def KHEAP_INITIAL_SIZE_def)
  have "apart ?H 32 KHEAP_START 0x100000" by (rule apart_nat(1)) (use bb(1) in \<open>simp_all add: KHEAP_START_def\<close>)
  then show thesis
  proof (rule create_heap_one_hole [OF early fn al, unfolded size, of fuel "0xCFFFF000" 0 0], goal_cases)
    case (1 s3)
    note r = this
    have "memory s3 a = memory s a" if a: "a < ?H" for a
    proof -
      have u: "unat a < unat ?H" using a by (simp add: word_less_nat_alt)
      have "unat (?H + 0x1000) = unat ?H + 4096" using hn by (simp add: bound_simps)
      then have "a < ?H + 0x1000" using u by (simp add: word_less_nat_alt)
      moreover have "\<not> within ?H 32 a" using u hn by (simp add: within_nat)
      moreover have "\<not> within KHEAP_START 0x80000 a" "\<not> within (KHEAP_START + 0x80000) 12 a"
        using u bb(1) by (simp_all add: within_nat KHEAP_START_def)
      ultimately show ?thesis using r(12) [of a] enabled_low [OF b, of a] by simp
    qed
    moreover have "memory s3 c = 0" if z: "\<forall>c. within (?H + 0x1000) 0x100000 c \<longrightarrow> memory s c = 0" and c: "within 0xC008000C 524268 c" for c
    proof -
      have "memory s3 c = virtual_memory (D + 4096) (memory s) c"
        using r(12) [of c] c bb(1) by (simp add: within_nat KHEAP_START_def)
      also have "\<dots> = 0" using enabled_heap [OF b, of c] z c by (simp add: within_nat KHEAP_START_def)
      finally show ?thesis .
    qed
    ultimately show ?case using r bb(5) by (intro that [of s3]) (simp_all add: KHEAP_START_def)
  qed
qed

lemma low_tables:
  assumes b: "built D F M n s" and low: "\<And>a. a < free_mem_addr s \<Longrightarrow> memory s' a = memory s a" and k: "k < 1024"
  shows "tbl D s' k = tbl D s k" "dir_table_phys (memory s') D (of_nat k) = dir_table_phys (memory s) D (of_nat k)"
    and "p < 1048576 \<Longrightarrow> p div 1024 = k \<Longrightarrow> tbl D s k \<noteq> 0 \<Longrightarrow> load32 (memory s') (entry_at D s' p) = load32 (memory s) (entry_at D s p)"
proof -
  note bb = built_bounds [OF b]
  have "memory s' a = memory s a" if "within D 8196 a" for a
    using that bb(1,3) by (intro low) (simp add: within_nat word_less_nat_alt)
  note c = dir_loads_cong [OF this k]
  show "tbl D s' k = tbl D s k" "dir_table_phys (memory s') D (of_nat k) = dir_table_phys (memory s) D (of_nat k)"
    by (rule c(1), assumption) (rule c(2), assumption)
  assume p: "p < 1048576" "p div 1024 = k" and t: "tbl D s k \<noteq> 0"
  have "memory s' a = memory s a" if "within (entry_at D s p) 4 a" for a
  proof (rule low)
    have "within (tbl D s k) 4096 a" using entry_within [OF p(1) that] by (simp add: p(2))
    then show "a < free_mem_addr s"
      using dir_okD(10) [OF bb(6) k t] bb(1) by (simp add: within_nat word_less_nat_alt)
  qed
  then show "load32 (memory s') (entry_at D s' p) = load32 (memory s) (entry_at D s p)"
    using c(1) by (intro entry_cong) (simp_all add: p(2))
qed

text \<open>The first allocation of \<open>kmalloc_ap\<close> from the new heap, with its physical address.\<close>

lemma first_kmalloc_ap:
  assumes b: "built D F M n s" and s4: "kheap s4 = free_mem_addr s" "kernel_directory s4 = D"
    and inv: "heap_inv s4 (free_mem_addr s) [(0x80000, True)]" and at: "heap_start (memory s4) (free_mem_addr s) = 0xC0080000"
      "oa_array_at (memory s4) (free_mem_addr s) = KHEAP_START" "oa_max_size_at (memory s4) (free_mem_addr s) = 0x20000"
    and low: "\<And>a. a < free_mem_addr s \<Longrightarrow> memory s4 a = memory s a"
  obtains m where "kmalloc_ap (Suc fuel) 8196 s4 = Some (0xC0081000, free_mem_addr s + 0x82000, s4\<lparr>memory := m\<rparr>)"
    and "heap_inv (s4\<lparr>memory := m\<rparr>) (free_mem_addr s) [(4084, True), (8216, False), (511988, True)]"
    and "heap_start m (free_mem_addr s) = 0xC0080000" "oa_array_at m (free_mem_addr s) = KHEAP_START"
      "oa_max_size_at m (free_mem_addr s) = 0x20000" "\<And>a. a < free_mem_addr s \<Longrightarrow> m a = memory s a"
    and "\<forall>c. within 0xC008000C 524268 c \<longrightarrow> memory s4 c = 0 \<Longrightarrow> zeroed m 0xC0080000 [(4084, True), (8216, False), (511988, True)]"
proof -
  let ?H = "free_mem_addr s"
  note bb = built_bounds [OF b] and bt = built_tables [OF b]
  obtain m where al: "alloc (Suc fuel) 8196 1 ?H s4 = Some (0xC0081000, s4\<lparr>memory := m\<rparr>)"
    and inv': "heap_inv (s4\<lparr>memory := m\<rparr>) ?H [(4084, True), (8216, False), (511988, True)]"
    and at': "heap_start m ?H = 0xC0080000" "oa_array_at m ?H = KHEAP_START" "oa_max_size_at m ?H = 0x20000"
    and fr: "\<And>c. within (?H + 4) 4 c \<or> within KHEAP_START 0x100000 c \<or> m c = memory s4 c"
    and zero: "\<forall>c. within 0xC008000C 524268 c \<longrightarrow> memory s4 c = 0 \<Longrightarrow> unat ?H + 32 \<le> 0xC0000000 \<Longrightarrow>
      zeroed m 0xC0080000 [(4084, True), (8216, False), (511988, True)]"
    by (rule first_directory_block [OF inv at, of fuel]) fast
  have low': "m a = memory s a" if a: "a < ?H" for a
  proof -
    have u: "unat a < unat ?H" using a by (simp add: word_less_nat_alt)
    have "unat (?H + 4) = unat ?H + 4" using bb(1) by (intro unat_add_numeral_nowrap) simp
    then have "\<not> within (?H + 4) 4 a" "\<not> within KHEAP_START 0x100000 a"
      using u bb(1) by (simp_all add: within_nat KHEAP_START_def)
    then show ?thesis using fr [of a] low [OF a] by simp
  qed
  let ?s5 = "s4\<lparr>memory := m\<rparr>"
  have l5: "memory ?s5 a = memory s a" if "a < ?H" for a using low' [OF that] by simp
  have page: "get_page f 0xC0081000 False D ?s5 = Some (entry_at D ?s5 786561, ?s5)" for f
    using get_page_present [of 786561 D ?s5 f False] low_tables(1) [OF b l5, of 768] bt(3) by simp
  have "load32 m (entry_at D ?s5 786561) = load32 (memory s) (entry_at D s 786561)"
    using low_tables(3) [OF b l5, of 768 786561] bt(3) by simp
  then have "pg_frame (load32 m (entry_at D ?s5 786561)) * 0x1000 = ?H + 0x82000"
    using bt(4) [of 129] built_frame [OF b] by simp
  moreover have "?H \<noteq> 0" using bb(2) by auto
  ultimately have "kmalloc_ap (Suc fuel) 8196 s4 = Some (0xC0081000, ?H + 0x82000, ?s5)"
    using al page s4 by (simp add: kmalloc_ap_def kmalloc_int_def kmalloc_int_with_def del: alloc.simps)
  then show thesis using inv' at' low' zero bb(1) by (intro that [of m]) simp_all
qed

text \<open>Writes into the data of the block keep the heap.\<close>

lemma directory_block_own:
  assumes inv: "heap_inv s H [(4084, True), (8216, False), (511988, True)]" and at: "heap_start (memory s) H = 0xC0080000"
    "oa_array_at (memory s) H = KHEAP_START" "oa_max_size_at (memory s) H = 0x20000" and H: "unat H + 32 \<le> 0xC0000000"
    and out: "\<And>c. \<not> within 0xC0081000 8196 c \<Longrightarrow> m c = memory s c"
  shows "heap_inv (s\<lparr>memory := m\<rparr>) H [(4084, True), (8216, False), (511988, True)]"
    "heap_start m H = 0xC0080000" "oa_array_at m H = KHEAP_START" "oa_max_size_at m H = 0x20000"
proof -
  have "m c = memory s c" if "heap_own (memory s) H [(4084, True), (8216, False), (511988, True)] c" for c
    using that H by (intro out) (auto simp: heap_own_def at KHEAP_START_def within_nat)
  from heap_own_cong(1,2) [OF inv this] at(1)
  show "heap_inv (s\<lparr>memory := m\<rparr>) H [(4084, True), (8216, False), (511988, True)]" "heap_start m H = 0xC0080000" by simp_all
  have "m c = memory s c" if "within H 32 c" for c using that H by (intro out) (auto simp: within_nat)
  then have "load32 m (H + of_nat j) = load32 (memory s) (H + of_nat j)" if "j \<le> 28" for j
    using that by (intro load32_field [of H 32]) auto
  from this [of 0] this [of 8] show "oa_array_at m H = KHEAP_START" "oa_max_size_at m H = 0x20000"
    using at(2,3) by (simp_all add: oa_array_at_def oa_max_size_at_def)
qed

lemma clone_behind_paging:
  assumes b: "built D F M n s" and s4: "kheap s4 = free_mem_addr s" "kernel_directory s4 = D"
    and inv: "heap_inv s4 (free_mem_addr s) [(0x80000, True)]" and at: "heap_start (memory s4) (free_mem_addr s) = 0xC0080000"
      "oa_array_at (memory s4) (free_mem_addr s) = KHEAP_START" "oa_max_size_at (memory s4) (free_mem_addr s) = 0x20000"
    and low: "\<And>a. a < free_mem_addr s \<Longrightarrow> memory s4 a = memory s a"
  obtains m where "clone_directory (Suc fuel) D s4 = Some (0xC0081000, s4\<lparr>memory := m\<rparr>)"
    and "heap_inv (s4\<lparr>memory := m\<rparr>) (free_mem_addr s) [(4084, True), (8216, False), (511988, True)]"
    and "dir_physicalAddr m 0xC0081000 = free_mem_addr s + 0x83000" "\<And>a. a < free_mem_addr s \<Longrightarrow> m a = memory s a"
    and "\<And>k. k < 1024 \<Longrightarrow> dir_table m 0xC0081000 (of_nat k) = tbl D s k
      \<and> (tbl D s k \<noteq> 0 \<longrightarrow> dir_table_phys m 0xC0081000 (of_nat k) = dir_table_phys (memory s) D (of_nat k))"
    and "heap_start m (free_mem_addr s) = 0xC0080000" "oa_array_at m (free_mem_addr s) = KHEAP_START"
      "oa_max_size_at m (free_mem_addr s) = 0x20000"
    and "\<forall>c. within 0xC008000C 524268 c \<longrightarrow> memory s4 c = 0 \<Longrightarrow> zeroed m 0xC0080000 [(4084, True), (8216, False), (511988, True)]"
proof -
  let ?H = "free_mem_addr s"
  note bb = built_bounds [OF b]
  obtain m5 where km: "kmalloc_ap (Suc fuel) 8196 s4 = Some (0xC0081000, ?H + 0x82000, s4\<lparr>memory := m5\<rparr>)"
    and inv5: "heap_inv (s4\<lparr>memory := m5\<rparr>) ?H [(4084, True), (8216, False), (511988, True)]"
    and at5: "heap_start m5 ?H = 0xC0080000" "oa_array_at m5 ?H = KHEAP_START" "oa_max_size_at m5 ?H = 0x20000"
    and low5: "\<And>a. a < ?H \<Longrightarrow> m5 a = memory s a"
    and zero5: "\<forall>c. within 0xC008000C 524268 c \<longrightarrow> memory s4 c = 0 \<Longrightarrow> zeroed m5 0xC0080000 [(4084, True), (8216, False), (511988, True)]"
    by (rule first_kmalloc_ap [OF assms(1-7), of fuel], erule low, rule that)
  let ?s5 = "s4\<lparr>memory := m5\<rparr>"
  have ap: "apart 0xC0081000 8196 D 8196" by (rule apart_nat(2)) (use bb(1,3) in simp_all)
  have D5: "kernel_directory ?s5 = D" and dir: "unat (0xC0081000 :: u32) + 8196 \<le> 4294967296" by (simp_all add: s4)
  obtain m where cl: "clone_directory (Suc fuel) D s4 = Some (0xC0081000, ?s5\<lparr>memory := m\<rparr>)"
    "\<forall>a. \<not> within 0xC0081000 8196 a \<longrightarrow> m a = memory ?s5 a" "dir_physicalAddr m 0xC0081000 = ?H + 0x82000 + 4096"
    "\<forall>k<1024. dir_table m 0xC0081000 (of_nat k) = dir_table (memory ?s5) D (of_nat k)
        \<and> (dir_table (memory ?s5) D (of_nat k) \<noteq> 0 \<longrightarrow> dir_table_phys m 0xC0081000 (of_nat k) = dir_table_phys (memory ?s5) D (of_nat k))"
    using clone_directory_shares [OF km D5 ap dir] by blast
  have l5: "memory ?s5 a = memory s a" if "a < ?H" for a using low5 [OF that] by simp
  have "m a = memory s a" if a: "a < ?H" for a
  proof -
    have "unat a < unat ?H" using a by (simp add: word_less_nat_alt)
    then have "\<not> within 0xC0081000 8196 a" using bb(1) by (simp add: within_nat)
    then show ?thesis using cl(2) l5 [OF a] by simp
  qed
  moreover have "heap_inv (?s5\<lparr>memory := m\<rparr>) ?H [(4084, True), (8216, False), (511988, True)]"
    by (rule directory_block_own(1) [OF inv5]) (use at5 bb(1) cl(2) in simp_all)
  moreover have "heap_start m ?H = 0xC0080000" "oa_array_at m ?H = KHEAP_START" "oa_max_size_at m ?H = 0x20000"
    by (rule directory_block_own(2-4) [OF inv5, of m]; use at5 bb(1) cl(2) in simp)+
  moreover have "zeroed m 0xC0080000 [(4084, True), (8216, False), (511988, True)]" if "\<forall>c. within 0xC008000C 524268 c \<longrightarrow> memory s4 c = 0"
    using zero5 [OF that] cl(2) by (simp add: within_nat)
  moreover have "dir_table m 0xC0081000 (of_nat k) = tbl D s k
      \<and> (tbl D s k \<noteq> 0 \<longrightarrow> dir_table_phys m 0xC0081000 (of_nat k) = dir_table_phys (memory s) D (of_nat k))" if k: "k < 1024" for k
    using cl(4) k low_tables(1,2) [OF b l5 k] by (simp add: tbl_def)
  ultimately show thesis using cl(1,3) by (intro that [of m]) simp_all
qed

text \<open>The run, with the state \<open>s1\<close> in which paging is enabled and the last memory \<open>m\<close>.\<close>

lemma initialise_paging_runs:
  assumes early: "kheap s = 0" "unat (free_mem_addr s) mod 4096 \<le> 3584" "unat (free_mem_addr s) \<le> 0xC00000"
    and rest: "\<forall>a. within (free_mem_addr s + 128) 384 a \<longrightarrow> memory s a = 0" and fn: "fn \<noteq> 0"
  obtains D n s1 m s' where "built D (free_mem_addr s) (memory s) n s1"
    and "initialise_paging (Suc fuel) fn page_fault_cb hs s = Some (hs[14 := Some page_fault_cb], free_mem_addr s1 + 0x83000, s')"
    and "kheap s' = free_mem_addr s1" "memory s' = m" "kernel_directory s' = D" "current_directory s' = 0xC0081000"
    and "heap_inv s' (free_mem_addr s1) [(4084, True), (8216, False), (511988, True)]"
    and "\<forall>a < free_mem_addr s1. m a = memory s1 a"
    and "\<forall>k<1024. dir_table m 0xC0081000 (of_nat k) = tbl D s1 k
      \<and> (tbl D s1 k \<noteq> 0 \<longrightarrow> dir_table_phys m 0xC0081000 (of_nat k) = dir_table_phys (memory s1) D (of_nat k))"
    and "heap_start m (free_mem_addr s1) = 0xC0080000" "oa_array_at m (free_mem_addr s1) = KHEAP_START"
      "oa_max_size_at m (free_mem_addr s1) = 0x20000"
    and "\<forall>a. free_mem_addr s \<le> a \<longrightarrow> a < 0x1000000 \<longrightarrow> memory s a = 0 \<Longrightarrow> zeroed m 0xC0080000 [(4084, True), (8216, False), (511988, True)]"
proof -
  let ?D = "page_up (free_mem_addr s + 128)"
  obtain s1 n where build: "build_kernel_directory (Suc fuel) s = Some s1" and b: "built ?D (free_mem_addr s) (memory s) n s1"
    using build_kernel_directory_maps [OF early, of "Suc fuel", folded used_pages_def] rest unfolding built_def by blast
  let ?H = "free_mem_addr s1"
  note bb = built_bounds [OF b]
  let ?v = "s1\<lparr>current_directory := ?D, memory := virtual_memory (?D + 4096) (memory s1)\<rparr>"
  obtain s3 where heap: "create_heap (Suc fuel) fn KHEAP_START (KHEAP_START + KHEAP_INITIAL_SIZE) 0xCFFFF000 0 0 ?v = Some (?H, s3)"
    and inv: "heap_inv s3 ?H [(0x80000, True)]" "heap_start (memory s3) ?H = 0xC0080000"
      "oa_array_at (memory s3) ?H = KHEAP_START" "oa_max_size_at (memory s3) ?H = 0x20000"
    and kd: "kernel_directory s3 = ?D" and low3: "\<And>a. a < ?H \<Longrightarrow> memory s3 a = memory s1 a"
    and zero3: "\<forall>c. within (?H + 0x1000) 0x100000 c \<longrightarrow> memory s1 c = 0 \<Longrightarrow>
      \<forall>c. within 0xC008000C 524268 c \<longrightarrow> memory s3 c = 0"
    by (rule heap_behind_paging [OF b fn, of "Suc fuel"], rule that)
  let ?s4 = "s3\<lparr>kheap := ?H\<rparr>"
  have s4: "kheap ?s4 = ?H" "kernel_directory ?s4 = ?D" "heap_inv ?s4 ?H [(0x80000, True)]" "memory ?s4 = memory s3"
    using kd inv(1) by (simp_all add: heap_inv_def)
  obtain m where cl: "clone_directory (Suc fuel) ?D ?s4 = Some (0xC0081000, ?s4\<lparr>memory := m\<rparr>)"
    and inv': "heap_inv (?s4\<lparr>memory := m\<rparr>) ?H [(4084, True), (8216, False), (511988, True)]"
    and phys: "dir_physicalAddr m 0xC0081000 = ?H + 0x83000" and low: "\<And>a. a < ?H \<Longrightarrow> m a = memory s1 a"
    and tables: "\<And>k. k < 1024 \<Longrightarrow> dir_table m 0xC0081000 (of_nat k) = tbl ?D s1 k
      \<and> (tbl ?D s1 k \<noteq> 0 \<longrightarrow> dir_table_phys m 0xC0081000 (of_nat k) = dir_table_phys (memory s1) ?D (of_nat k))"
    and at: "heap_start m ?H = 0xC0080000" "oa_array_at m ?H = KHEAP_START" "oa_max_size_at m ?H = 0x20000"
    and zero: "\<forall>c. within 0xC008000C 524268 c \<longrightarrow> memory s3 c = 0 \<Longrightarrow> zeroed m 0xC0080000 [(4084, True), (8216, False), (511988, True)]"
    by (rule clone_behind_paging [OF b s4(1-3), unfolded s4(4), OF inv(2-4), of fuel], erule low3, rule that)
  let ?s' = "?s4\<lparr>memory := m, current_directory := 0xC0081000\<rparr>"
  have "zeroed m 0xC0080000 [(4084, True), (8216, False), (511988, True)]"
    if z: "\<forall>a. free_mem_addr s \<le> a \<longrightarrow> a < 0x1000000 \<longrightarrow> memory s a = 0"
  proof (rule zero [OF zero3], intro allI impI)
    fix c assume c: "within (?H + 0x1000) 0x100000 c"
    have u: "unat (?H + 0x1000) = unat ?H + 4096" using bb(1) by (simp add: bound_simps)
    then have "?H \<le> c" "c < 0x1000000" using c bb(1) by (simp_all add: within_nat word_le_nat_alt word_less_nat_alt)
    moreover from this have "free_mem_addr s \<le> c"
      using dir_okD(6,7) [OF bb(6)] by (simp add: word_le_nat_alt)
    moreover have "memory s1 c = memory s c" using dir_okD(14) [OF bb(6)] \<open>?H \<le> c\<close> unfolding kept_def by blast
    ultimately show "memory s1 c = 0" using z by simp
  qed
  moreover have "initialise_paging (Suc fuel) fn page_fault_cb hs s = Some (hs[14 := Some page_fault_cb], ?H + 0x83000, ?s')"
    using build heap cl
    by (simp add: initialise_paging_def register_interrupt_handler_def switch_page_directory_def upd_mem_def
        bb(5) dir_okD(13) [OF bb(6)] kd phys)
  moreover have "heap_inv ?s' ?H [(4084, True), (8216, False), (511988, True)]" using inv' by (simp add: heap_inv_def)
  ultimately show thesis using b kd low tables at by (intro that [of ?D n s1 ?s' m]) simp_all
qed

text \<open>The clone's view is that of the directory it was made from.\<close>

lemma clone_view:
  assumes b: "built D F M n s" and low: "\<forall>a < free_mem_addr s. m a = memory s a"
    and tables: "\<forall>k<1024. dir_table m dir (of_nat k) = tbl D s k
      \<and> (tbl D s k \<noteq> 0 \<longrightarrow> dir_table_phys m dir (of_nat k) = dir_table_phys (memory s) D (of_nat k))"
    and t: "tbl D s (unat a div 4194304) \<noteq> 0"
  shows "translate m (dir + 4096) a = translate (memory s) (D + 4096) a"
    "page_present m (dir + 4096) a \<longleftrightarrow> page_present (memory s) (D + 4096) a"
    "translate m (D + 4096) a = translate (memory s) (D + 4096) a"
proof -
  note bb = built_bounds [OF b]
  have "load32 m (dir + 4096 + 4 * (a div 0x400000)) = dir_table_phys (memory s) D (of_nat (unat a div 4194304))"
    using tables table_index(1) [of a] t by (simp add: table_index(2) dir_table_phys_def)
  from same_view [OF bb(6) _ refl t this] low
  show "translate m (dir + 4096) a = translate (memory s) (D + 4096) a"
    "page_present m (dir + 4096) a \<longleftrightarrow> page_present (memory s) (D + 4096) a" by blast+
  have "load32 m (D + 4096 + 4 * (a div 0x400000)) = dir_table_phys (memory s) D (of_nat (unat a div 4194304))"
    using low_tables(2) [OF b _ table_index(1) [of a], of "s\<lparr>memory := m\<rparr>"] low by (simp add: table_index(2) dir_table_phys_def)
  from same_view(1) [OF bb(6) _ refl t this] low show "translate m (D + 4096) a = translate (memory s) (D + 4096) a" by blast
qed

subsection \<open>Properties\<close>

text \<open>C7: \<open>initialise_paging\<close> as a whole brings the machine up: it builds the directory, enables paging, creates the
  heap behind it, clones the directory into the heap and switches to the clone. Afterwards the page fault handler is
  registered; the heap is well-formed and consists of a hole in front of a page boundary, the block with the clone and
  the rest; \<open>cr3\<close> holds the physical address of the clone's array of tables, which is what the kernel's directory makes of
  its address; every address up to one page behind the heap's structure, that is all memory in use, is present and
  translated to itself; the megabyte of the heap is present and mapped to the frames behind that page; and the clone
  has the tables of the kernel's directory, no copies of them.\<close>

theorem initialise_paging_comes_up:
  assumes "kheap s = 0" and "unat (free_mem_addr s) mod 4096 \<le> 3584" and "unat (free_mem_addr s) \<le> 0xC00000"
    and "\<And>a. within (free_mem_addr s + 128) 384 a \<Longrightarrow> memory s a = 0" and "fn \<noteq> 0"
  shows "\<exists>cr3 s'. initialise_paging (Suc fuel) fn page_fault_cb hs s = Some (hs[14 := Some page_fault_cb], cr3, s')
    \<and> kheap s' \<noteq> 0 \<and> heap_inv s' (kheap s') [(4084, True), (8216, False), (511988, True)]
    \<and> current_directory s' = KHEAP_START + 0x81000
    \<and> translate (memory s') (kernel_directory s' + 4096) (current_directory s' + 4096) = cr3
    \<and> (\<forall>a < kheap s' + 0x1000. page_present (memory s') (current_directory s' + 4096) a
         \<and> translate (memory s') (current_directory s' + 4096) a = a)
    \<and> (\<forall>b < KHEAP_INITIAL_SIZE. page_present (memory s') (current_directory s' + 4096) (KHEAP_START + b)
         \<and> translate (memory s') (current_directory s' + 4096) (KHEAP_START + b) = kheap s' + 0x1000 + b)
    \<and> (\<forall>k<1024. dir_table (memory s') (current_directory s') (of_nat k) = dir_table (memory s') (kernel_directory s') (of_nat k))"
proof -
  obtain D n s1 m s' where b: "built D (free_mem_addr s) (memory s) n s1"
    and run: "initialise_paging (Suc fuel) fn page_fault_cb hs s = Some (hs[14 := Some page_fault_cb], free_mem_addr s1 + 0x83000, s')"
    and s': "kheap s' = free_mem_addr s1" "memory s' = m" "kernel_directory s' = D" "current_directory s' = 0xC0081000"
    and inv: "heap_inv s' (free_mem_addr s1) [(4084, True), (8216, False), (511988, True)]"
    and low: "\<forall>a < free_mem_addr s1. m a = memory s1 a"
    and tables: "\<forall>k<1024. dir_table m 0xC0081000 (of_nat k) = tbl D s1 k
      \<and> (tbl D s1 k \<noteq> 0 \<longrightarrow> dir_table_phys m 0xC0081000 (of_nat k) = dir_table_phys (memory s1) D (of_nat k))"
    by (rule initialise_paging_runs [OF assms(1-3) _ assms(5), of fuel page_fault_cb hs]) (use assms(4) in blast, fast)
  let ?H = "free_mem_addr s1" and ?c = "0xC0081000 + 4096 :: u32"
  note view = clone_view [OF b low tables] and bt = built_tables [OF b]
  have tr: "a < ?H + 0x1000 \<Longrightarrow> page_present (memory s1) (D + 4096) a \<and> translate (memory s1) (D + 4096) a = a"
    "x < KHEAP_INITIAL_SIZE \<Longrightarrow> page_present (memory s1) (D + 4096) (KHEAP_START + x)
      \<and> translate (memory s1) (D + 4096) (KHEAP_START + x) = ?H + 0x1000 + x" for a x
    using kernel_pages_translate [folded used_pages_def, of D _ _ s1 n] b by (auto simp: built_def)
  have low_view: "page_present m ?c a \<and> translate m ?c a = a" if "a < ?H + 0x1000" for a
    using view [OF bt(1) [OF that]] tr(1) [OF that] by simp
  have heap_view: "page_present m ?c (KHEAP_START + x) \<and> translate m ?c (KHEAP_START + x) = ?H + 0x1000 + x"
    if "x < KHEAP_INITIAL_SIZE" for x using view [OF bt(2) [OF that]] tr(2) [OF that] by simp
  have x: "0x82000 < KHEAP_INITIAL_SIZE" "?c = KHEAP_START + 0x82000" by (simp_all add: KHEAP_START_def KHEAP_INITIAL_SIZE_def)
  have cr3: "translate m (D + 4096) ?c = ?H + 0x83000" unfolding x(2) using view(3) [OF bt(2) [OF x(1)]] tr(2) [OF x(1)] by simp
  have same: "dir_table m 0xC0081000 (of_nat k) = dir_table m D (of_nat k)" if k: "k < 1024" for k
    using tables k low_tables(1) [OF b _ k, of s'] low by (simp add: tbl_def s')
  have "?H \<noteq> 0" using built_bounds(2) [OF b] by auto
  then show ?thesis using run inv low_view heap_view cr3 same
    by (intro exI [of _ "?H + 0x83000"] exI [of _ s']) (simp add: s' KHEAP_START_def)
qed

theorem initialise_paging_comes_up_witness:
  "\<exists>cr3 s'. initialise_paging 1 1 (\<lambda>r u. u) (replicate 256 (None :: unit isr_t option)) early_state
      = Some ((replicate 256 None)[14 := Some (\<lambda>r u. u)], cr3, s')
    \<and> heap_inv s' (kheap s') [(4084, True), (8216, False), (511988, True)]
    \<and> (\<forall>a < kheap s' + 0x1000. translate (memory s') (current_directory s' + 4096) a = a)"
  using initialise_paging_comes_up [of early_state 1 0 "\<lambda>r u. u" "replicate 256 (None :: unit isr_t option)"]
  by (auto simp: early_state_def simp del: replicate.simps)

end
