(* ===== verification/Timer.thy ===== *)
theory Timer
  imports Interrupts
begin

text \<open>
  The timer of \<open>kernel/cpu/timer.c\<close>: the tick counter, the two flags that let \<open>schedule\<close> run
  from the timer interrupt, and the programming of the interval timer.
\<close>

record timer_state =
  tick :: u32
  task :: u8
  task_was_on :: u8

definition timer_initial :: timer_state where
  "timer_initial = \<lparr>tick = 0, task = 0, task_was_on = 0\<rparr>"

definition set_task :: "u8 \<Rightarrow> timer_state \<Rightarrow> timer_state" where
  "set_task i t = (if task_was_on t = 0 then t else t\<lparr>task := i\<rparr>)"

definition enable_task :: "timer_state \<Rightarrow> timer_state" where
  "enable_task t = t\<lparr>task_was_on := 1, task := 1\<rparr>"

text \<open>\<open>sched\<close> is \<open>schedule\<close>, on the rest of the state.\<close>

definition timer_callback :: "('s \<Rightarrow> 's) \<Rightarrow> timer_state \<times> 's \<Rightarrow> timer_state \<times> 's" where
  "timer_callback sched = (\<lambda>(t, s).
     let t = t\<lparr>tick := tick t + 1\<rparr> in (t, if task t \<noteq> 0 then sched s else s))"

definition pit_divisor :: "u32 \<Rightarrow> u32" where
  "pit_divisor freq = 1193180 div freq"

text \<open>The port accesses of \<open>init_timer\<close>; it also registers \<open>timer_callback\<close> for vector 32.\<close>

definition init_timer :: "'s isr_t \<Rightarrow> u32 \<Rightarrow> 's isr_t option list \<times> ports \<Rightarrow> 's isr_t option list \<times> ports" where
  "init_timer cb freq = (\<lambda>(hs, io).
     let hs = register_interrupt_handler 32 cb hs;
         divisor = pit_divisor freq;
         low = ucast (divisor AND 0xFF) :: u8;
         high = ucast (drop_bit 8 divisor AND 0xFF) :: u8;
         io = outb 0x43 0x36 io;
         io = outb 0x40 low io;
         io = outb 0x40 high io
     in (hs, io))"

text \<open>The counter the interval timer loads: the two bytes after the command, low byte first.\<close>

fun pit_reload :: "ports \<Rightarrow> nat option" where
  "pit_reload (Out8 c cmd # Out8 d low # Out8 e high # _) =
     (if c = 0x43 \<and> cmd = 0x36 \<and> d = 0x40 \<and> e = 0x40 then Some (unat low + 256 * unat high) else None)"
| "pit_reload _ = None"

subsection \<open>Properties\<close>

text \<open>C38: \<open>init_timer\<close> registers the callback for the timer's vector and loads the interval timer
  with the clock divided by the frequency, whenever that fits the 16-bit counter, which is from
  19 Hz on.\<close>

theorem init_timer_programs_pit:
  assumes "19 \<le> freq" and "length hs = 256" and "init_timer cb freq (hs, io) = (hs', io')"
  shows "hs' ! 32 = Some cb \<and> (\<exists>ev. io' = io @ ev \<and> pit_reload ev = Some (1193180 div unat freq))"
proof -
  let ?d = "1193180 div unat freq"
  have u: "unat (pit_divisor freq) = ?d" by (simp add: pit_divisor_def unat_div_distrib)
  have "19 \<le> unat freq" using assms(1) by (simp add: word_le_nat_alt)
  then have "?d \<le> 1193180 div 19" by (rule div_le_mono2 [rotated]) simp
  then have d: "?d < 65536" by simp
  have low: "unat (ucast (pit_divisor freq AND 0xFF) :: u8) = ?d mod 256"
  proof -
    have "(ucast (pit_divisor freq AND 0xFF) :: u8) = ucast (pit_divisor freq)"
      unfolding and_masks by (rule bit_word_eqI) (simp add: bit_simps)
    then show ?thesis by (simp add: u [symmetric] unsigned_ucast_eq take_bit_eq_mod unsigned_take_bit_eq)
  qed
  have high: "unat (ucast (drop_bit 8 (pit_divisor freq) AND 0xFF) :: u8) = ?d div 256"
  proof -
    have "(ucast (drop_bit 8 (pit_divisor freq) AND 0xFF) :: u8) = ucast (drop_bit 8 (pit_divisor freq))"
      unfolding and_masks by (rule bit_word_eqI) (simp add: bit_simps)
    then have "unat (ucast (drop_bit 8 (pit_divisor freq) AND 0xFF) :: u8) = take_bit 8 (drop_bit 8 ?d)"
      by (simp add: u [symmetric] unsigned_ucast_eq unsigned_drop_bit_eq take_bit_drop_bit)
    then show ?thesis using d by (simp add: take_bit_eq_mod drop_bit_eq_div)
  qed
  have "io' = io @ [Out8 0x43 0x36, Out8 0x40 (ucast (pit_divisor freq AND 0xFF)),
      Out8 0x40 (ucast (drop_bit 8 (pit_divisor freq) AND 0xFF))]"
    and hs: "hs' = hs[32 := Some cb]"
    using assms(3) by (auto simp: init_timer_def Let_def outb_def register_interrupt_handler_def)
  moreover have "?d mod 256 + 256 * (?d div 256) = ?d" by simp
  ultimately show ?thesis using assms(2) low high by simp
qed

theorem init_timer_programs_pit_witness:
  "\<exists>ev. snd (init_timer (\<lambda>r s. s :: ports \<times> unit) 1000 (replicate 256 None, [])) = ev \<and> pit_reload ev = Some 1193"
  using init_timer_programs_pit [of 1000 "replicate 256 None" "\<lambda>r s. s :: ports \<times> unit" "[]", OF _ _ prod.collapse [symmetric]] by simp

text \<open>The timer never runs the scheduler before \<open>enable_task\<close>, however often \<open>set_task\<close> is
  called; after it the scheduler runs on a tick exactly when the last \<open>set_task\<close> gave a nonzero
  value. Every tick counts.\<close>

theorem scheduling_is_gated:
  "(let t = fold set_task is timer_initial in
      timer_callback sched (t, s) = (t\<lparr>tick := tick t + 1\<rparr>, s))
   \<and> (let t = fold set_task is (enable_task t0) in
      timer_callback sched (t, s) = (t\<lparr>tick := tick t + 1\<rparr>, if last (1 # is) \<noteq> 0 then sched s else s))"
proof -
  have off: "task_was_on t = 0 \<Longrightarrow> fold set_task is t = t" for t
    by (induction "is") (simp_all add: set_task_def)
  have on: "task_was_on t \<noteq> 0 \<Longrightarrow> fold set_task is t = (if is = [] then t else t\<lparr>task := last is\<rparr>)" for t
    by (induction "is" arbitrary: t) (simp_all add: set_task_def)
  show ?thesis
    using on [of "enable_task t0"]
    by (simp add: timer_callback_def Let_def off timer_initial_def enable_task_def)
qed

end
