(* ===== verification/Tasking.thy ===== *)
theory Tasking
  imports Paging Timer
begin

text \<open>
  Processes, \<open>kernel/cpu/tasking/task.c\<close>: a list of \<open>PROCESS\<close> structures linked from \<open>ready_queue\<close>, of which
  \<open>cp\<close> is the one that runs. A switch does not return: it ends in \<open>jump_to_ecx\<close>, so the operations
  that may switch have an outcome. The assembler's stack and base pointers are arguments. \<open>_kill\<close> reads the link of
  the process it has just freed; \<open>kfree\<close> does not clear a block, and the model reads what is there.
\<close>

subsection \<open>The code\<close>

definition PROCESS_STATE_ALIVE :: u32 where "PROCESS_STATE_ALIVE = 0"
definition PROCESS_STATE_ZOMBIE :: u32 where "PROCESS_STATE_ZOMBIE = 1"
definition SIG_ILL :: u32 where "SIG_ILL = 1"
definition SIG_TERM :: u32 where "SIG_TERM = 2"
definition SIG_SEGV :: u32 where "SIG_SEGV = 3"

definition sizeof_PROCESS :: u32 where "sizeof_PROCESS = 36"
definition p_name :: "u32 \<Rightarrow> u32" where "p_name p = p"
definition p_id :: "u32 \<Rightarrow> u32" where "p_id p = p + 4"
definition p_esp :: "u32 \<Rightarrow> u32" where "p_esp p = p + 8"
definition p_ebp :: "u32 \<Rightarrow> u32" where "p_ebp p = p + 12"
definition p_eip :: "u32 \<Rightarrow> u32" where "p_eip p = p + 16"
definition p_state :: "u32 \<Rightarrow> u32" where "p_state p = p + 20"
definition p_page_directory :: "u32 \<Rightarrow> u32" where "p_page_directory p = p + 24"
definition p_notify :: "u32 \<Rightarrow> u32" where "p_notify p = p + 28"
definition p_next :: "u32 \<Rightarrow> u32" where "p_next p = p + 32"

lemmas process_offsets [layout_simps] = p_name_def p_id_def p_esp_def p_ebp_def p_eip_def p_state_def
  p_page_directory_def p_notify_def p_next_def

text \<open>The global variables, with the timer's flags.\<close>

record tasking =
  cp :: u32
  ready_queue :: u32
  lpid :: u32
  tasking_enabled :: u8
  timer :: timer_state

text \<open>Addresses the linker chooses.\<close>

record task_link =
  fn_notified :: u32
  fn_idle :: u32
  fn_confirm :: u32
  fn_kernel :: u32
  lit_idle :: u32
  lit_confirm :: u32
  lit_kernel :: u32

text \<open>How an operation ends: it returns, it jumps to a process with \<open>eip\<close>, \<open>cr3\<close>, \<open>ebp\<close>, \<open>esp\<close>, or
  it halts for ever.\<close>

datatype outcome = Returns | Jumps u32 u32 u32 u32 | Halts

type_synonym task_state = "tasking \<times> kstate"

definition with_timer :: "(timer_state \<Rightarrow> timer_state) \<Rightarrow> tasking \<Rightarrow> tasking" where
  "with_timer f t = t\<lparr>timer := f (timer t)\<rparr>"

text \<open>The jump to the process in \<open>cp\<close>: the common end of \<open>__exec\<close> and \<open>schedule\<close>.\<close>

definition exec :: "task_state \<Rightarrow> outcome \<times> task_state" where
  "exec = (\<lambda>(t, s).
     let eip = load32 (memory s) (p_eip (cp t)); esp = load32 (memory s) (p_esp (cp t));
         ebp = load32 (memory s) (p_ebp (cp t));
         s = s\<lparr>current_directory := load32 (memory s) (p_page_directory (cp t))\<rparr>
     in (Jumps eip (dir_physicalAddr (memory s) (current_directory s)) ebp esp, t, s))"

definition schedule :: "task_state \<Rightarrow> outcome \<times> task_state" where
  "schedule = (\<lambda>(t, s).
     let t = t\<lparr>cp := load32 (memory s) (p_next (cp t))\<rparr>;
         t = (if cp t = 0 then t\<lparr>cp := ready_queue t\<rparr> else t)
     in exec (t, s))"

text \<open>Taking \<open>cp\<close> out of the list.\<close>

partial_function (option) unlink_from :: "u32 \<Rightarrow> u32 \<Rightarrow> mem \<Rightarrow> mem option" where
  "unlink_from cur tmp m =
     (if tmp \<noteq> 0 then
        (let m = (if load32 m (p_next tmp) = cur then store32 m (p_next tmp) (load32 m (p_next cur)) else m)
         in unlink_from cur (load32 m (p_next tmp)) m)
      else Some m)"

definition kill_current :: "task_state \<Rightarrow> (outcome \<times> task_state) option" where
  "kill_current = (\<lambda>(t, s).
     if load32 (memory s) (p_id (cp t)) = 1 then
       Some (Halts, with_timer (set_task 0) t, printf_s (''Idle can'' @ CHR 0x27 # ''t be killed!\<newline>'') [] s)
     else
       (let t = with_timer (set_task 0) t
        in Option.bind (kfree (load32 (memory s) (p_page_directory (cp t))) s) (\<lambda>s.
           Option.bind (unlink_from (cp t) (ready_queue t) (memory s)) (\<lambda>m.
           Option.bind (kfree (cp t) (s\<lparr>memory := m\<rparr>)) (\<lambda>s.
             Some (schedule (with_timer (set_task 1) t, s)))))))"

partial_function (option) find_pid :: "u32 \<Rightarrow> u32 \<Rightarrow> mem \<Rightarrow> u32 option" where
  "find_pid pid p m =
     (if p \<noteq> 0 then (if load32 m (p_id p) = pid then Some p else find_pid pid (load32 m (p_next p)) m) else Some 0)"

definition kill :: "u32 \<Rightarrow> task_state \<Rightarrow> (outcome \<times> task_state) option" where
  "kill pid = (\<lambda>(t, s).
     let s = (if pid = 1 then printf_s (''Idle can'' @ CHR 0x27 # ''t be killed!\<newline>'') [] s else s)
     in if pid = load32 (memory s) (p_id (cp t)) then kill_current (t, s)
        else map_option (\<lambda>p.
          (Returns, t, if p = 0 then s
             else upd_mem (\<lambda>m. store32 m (p_state p) PROCESS_STATE_ZOMBIE)
               (printf_s ''Process %s (%d) was set to ZOMBIE.\<newline>'' [load32 (memory s) (p_name p), pid] s)))
          (find_pid pid (cp t) (memory s)))"

text \<open>The first two cases end in \<open>_kill\<close>, so that the missing \<open>break\<close>s are never reached.\<close>

definition notified :: "u32 \<Rightarrow> task_state \<Rightarrow> (outcome \<times> task_state) option" where
  "notified sig = (\<lambda>(t, s).
     if sig = SIG_ILL then kill_current (t, printf_s ''Received SIGILL, terminating!\<newline>'' [] s)
     else if sig = SIG_TERM then kill_current (t, printf_s ''Received SIGTERM, terminating!\<newline>'' [] s)
     else if sig = SIG_SEGV then kill_current (t, printf_s ''Received SIGSEGV, terminating!\<newline>'' [] s)
     else Some (Returns, t, printf_s ''Received unknown SIG!\<newline>'' [] s))"

text \<open>\<open>cp->notify(sig)\<close>; the only function ever stored there is \<open>__notified\<close>.\<close>

definition send_sig :: "task_link \<Rightarrow> u32 \<Rightarrow> task_state \<Rightarrow> (outcome \<times> task_state) option" where
  "send_sig lk sig = (\<lambda>(t, s). if load32 (memory s) (p_notify (cp t)) = fn_notified lk then notified sig (t, s) else None)"

definition is_tasking :: "tasking \<Rightarrow> u8" where "is_tasking t = tasking_enabled t"
definition get_process :: "tasking \<Rightarrow> u32" where "get_process t = cp t"
definition get_name :: "task_state \<Rightarrow> u32" where "get_name = (\<lambda>(t, s). load32 (memory s) (p_name (cp t)))"
definition getpid :: "task_state \<Rightarrow> u32" where "getpid = (\<lambda>(t, s). load32 (memory s) (p_id (cp t)))"

text \<open>Both loops end only when they come back to where they started.\<close>

partial_function (option) print_from :: "(u32 \<Rightarrow> u32) \<Rightarrow> u32 \<Rightarrow> u32 \<Rightarrow> kstate \<Rightarrow> kstate option" where
  "print_from state_name orig p s =
     (let m = memory s;
          s = printf_s ''Process: %s (%d) %s\<newline>'' [load32 m (p_name p), load32 m (p_id p), state_name (load32 m (p_state p))] s;
          p = load32 m (p_next p)
      in if p = orig then Some s else print_from state_name orig p s)"

definition tasking_print_all :: "(u32 \<Rightarrow> u32) \<Rightarrow> task_state \<Rightarrow> task_state option" where
  "tasking_print_all state_name = (\<lambda>(t, s). map_option (Pair t) (print_from state_name (cp t) (cp t) s))"

partial_function (option) search_ring :: "u32 \<Rightarrow> u32 \<Rightarrow> u32 \<Rightarrow> mem \<Rightarrow> bool option" where
  "search_ring pid orig p m =
     (if load32 m (p_id p) = pid then Some True
      else (let p = load32 m (p_next p) in if p = orig then Some False else search_ring pid orig p m))"

definition is_pid_running :: "u32 \<Rightarrow> task_state \<Rightarrow> (bool \<times> task_state) option" where
  "is_pid_running pid = (\<lambda>(t, s).
     let t = with_timer (set_task 0) t
     in map_option (\<lambda>ret. (ret, with_timer (set_task 1) t, s)) (search_ring pid (cp t) (cp t) (memory s)))"

text \<open>The words \<open>createProcess\<close> pushes below the stack's top, in the order it pushes them.\<close>

definition initial_frame :: "u32 \<Rightarrow> u32 \<Rightarrow> u32 list" where
  "initial_frame addr esp = [0x202, 0x8, addr, 0, 0, 0, 0, 0, 0, esp + 4096, 0x10, 0x10, 0x10, 0x10]"

definition push :: "u32 \<Rightarrow> u32 \<times> mem \<Rightarrow> u32 \<times> mem" where
  "push v = (\<lambda>(stack, m). (stack - 4, store32 m (stack - 4) v))"

definition createProcess :: "nat \<Rightarrow> task_link \<Rightarrow> u32 \<Rightarrow> u32 \<Rightarrow> task_state \<Rightarrow> (u32 \<times> task_state) option" where
  "createProcess fuel lk name addr = (\<lambda>(t, s).
     Option.bind (kmalloc fuel sizeof_PROCESS s) (\<lambda>(p, s).
       let s = upd_mem (\<lambda>m. snd (memset p 0 sizeof_PROCESS m)) s;
           s = upd_mem (\<lambda>m. store32 m (p_name p) name) s;
           t = t\<lparr>lpid := lpid t + 1\<rparr>;
           s = upd_mem (\<lambda>m. store32 m (p_id p) (lpid t)) s;
           s = upd_mem (\<lambda>m. store32 m (p_eip p) addr) s;
           s = upd_mem (\<lambda>m. store32 m (p_state p) PROCESS_STATE_ALIVE) s;
           s = upd_mem (\<lambda>m. store32 m (p_notify p) (fn_notified lk)) s
       in Option.bind (clone_directory fuel (current_directory s) s) (\<lambda>(dir, s).
          let s = upd_mem (\<lambda>m. store32 m (p_page_directory p) dir) s;
              s = upd_mem (\<lambda>m. store32 m (p_next p) 0) s
          in Option.bind (kmalloc fuel 4096 s) (\<lambda>(stk, s).
             let s = upd_mem (\<lambda>m. store32 m (p_esp p) stk) s;
                 s = upd_mem (\<lambda>m. store32 m (p_ebp p) (stk + 4096)) s;
                 (stack, m) = fold push (initial_frame addr stk) (stk + 4096, memory s);
                 s = s\<lparr>memory := store32 m (p_esp p) stack\<rparr>
             in Some (p, t, s)))))"

partial_function (option) last_process :: "u32 \<Rightarrow> mem \<Rightarrow> u32 option" where
  "last_process tmp m =
     (if load32 m (p_next tmp) \<noteq> 0 then last_process (load32 m (p_next tmp)) m else Some tmp)"

definition append_process :: "u32 \<Rightarrow> task_state \<Rightarrow> task_state option" where
  "append_process p = (\<lambda>(t, s). map_option (\<lambda>tmp. (t, upd_mem (\<lambda>m. store32 m (p_next tmp) p) s))
     (last_process (ready_queue t) (memory s)))"

definition addProcess :: "u32 \<Rightarrow> task_state \<Rightarrow> (u32 \<times> task_state) option" where
  "addProcess p = (\<lambda>(t, s).
     map_option (\<lambda>(t, s). (load32 (memory s) (p_id p), with_timer (set_task 1) t, s))
       (append_process p (with_timer (set_task 0) t, s)))"

text \<open>\<open>schedule_noirq\<close> raises interrupt 46 when tasking is on; the handler for it is an argument.\<close>

definition schedule_noirq :: "(task_state \<Rightarrow> outcome \<times> task_state) \<Rightarrow> task_state \<Rightarrow> outcome \<times> task_state" where
  "schedule_noirq int46 = (\<lambda>(t, s). if tasking_enabled t = 0 then (Returns, t, s) else int46 (t, s))"

text \<open>The first process spins after these two assignments.\<close>

definition idle_thread :: "task_state \<Rightarrow> task_state" where
  "idle_thread = (\<lambda>(t, s). ((with_timer enable_task t)\<lparr>tasking_enabled := 1\<rparr>, s))"

definition task_confirm :: "task_state \<Rightarrow> (outcome \<times> task_state) option" where
  "task_confirm = (\<lambda>(t, s). kill_current (t, printf_s ''Tasking is running!\<newline>'' [] s))"

subsection \<open>Moving the stack\<close>

partial_function (option) map_stack :: "nat \<Rightarrow> u32 \<Rightarrow> u32 \<Rightarrow> kstate \<Rightarrow> kstate option" where
  "map_stack fuel i bottom s =
     (if i \<ge> bottom then
        Option.bind (get_page (kmalloc_ap fuel) i True (current_directory s) s) (\<lambda>(page, s).
        Option.bind (alloc_frame page False True s) (map_stack fuel (i - 0x1000) bottom))
      else Some s)"

partial_function (option) relocate_words :: "u32 \<Rightarrow> u32 \<Rightarrow> u32 \<Rightarrow> u32 \<Rightarrow> u32 \<Rightarrow> mem \<Rightarrow> mem option" where
  "relocate_words old_esp initial_esp offset i bottom m =
     (if i > bottom then
        (let tmp = load32 m i;
             m = (if old_esp < tmp \<and> tmp < initial_esp then store32 m i (tmp + offset) else m)
         in relocate_words old_esp initial_esp offset (i - 4) bottom m)
      else Some m)"

text \<open>The new stack and base pointers, and the state.\<close>

definition move_stack :: "nat \<Rightarrow> u32 \<Rightarrow> u32 \<Rightarrow> u32 \<Rightarrow> u32 \<Rightarrow> u32 \<Rightarrow> kstate \<Rightarrow> (u32 \<times> u32 \<times> kstate) option" where
  "move_stack fuel initial_esp old_esp old_ebp new_stack_start sz s =
     Option.bind (map_stack fuel new_stack_start (new_stack_start - sz) s) (\<lambda>s.
       let offset = new_stack_start - initial_esp;
           new_esp = old_esp + offset; new_ebp = old_ebp + offset;
           s = upd_mem (\<lambda>m. snd (memcpy new_esp old_esp (initial_esp - old_esp) m)) s
       in map_option (\<lambda>m. (new_esp, new_ebp, s\<lparr>memory := m\<rparr>))
            (relocate_words old_esp initial_esp offset new_stack_start (new_stack_start - sz) (memory s)))"

definition initialise_tasking :: "nat \<Rightarrow> task_link \<Rightarrow> u32 \<Rightarrow> u32 \<Rightarrow> u32 \<Rightarrow> task_state \<Rightarrow> (outcome \<times> task_state) option" where
  "initialise_tasking fuel lk initial_esp old_esp old_ebp = (\<lambda>(t, s).
     Option.bind (move_stack fuel initial_esp old_esp old_ebp 0xE0000000 0x2000 s) (\<lambda>(esp, ebp, s).
     Option.bind (createProcess fuel lk (lit_idle lk) (fn_idle lk) (t, s)) (\<lambda>(p, t, s).
       let t = t\<lparr>cp := p\<rparr>; s = upd_mem (\<lambda>m. store32 m (p_next p) 0) s; t = t\<lparr>ready_queue := cp t\<rparr>
       in Option.bind (createProcess fuel lk (lit_confirm lk) (fn_confirm lk) (t, s)) (\<lambda>(p, t, s).
          Option.bind (append_process p (t, s)) (\<lambda>(t, s).
          Option.bind (createProcess fuel lk (lit_kernel lk) (fn_kernel lk) (t, s)) (\<lambda>(p, t, s).
            map_option exec (append_process p (t, s))))))))"

subsection \<open>The list of processes\<close>

fun proc_list :: "mem \<Rightarrow> u32 \<Rightarrow> u32 list \<Rightarrow> bool" where
  "proc_list m p [] \<longleftrightarrow> p = 0"
| "proc_list m p (q # ps) \<longleftrightarrow> p = q \<and> q \<noteq> 0 \<and> proc_list m (load32 m (p_next q)) ps"

definition procs_apart :: "u32 list \<Rightarrow> bool" where
  "procs_apart ps \<longleftrightarrow> distinct ps \<and> (\<forall>p \<in> set ps. \<forall>q \<in> set ps. p \<noteq> q \<longrightarrow> apart p 36 q 36)"

text \<open>\<open>ps\<close> are the processes, and one of them runs.\<close>

definition tasks_ok :: "tasking \<Rightarrow> mem \<Rightarrow> u32 list \<Rightarrow> bool" where
  "tasks_ok t m ps \<longleftrightarrow> proc_list m (ready_queue t) ps \<and> procs_apart ps \<and> cp t \<in> set ps"

lemma proc_list_nonzero: "proc_list m p ps \<Longrightarrow> q \<in> set ps \<Longrightarrow> q \<noteq> 0"
  by (induction m p ps rule: proc_list.induct) auto

lemma proc_list_next:
  "proc_list m p ps \<Longrightarrow> i < length ps \<Longrightarrow> load32 m (p_next (ps ! i)) = (if Suc i < length ps then ps ! Suc i else 0)"
proof (induction m p ps arbitrary: i rule: proc_list.induct)
  case (2 m p q ps)
  show ?case
  proof (cases i)
    case 0
    then show ?thesis using 2(2) by (cases ps) simp_all
  next
    case (Suc j)
    then show ?thesis using 2 by simp
  qed
qed simp

lemma proc_list_head: "proc_list m p ps \<Longrightarrow> p = (if ps = [] then 0 else hd ps)"
  by (cases ps) simp_all

lemma proc_list_cong:
  "proc_list m p ps \<Longrightarrow> (\<And>q. q \<in> set ps \<Longrightarrow> load32 m' (p_next q) = load32 m (p_next q)) \<Longrightarrow> proc_list m' p ps"
  by (induction m p ps rule: proc_list.induct) simp_all

lemma node_apart:
  assumes "procs_apart ps" "p \<in> set ps" "q \<in> set ps" "p \<noteq> q" "j + 4 \<le> 36" "k + 4 \<le> 36"
  shows "apart (p + of_nat j) 4 (q + of_nat k) 4"
proof (rule apart_sub)
  show "apart p 36 q 36" using assms(1-4) by (simp add: procs_apart_def)
  have "within r 36 c" if "within (r + of_nat i) 4 c" "i + 4 \<le> 36" for r c i
    using within_split [of i 4 r c] within_mono [of r "i + 4" c 36] that by simp
  then show "\<And>c. within (p + of_nat j) 4 c \<Longrightarrow> within p 36 c" "\<And>c. within (q + of_nat k) 4 c \<Longrightarrow> within q 36 c"
    using assms(5,6) by blast+
qed

lemma next_store_other:
  assumes "procs_apart ps" "p \<in> set ps" "q \<in> set ps" "p \<noteq> q"
  shows "load32 (store32 m (p_next p) v) (p_next q) = load32 m (p_next q)"
  using node_apart [OF assms, of 32 32] by (simp add: p_next_def load32_store32_apart)

subsection \<open>Switching\<close>

definition runs :: "mem \<Rightarrow> u32 \<Rightarrow> outcome" where
  "runs m p = Jumps (load32 m (p_eip p)) (dir_physicalAddr m (load32 m (p_page_directory p)))
     (load32 m (p_ebp p)) (load32 m (p_esp p))"

lemma schedule_next:
  assumes "proc_list (memory s) (ready_queue t) ps" "i < length ps" "cp t = ps ! i"
  shows "\<exists>s'. schedule (t, s) = (runs (memory s) (ps ! (Suc i mod length ps)), t\<lparr>cp := ps ! (Suc i mod length ps)\<rparr>, s')
    \<and> memory s' = memory s"
proof -
  note nx = proc_list_next [OF assms(1,2)]
  have ne: "ps \<noteq> []" using assms(2) by auto
  show ?thesis
  proof (cases "Suc i < length ps")
    case True
    then have "ps ! Suc i \<noteq> 0" using proc_list_nonzero [OF assms(1)] nth_mem by blast
    then show ?thesis using True nx assms(3) by (simp add: schedule_def exec_def runs_def Let_def)
  next
    case False
    then have "Suc i mod length ps = 0" using assms(2) by (metis Suc_lessI mod_self)
    moreover have "ready_queue t = ps ! 0" using proc_list_head [OF assms(1)] ne by (simp add: hd_conv_nth)
    ultimately show ?thesis using False nx assms(3) by (simp add: schedule_def exec_def runs_def Let_def)
  qed
qed

lemma schedule_many:
  assumes "proc_list (memory s) (ready_queue t) ps" "i < length ps" "cp t = ps ! i"
  shows "\<exists>s'. ((\<lambda>st. snd (schedule st)) ^^ n) (t, s) = (t\<lparr>cp := ps ! ((i + n) mod length ps)\<rparr>, s') \<and> memory s' = memory s"
proof (induction n)
  case 0
  then show ?case using assms(2,3) by (simp add: assms(3) [symmetric])
next
  case (Suc n)
  then obtain s' where s': "((\<lambda>st. snd (schedule st)) ^^ n) (t, s) = (t\<lparr>cp := ps ! ((i + n) mod length ps)\<rparr>, s')"
    "memory s' = memory s" by blast
  have "(i + n) mod length ps < length ps" using assms(2) by (intro mod_less_divisor) auto
  then have "\<exists>s2. schedule (t\<lparr>cp := ps ! ((i + n) mod length ps)\<rparr>, s')
      = (runs (memory s') (ps ! (Suc ((i + n) mod length ps) mod length ps)), t\<lparr>cp := ps ! (Suc ((i + n) mod length ps) mod length ps)\<rparr>, s2)
      \<and> memory s2 = memory s'"
    using schedule_next [of s' "t\<lparr>cp := ps ! ((i + n) mod length ps)\<rparr>" ps "(i + n) mod length ps"] assms(1) s'(2) by simp
  then show ?case using s' by (auto simp: mod_Suc_eq)
qed

subsection \<open>Adding and removing\<close>

lemma last_process_last:
  "proc_list m p ps \<Longrightarrow> ps \<noteq> [] \<Longrightarrow> last_process p m = Some (last ps)"
proof (induction m p ps rule: proc_list.induct)
  case (2 m p q ps)
  then show ?case
    using proc_list_head [of m "load32 m (p_next q)" ps] proc_list_nonzero [of m "load32 m (p_next q)" ps "hd ps"]
    by (subst last_process.simps) (cases ps, auto)
qed simp

lemma proc_list_snoc:
  "proc_list m p ps \<Longrightarrow> ps \<noteq> [] \<Longrightarrow> procs_apart (ps @ [q]) \<Longrightarrow> q \<noteq> 0 \<Longrightarrow> load32 m (p_next q) = 0 \<Longrightarrow>
    proc_list (store32 m (p_next (last ps)) q) p (ps @ [q])"
proof (induction m p ps rule: proc_list.induct)
  case (2 m p r ps)
  let ?l = "last (r # ps)"
  have l: "?l \<in> set (r # ps)" by (rule last_in_set) simp
  moreover have "q \<notin> set (r # ps)" using 2(4) by (auto simp: procs_apart_def)
  ultimately have "?l \<noteq> q" by metis
  then have q: "load32 (store32 m (p_next ?l) q) (p_next q) = 0"
    using next_store_other [OF 2(4), of ?l q m q] 2(6) l by simp
  show ?case
  proof (cases "ps = []")
    case True
    then show ?thesis using 2(2,5) q by (simp add: mem_simps)
  next
    case False
    have "procs_apart (ps @ [q])" using 2(4) by (auto simp: procs_apart_def)
    moreover have "?l \<noteq> r" using False 2(4) last_in_set [OF False] by (auto simp: procs_apart_def)
    then have "load32 (store32 m (p_next ?l) q) (p_next r) = load32 m (p_next r)"
      using next_store_other [OF 2(4), of ?l r m q] l by simp
    ultimately show ?thesis using 2 False by simp
  qed
qed simp

text \<open>Taking \<open>cur\<close> out: nothing happens in a list without it, else its predecessor is redirected.\<close>

lemma unlink_absent:
  "proc_list m p ps \<Longrightarrow> cur \<notin> set ps \<Longrightarrow> cur \<noteq> 0 \<Longrightarrow> unlink_from cur p m = Some m"
proof (induction m p ps rule: proc_list.induct)
  case (1 m p)
  then show ?case by (subst unlink_from.simps) simp
next
  case (2 m p q ps)
  have "load32 m (p_next q) \<noteq> cur" using proc_list_head [of m "load32 m (p_next q)" ps] 2 by (cases ps) auto
  then show ?case using 2 by (subst unlink_from.simps) simp
qed

lemma unlink_present:
  "proc_list m p (pre @ a # cur # post) \<Longrightarrow> procs_apart (pre @ a # cur # post) \<Longrightarrow>
    unlink_from cur p m = Some (store32 m (p_next a) (load32 m (p_next cur)))
    \<and> proc_list (store32 m (p_next a) (load32 m (p_next cur))) p (pre @ a # post)"
proof (induction pre arbitrary: p)
  case Nil
  let ?m = "store32 m (p_next a) (load32 m (p_next cur))"
  have p: "p = a" "a \<noteq> 0" "load32 m (p_next a) = cur" "cur \<noteq> 0" "proc_list m (load32 m (p_next cur)) post"
    using Nil(1) by simp_all
  have d: "cur \<noteq> a" "cur \<notin> set post" "a \<notin> set post" using Nil(2) by (auto simp: procs_apart_def)
  have post: "proc_list ?m (load32 m (p_next cur)) post"
    by (rule proc_list_cong [OF p(5)]) (use next_store_other [OF Nil(2), of a _ m] d in auto)
  have "load32 ?m (p_next a) = load32 m (p_next cur)" by (simp add: mem_simps)
  then show ?case using p post unlink_absent [OF post d(2) p(4)] by (subst unlink_from.simps) simp
next
  case (Cons x pre)
  let ?m = "store32 m (p_next a) (load32 m (p_next cur))"
  have p: "p = x" "x \<noteq> 0" "proc_list m (load32 m (p_next x)) (pre @ a # cur # post)" using Cons.prems(1) by simp_all
  have ap: "procs_apart (pre @ a # cur # post)" using Cons.prems(2) by (auto simp: procs_apart_def)
  have d: "x \<noteq> a" "load32 m (p_next x) \<noteq> cur"
    using proc_list_head [OF p(3)] Cons.prems(2) by (cases pre; auto simp: procs_apart_def)+
  have "load32 ?m (p_next x) = load32 m (p_next x)"
    using next_store_other [OF Cons.prems(2), of a x m] d(1) by simp
  then show ?case using Cons.IH [OF p(3) ap] p d by (subst unlink_from.simps) simp
qed

text \<open>The list while \<open>cur\<close> is taken out, when the structures are left alone before and after.\<close>

lemma killed_list:
  assumes l: "proc_list m p ps" "procs_apart ps" and ps: "ps = pre @ a # cur # post"
    and same1: "\<And>r c. r \<in> set ps \<Longrightarrow> within r 36 c \<Longrightarrow> m1 c = m c"
    and m2: "m2 = store32 m1 (p_next a) (load32 m1 (p_next cur))"
    and same3: "\<And>r c. r \<in> set ps \<Longrightarrow> within r 36 c \<Longrightarrow> m3 c = m2 c"
  shows "unlink_from cur p m1 = Some m2" "proc_list m3 p (pre @ a # post)"
    "load32 m3 (p_next cur) = (if post = [] then 0 else hd post)"
proof -
  have field: "within r 36 c" if "within (p_next r) 4 c" for r c
    using within_split [of 32 4 r c] that by (simp add: p_next_def)
  have n1: "load32 m1 (p_next r) = load32 m (p_next r)" and n2: "load32 m3 (p_next r) = load32 m2 (p_next r)" if "r \<in> set ps" for r
    using same1 [OF that] same3 [OF that] field by (auto intro!: load32_cong)
  have l1: "proc_list m1 p (pre @ a # cur # post)"
    unfolding ps [symmetric] by (rule proc_list_cong [OF l(1) n1])
  note un = unlink_present [OF l1 l(2) [unfolded ps], folded m2]
  show "unlink_from cur p m1 = Some m2" using un by blast
  show "proc_list m3 p (pre @ a # post)"
    by (rule proc_list_cong [of m2]) (use un n2 ps in auto)
  have pos: "Suc (length pre) < length ps" "ps ! Suc (length pre) = cur" by (simp_all add: ps nth_append)
  have d: "cur \<noteq> a" "cur \<in> set ps" "a \<in> set ps" using l(2) ps by (auto simp: procs_apart_def)
  have "load32 m3 (p_next cur) = load32 m2 (p_next cur)" using n2 d(2) by blast
  also have "\<dots> = load32 m1 (p_next cur)" unfolding m2 using d by (intro next_store_other [OF l(2)]) auto
  also have "\<dots> = load32 m (p_next cur)" using n1 d(2) by blast
  also have "\<dots> = (if post = [] then 0 else hd post)"
    using proc_list_next [OF l(1) pos(1)] pos(2) by (cases post) (simp_all add: ps nth_append)
  finally show "load32 m3 (p_next cur) = (if post = [] then 0 else hd post)" .
qed

text \<open>Two processes in memory, before there is a heap; the second one runs.\<close>

definition two_processes :: kstate where
  "two_processes = \<lparr>memory = store32 (store32 (\<lambda>_. 0) 0x1020 0x2000) 0x2004 2, console = [], free_mem_addr = 0x20000,
     kheap = 0, kernel_directory = 0, current_directory = 0, frames = 0, nframes = 0\<rparr>"

definition two_tasks :: tasking where
  "two_tasks = \<lparr>cp = 0x2000, ready_queue = 0x1000, lpid = 2, tasking_enabled = 1, timer = timer_initial\<rparr>"

lemma two_processes_memory:
  "load32 (memory two_processes) 0x1020 = 0x2000" "load32 (memory two_processes) 0x2004 = 2"
  "load32 (memory two_processes) 0x2020 = 0" "load32 (memory two_processes) 0x3020 = 0"
proof -
  have z: "load32 (\<lambda>_. 0) a = 0" for a by (simp add: load32_def)
  show "load32 (memory two_processes) 0x1020 = 0x2000" "load32 (memory two_processes) 0x2004 = 2"
    "load32 (memory two_processes) 0x2020 = 0" "load32 (memory two_processes) 0x3020 = 0"
    by (simp_all add: two_processes_def z load32_store32_same load32_store32_apart apart_def)
qed

lemma two_tasks_ok: "tasks_ok two_tasks (memory two_processes) [0x1000, 0x2000]"
  by (simp add: tasks_ok_def two_tasks_def p_next_def two_processes_memory procs_apart_def apart_def)

subsection \<open>Properties\<close>

text \<open>C14: The scheduler is fair: \<open>schedule\<close> always ends in a jump, it changes no memory, and from any
  running process every process of the queue runs again within as many switches as there are
  processes, continuing with its own instruction pointer, stack and page directory.\<close>

theorem every_process_runs_again:
  assumes "proc_list (memory s) (ready_queue t) ps" "cp t \<in> set ps" "p \<in> set ps"
  shows "\<exists>n < length ps. \<exists>t' s'. schedule (((\<lambda>st. snd (schedule st)) ^^ n) (t, s)) = (runs (memory s) p, t', s')
    \<and> cp t' = p \<and> ready_queue t' = ready_queue t \<and> memory s' = memory s"
proof -
  obtain i k where i: "i < length ps" "cp t = ps ! i" and k: "k < length ps" "p = ps ! k"
    using assms(2,3) by (metis in_set_conv_nth)
  let ?L = "length ps"
  define n where "n = (k + ?L - Suc i) mod ?L"
  have n: "n < ?L" unfolding n_def using i(1) by (intro mod_less_divisor) auto
  have "(Suc i + n) mod ?L = (Suc i + (k + ?L - Suc i)) mod ?L" unfolding n_def by (rule mod_add_right_eq)
  also have "Suc i + (k + ?L - Suc i) = k + ?L" using i(1) by simp
  also have "(k + ?L) mod ?L = k" using k(1) by simp
  finally have "Suc (i + n) mod ?L = k" by simp
  then have kn: "Suc ((i + n) mod ?L) mod ?L = k" by (simp add: mod_Suc_eq)
  obtain s' where s': "((\<lambda>st. snd (schedule st)) ^^ n) (t, s) = (t\<lparr>cp := ps ! ((i + n) mod ?L)\<rparr>, s')" "memory s' = memory s"
    using schedule_many [OF assms(1) i] by blast
  have "(i + n) mod ?L < ?L" using i(1) by (intro mod_less_divisor) auto
  then obtain s2 where "schedule (t\<lparr>cp := ps ! ((i + n) mod ?L)\<rparr>, s')
      = (runs (memory s') (ps ! k), t\<lparr>cp := ps ! k\<rparr>, s2)" "memory s2 = memory s'"
    using schedule_next [of s' "t\<lparr>cp := ps ! ((i + n) mod ?L)\<rparr>" ps "(i + n) mod ?L"] assms(1) s'(2) kn by auto
  then show ?thesis using n s' k(2) by (intro exI [of _ n]) auto
qed

theorem every_process_runs_again_witness:
  "\<exists>n < 2. \<exists>t' s'. schedule (((\<lambda>st. snd (schedule st)) ^^ n) (two_tasks, two_processes)) = (runs (memory two_processes) 0x1000, t', s')"
proof -
  have "proc_list (memory two_processes) (ready_queue two_tasks) [0x1000, 0x2000]" "cp two_tasks \<in> set [0x1000, 0x2000]"
    using two_tasks_ok by (simp_all add: tasks_ok_def)
  from every_process_runs_again [OF this, of "0x1000"] show ?thesis by (auto simp: numeral_2_eq_2)
qed

text \<open>C31: \<open>addProcess\<close> puts a new process at the end of the list, returns its number, keeps the list well-formed
  and the running process the same, and changes nothing in memory but the last process's link.\<close>

theorem addProcess_appends:
  assumes "tasks_ok t (memory s) ps" "q \<noteq> 0" "procs_apart (ps @ [q])" "load32 (memory s) (p_next q) = 0"
  shows "\<exists>t' s'. addProcess q (t, s) = Some (load32 (memory s) (p_id q), t', s')
    \<and> tasks_ok t' (memory s') (ps @ [q]) \<and> cp t' = cp t
    \<and> (\<forall>a. \<not> within (p_next (last ps)) 4 a \<longrightarrow> memory s' a = memory s a)"
proof -
  have l: "proc_list (memory s) (ready_queue t) ps" "cp t \<in> set ps" using assms(1) by (simp_all add: tasks_ok_def)
  then have ne: "ps \<noteq> []" by auto
  let ?m = "store32 (memory s) (p_next (last ps)) q"
  have list: "proc_list ?m (ready_queue t) (ps @ [q])" using proc_list_snoc [OF l(1) ne assms(3,2,4)] .
  have "apart (last ps + of_nat 32) 4 (q + of_nat 4) 4"
    by (rule node_apart [OF assms(3)]) (use assms(3) ne in \<open>auto simp: procs_apart_def\<close>)
  then have i: "load32 ?m (p_id q) = load32 (memory s) (p_id q)" by (simp add: p_next_def p_id_def load32_store32_apart)
  show ?thesis
    using list l(2) assms(3) i last_process_last [OF l(1) ne]
    by (simp add: addProcess_def append_process_def with_timer_def tasks_ok_def store32_other)
qed

theorem addProcess_appends_witness:
  "\<exists>r t' s'. addProcess 0x3000 (two_tasks, two_processes) = Some (r, t', s') \<and> tasks_ok t' (memory s') [0x1000, 0x2000, 0x3000]"
proof -
  have "procs_apart ([0x1000, 0x2000] @ [0x3000])" "load32 (memory two_processes) (p_next 0x3000) = 0"
    by (simp_all add: procs_apart_def apart_def p_next_def two_processes_memory)
  from addProcess_appends [OF two_tasks_ok _ this] show ?thesis by auto
qed

end
