(* ===== verification/Process_Exit.thy ===== *)
theory Process_Exit
  imports Tasking Heap_Free Heap_Source
begin

text \<open>
  A process that ends, on the real heap: \<open>_kill\<close> of \<open>kernel/cpu/tasking/task.c\<close> gives the page directory and
  the structure of the process back with \<open>kfree\<close>. What the list of processes needs of \<open>free\<close> is proved here from the
  blocks of the heap: freeing a block leaves the inside of all blocks in use alone, and that of the freed one too.
\<close>

subsection \<open>Inside the blocks in use\<close>

text \<open>\<open>k\<close> bytes from \<open>a\<close> on are the start of an allocated block.\<close>

definition in_block :: "u32 \<Rightarrow> block list \<Rightarrow> u32 \<Rightarrow> nat \<Rightarrow> bool" where
  "in_block start bs a k \<longleftrightarrow> (\<exists>us n vs. bs = us @ (n, False) # vs \<and> a = start + of_nat (total us) + 12 \<and> k + 20 \<le> n)"

lemma two_blocks:
  assumes "us @ x # vs = ls @ y # zs"
  obtains "us = ls" "x = y" "vs = zs" | ws where "ls = us @ x # ws" "vs = ws @ y # zs" | ws where "us = ls @ y # ws" "zs = ws @ x # vs"
proof -
  obtain ws where "us @ ws = ls \<and> x # vs = ws @ y # zs \<or> us = ls @ ws \<and> ws @ x # vs = y # zs"
    using assms by (auto simp: append_eq_append_conv2)
  then show thesis by (cases ws) (auto intro: that)
qed

lemma in_block_inside:
  assumes inv: "heap_inv s heap bs" and b: "in_block (heap_start (memory s) heap) bs a k" and c: "within a k c"
  obtains us n vs where "bs = us @ (n, False) # vs" "a = heap_start (memory s) heap + of_nat (total us) + 12" "k + 20 \<le> n"
    and "unat (heap_start (memory s) heap) + total us + 12 \<le> unat c" "unat c < unat (heap_start (memory s) heap) + total us + 12 + k"
proof -
  let ?start = "heap_start (memory s) heap"
  obtain us n vs where u: "bs = us @ (n, False) # vs" "a = ?start + of_nat (total us) + 12" "k + 20 \<le> n"
    using b by (auto simp: in_block_def)
  note p = heap_inv_block [OF inv [unfolded u(1)] refl]
  have "unat (?start + of_nat (total us) + of_nat 12) = unat (?start + of_nat (total us)) + 12"
    by (rule unat_add_of_nat) (use p(3,6) in linarith)
  then have a: "unat a = unat ?start + total us + 12" using u(2) p(4) by simp
  have "unat a + k \<le> 4294967296" using a p(4,6) u(3) by linarith
  then show thesis using c by (intro that [OF u]) (simp_all add: a within_nat)
qed

text \<open>They are not the heap's own.\<close>

lemma in_block_not_own:
  assumes inv: "heap_inv s heap bs" and b: "in_block (heap_start (memory s) heap) bs a k" and c: "within a k c"
  shows "\<not> heap_own (memory s) heap bs c"
proof -
  let ?m = "memory s" let ?start = "heap_start ?m heap"
  obtain us n vs where u: "bs = us @ (n, False) # vs" "k + 20 \<le> n"
    and w: "unat ?start + total us + 12 \<le> unat c" "unat c < unat ?start + total us + 12 + k"
    by (rule in_block_inside [OF assms])
  let ?p = "?start + of_nat (total us)"
  note p = heap_inv_block [OF inv [unfolded u(1)] refl]
  have sh: "heap_shape ?m heap (total bs)" and ch: "chain ?m (heap_end ?m heap) ?start bs" and bound: "unat ?start + total bs < 4294967296"
    using inv by (simp_all add: heap_inv_def heap_shape_def Let_def)
  have pn: "unat (?p + of_nat n) = unat ?p + n" "unat (?p + of_nat (n - 8)) = unat ?p + (n - 8)"
    by (rule unat_add_of_nat, use p(3,6) in linarith)+
  have tot: "total bs = total us + n + total vs" by (simp add: u(1))
  have "within ?start (total bs) c" using w u(2) bound by (simp add: within_nat tot)
  then have "\<not> within heap 32 c" "\<not> within (oa_array_at ?m heap) (4 * unat (oa_max_size_at ?m heap)) c"
    using sh by (auto simp: heap_shape_def apart_iff Let_def)
  moreover have "\<not> chain_own ?start us c" "\<not> chain_own (?p + of_nat n) vs c"
  proof -
    have parts: "chain ?m (heap_end ?m heap) ?start us" "chain ?m (heap_end ?m heap) (?p + of_nat n) vs"
      using ch by (simp_all add: u(1) chain_append)
    show "\<not> chain_own ?start us c"
      using chain_own_area [OF parts(1), of c] bound w tot by (auto simp: within_nat)
    show "\<not> chain_own (?p + of_nat n) vs c"
      using chain_own_area [OF parts(2), of c] bound w tot u(2) pn(1) p(4) by (auto simp: within_nat)
  qed
  moreover have "\<not> within ?p 12 c" "\<not> within (?p + of_nat n - 8) 8 c"
  proof -
    have "?p + of_nat n - 8 = ?p + of_nat (n - 8)" using p(3) by (simp add: of_nat_diff)
    moreover have "\<not> within (?p + of_nat (n - 8)) 8 c" using pn(2) p(3,4,6) w u(2) by (subst within_nat) linarith+
    ultimately show "\<not> within (?p + of_nat n - 8) 8 c" by metis
    show "\<not> within ?p 12 c" using p(3,4,6) w by (simp add: within_nat)
  qed
  ultimately show ?thesis by (simp add: heap_own_def u(1) chain_own_append)
qed

text \<open>Freeing one block spares the others, which stay in use.\<close>

lemma free_spares:
  assumes inv: "heap_inv s heap (xs @ (n, False) # (n2, h) # ys)"
    and b: "in_block (heap_start (memory s) heap) (xs @ (n, False) # (n2, h) # ys) a k"
    and ne: "a \<noteq> heap_start (memory s) heap + of_nat (total xs) + 12" and c: "within a k c"
  shows "within (heap_start (memory s) heap) (total (xs @ (n, False) # (n2, h) # ys)) c"
    "\<not> within (heap_start (memory s) heap + of_nat (total (left_rest xs))) (left_len xs + n + (if h then n2 else 0)) c"
proof -
  let ?start = "heap_start (memory s) heap" and ?bs = "xs @ (n, False) # (n2, h) # ys"
  obtain us n' vs where u: "?bs = us @ (n', False) # vs" "a = ?start + of_nat (total us) + 12" "k + 20 \<le> n'"
    and w: "unat ?start + total us + 12 \<le> unat c" "unat c < unat ?start + total us + 12 + k"
    by (rule in_block_inside [OF inv b c])
  have bound: "unat ?start + total ?bs < 4294967296" using inv by (simp add: heap_inv_def heap_shape_def Let_def)
  have tot: "total ?bs = total us + n' + total vs" by (simp add: u(1))
  have n: "20 \<le> n" using heap_inv_block(3) [OF inv refl] .
  show "within ?start (total ?bs) c" using w u(3) bound tot by (simp add: within_nat)
  have self: "total us + n' \<le> total xs \<or> total xs + n \<le> total us"
    using u(1) by (rule two_blocks [of xs "(n, False)" "(n2, h) # ys" us "(n', False)" vs]) (use ne u(2) in auto)
  have right: "total us + n' \<le> total xs + n \<or> total xs + n + n2 \<le> total us" if h
  proof -
    have "(xs @ [(n, False)]) @ (n2, h) # ys = us @ (n', False) # vs" using u(1) by simp
    then show ?thesis by (rule two_blocks) (use that in \<open>auto dest!: arg_cong [of _ _ total]\<close>)
  qed
  have left: "total us + n' \<le> total (left_rest xs) \<or> total xs \<le> total us"
  proof (cases "xs \<noteq> [] \<and> snd (last xs)")
    case True
    then have xs: "xs = left_rest xs @ [(left_len xs, True)]" by (cases xs rule: rev_cases) (auto simp: left_rest_def left_len_def)
    then have "left_rest xs @ (left_len xs, True) # (n, False) # (n2, h) # ys = us @ (n', False) # vs"
      using u(1) by (metis append.assoc append_Cons append_Nil)
    then show ?thesis using total_left [of xs] by (elim two_blocks) auto
  next
    case False
    then show ?thesis using self u(3) n by (auto simp: left_rest_def)
  qed
  let ?N = "left_len xs + n + (if h then n2 else 0)" and ?q = "?start + of_nat (total (left_rest xs))"
  have "total us + n' \<le> total (left_rest xs) \<or> total (left_rest xs) + ?N \<le> total us"
    using self right left total_left [of xs] u(3) n by (cases h) auto
  moreover have N: "total (left_rest xs) + ?N \<le> total ?bs" using total_left [of xs] by simp
  moreover have "unat ?q = unat ?start + total (left_rest xs)"
    by (rule unat_add_of_nat) (use N bound in linarith)
  moreover have "unat ?start + total (left_rest xs) + ?N \<le> 4294967296" using N bound by linarith
  ultimately show "\<not> within ?q ?N c" using w u(3) by (auto simp: within_nat)
qed

lemma in_block_freed:
  assumes "in_block start (xs @ (n, False) # (n2, False) # ys) a k" "a \<noteq> start + of_nat (total xs) + 12"
  shows "in_block start (freed xs n (n2, False) ys) a k"
proof -
  obtain us n' vs where u: "us @ (n', False) # vs = xs @ (n, False) # (n2, False) # ys" "a = start + of_nat (total us) + 12" "k + 20 \<le> n'"
    using assms(1) unfolding in_block_def by metis
  from u(1) show ?thesis
  proof (rule two_blocks)
    assume "us = xs"
    then show ?thesis using assms(2) u(2) by simp
  next
    fix ws assume ws: "xs = us @ (n', False) # ws"
    then obtain ws' where "left_rest xs = us @ (n', False) # ws'"
      by (cases ws rule: rev_cases; cases "snd (last ws)") (auto simp: left_rest_def butlast_append)
    then have "freed xs n (n2, False) ys = us @ (n', False) # ws' @ (left_len xs + n, True) # (n2, False) # ys"
      by (simp add: freed_def)
    then show ?thesis unfolding in_block_def using u(2,3) by blast
  next
    fix ws assume ws: "us = xs @ (n, False) # ws" "(n2, False) # ys = ws @ (n', False) # vs"
    have "freed xs n (n2, False) ys = (left_rest xs @ (left_len xs + n, True) # ws) @ (n', False) # vs"
      by (simp add: freed_def ws(2))
    moreover have "total (left_rest xs @ (left_len xs + n, True) # ws) = total us" using total_left [of xs] by (simp add: ws(1))
    ultimately show ?thesis unfolding in_block_def using u(2,3) by metis
  qed
qed

lemma in_block_size:
  assumes inv: "heap_inv s heap bs" and bs: "bs = xs @ (n, False) # ys"
    and b: "in_block (heap_start (memory s) heap) bs (heap_start (memory s) heap + of_nat (total xs) + 12) k"
  shows "k + 20 \<le> n"
proof -
  let ?start = "heap_start (memory s) heap"
  obtain us n' vs where u: "bs = us @ (n', False) # vs" "?start + of_nat (total xs) + 12 = ?start + of_nat (total us) + 12" "k + 20 \<le> n'"
    using b unfolding in_block_def by blast
  have "unat (?start + of_nat (total xs)) = unat ?start + total xs" by (rule heap_inv_block(4) [OF inv [unfolded bs] refl])
  moreover have "unat (?start + of_nat (total us)) = unat ?start + total us" by (rule heap_inv_block(4) [OF inv [unfolded u(1)] refl])
  moreover have "?start + of_nat (total xs) = ?start + of_nat (total us)" using u(2) by (rule add_right_imp_eq)
  ultimately have t: "total us = total xs" by (metis add_left_imp_eq)
  have "us @ (n', False) # vs = xs @ (n, False) # ys" using u(1) bs by simp
  then show ?thesis
    by (rule two_blocks) (use t u(3) heap_inv_block(3) [OF inv [unfolded bs] refl] in auto)
qed

subsection \<open>Ending a process\<close>

lemma unlink_field: "within (p_next r) 4 c \<Longrightarrow> within r 36 c"
  using within_split [of 32 4 r c] by (simp add: p_next_def)

text \<open>
  The two calls of \<open>kfree\<close> with the unlinking between them, for a page directory and a process in blocks of the heap
  that are not its first block. \<open>bs1\<close> are the blocks after the first call.
\<close>

lemma kill_runs:
  assumes l: "proc_list (memory s) p ps" "procs_apart ps" and ps: "ps = pre @ a # cur # post"
    and h: "kheap s = H" "H \<noteq> 0" and inv: "heap_inv s H (xs1 @ (n1, False) # (n2, False) # ys1)"
    and blocks: "\<forall>r \<in> set ps. in_block (heap_start (memory s) H) (xs1 @ (n1, False) # (n2, False) # ys1) r 36"
    and dir: "dir = heap_start (memory s) H + of_nat (total xs1) + 12" "dir \<notin> set ps" "xs1 \<noteq> []"
    and bs1: "freed xs1 n1 (n2, False) ys1 = xs2 @ (n3, False) # (n4, hole) # ys2" "hole \<longrightarrow> ys2 \<noteq> []" "xs2 \<noteq> []"
    and cur: "cur = heap_start (memory s) H + of_nat (total xs2) + 12"
    and room: "unat (oa_size_at (memory s) H) + 2 \<le> unat (oa_max_size_at (memory s) H)"
  obtains m1 m2 m3 where "kfree dir s = Some (s\<lparr>memory := m1\<rparr>)" "unlink_from cur p m1 = Some m2"
    and "kfree cur (s\<lparr>memory := m2\<rparr>) = Some (s\<lparr>memory := m3\<rparr>)"
    and "proc_list m3 p (pre @ a # post)" "load32 m3 (p_next cur) = (if post = [] then 0 else hd post)"
    and "\<And>r c. r \<in> set ps \<Longrightarrow> within r 36 c \<Longrightarrow> \<not> within (p_next a) 4 c \<Longrightarrow> m3 c = memory s c"
    and "heap_inv (s\<lparr>memory := close_footer hole (heap_start (memory s) H + of_nat (total (left_rest xs2)))
      (left_len xs2 + n3 + (if hole then n4 else 0)) m3\<rparr>) H (freed xs2 n3 (n4, hole) ys2)"
proof -
  let ?start = "heap_start (memory s) H" and ?bs = "xs1 @ (n1, False) # (n2, False) # ys1"
  have "oa_size_at (memory s) H < oa_max_size_at (memory s) H" using room unfolding word_less_nat_alt by linarith
  then obtain m1 where f1: "free (?start + of_nat (total xs1) + 12) H s = Some (s\<lparr>memory := m1\<rparr>)"
    and inv1: "heap_inv (s\<lparr>memory := m1\<rparr>) H (freed xs1 n1 (n2, False) ys1)"
    and fr1: "\<And>c. within ?start (total ?bs) c \<Longrightarrow> \<not> within (?start + of_nat (total (left_rest xs1))) (left_len xs1 + n1) c \<Longrightarrow> m1 c = memory s c"
    and e1: "heap_start m1 H = ?start" "oa_max_size_at m1 H = oa_max_size_at (memory s) H"
      "unat (oa_size_at m1 H) \<le> Suc (unat (oa_size_at (memory s) H))"
    using free_in_use [OF inv dir(3) refl] by blast
  have same1: "m1 c = memory s c" if "r \<in> set ps" "within r 36 c" for r c
  proof -
    have r: "r \<noteq> ?start + of_nat (total xs1) + 12" using dir(1,2) that(1) by auto
    show ?thesis using free_spares [OF inv blocks [rule_format, OF that(1)] r that(2)] fr1 [of c] by simp
  qed
  have blocks1: "in_block ?start (freed xs1 n1 (n2, False) ys1) r 36" if "r \<in> set ps" for r
    by (rule in_block_freed [OF blocks [rule_format, OF that]]) (use dir(1,2) that in auto)
  define m2 where "m2 = store32 m1 (p_next a) (load32 m1 (p_next cur))"
  have a: "a \<in> set ps" "cur \<in> set ps" by (simp_all add: ps)
  have same2: "m2 c = m1 c" if "\<not> within (p_next a) 4 c" for c using that by (simp add: m2_def store32_other)
  have own: "m2 c = memory (s\<lparr>memory := m1\<rparr>) c" if "heap_own (memory (s\<lparr>memory := m1\<rparr>)) H (freed xs1 n1 (n2, False) ys1) c" for c
  proof -
    have "in_block (heap_start (memory (s\<lparr>memory := m1\<rparr>)) H) (freed xs1 n1 (n2, False) ys1) a 36"
      using blocks1 [OF a(1)] e1(1) by simp
    then have "\<not> within a 36 c" using in_block_not_own [OF inv1] that by blast
    then show ?thesis using same2 unlink_field by auto
  qed
  note c2 = heap_own_cong [OF inv1 own, simplified]
  have inv2: "heap_inv (s\<lparr>memory := m2\<rparr>) H (xs2 @ (n3, False) # (n4, hole) # ys2)" using c2(1) bs1(1) by simp
  have e2: "heap_start m2 H = ?start" "oa_size_at m2 H < oa_max_size_at m2 H"
    using c2(2,4,5) e1 room unfolding word_less_nat_alt by simp_all
  have p2: "cur - 12 = heap_start (memory (s\<lparr>memory := m2\<rparr>)) H + of_nat (total xs2)" using cur e2(1) by simp
  obtain m3 where f3: "free cur H (s\<lparr>memory := m2\<rparr>) = Some (s\<lparr>memory := m3\<rparr>)"
    and inv3: "heap_inv (s\<lparr>memory := close_footer hole (?start + of_nat (total (left_rest xs2))) (left_len xs2 + n3 + (if hole then n4 else 0)) m3\<rparr>) H
      (freed xs2 n3 (n4, hole) ys2)"
    and fr3: "\<And>c. within ?start (total (xs2 @ (n3, False) # (n4, hole) # ys2)) c \<Longrightarrow>
      \<not> within (?start + of_nat (total (left_rest xs2))) (left_len xs2 + n3 + (if hole then n4 else 0)) c \<Longrightarrow> m3 c = m2 c"
    and dt3: "\<And>c. within cur (n3 - 20) c \<Longrightarrow> m3 c = m2 c"
    using free_block [OF inv2 bs1(2) p2 refl refl] bs1(3) e2 by auto
  have n3: "36 + 20 \<le> n3"
    by (rule in_block_size [OF inv2 refl]) (use blocks1 [OF a(2)] e2(1) cur bs1(1) in simp)
  have same3: "m3 c = m2 c" if "r \<in> set ps" "within r 36 c" for r c
  proof (cases "r = cur")
    case True
    then show ?thesis using that(2) n3 by (intro dt3) (auto intro: within_mono)
  next
    case False
    have b: "in_block (heap_start (memory (s\<lparr>memory := m2\<rparr>)) H) (xs2 @ (n3, False) # (n4, hole) # ys2) r 36"
      using blocks1 [OF that(1)] e2(1) bs1(1) by simp
    have "r \<noteq> heap_start (memory (s\<lparr>memory := m2\<rparr>)) H + of_nat (total xs2) + 12" using False cur e2(1) by simp
    from free_spares [OF inv2 b this that(2)] show ?thesis using fr3 [of c] e2(1) by simp
  qed
  have k: "unlink_from cur p m1 = Some m2" "proc_list m3 p (pre @ a # post)" "load32 m3 (p_next cur) = (if post = [] then 0 else hd post)"
    by (rule killed_list [OF l ps same1 m2_def same3]; assumption)+
  show thesis
  proof (rule that [of m1 m2 m3])
    show "kfree dir s = Some (s\<lparr>memory := m1\<rparr>)" using f1 h dir(1) by (simp add: kfree_def)
    show "kfree cur (s\<lparr>memory := m2\<rparr>) = Some (s\<lparr>memory := m3\<rparr>)" using f3 h by (simp add: kfree_def)
    show "m3 c = memory s c" if "r \<in> set ps" "within r 36 c" "\<not> within (p_next a) 4 c" for r c
      using same3 [OF that(1,2)] same2 [OF that(3)] same1 [OF that(1,2)] by simp
  qed (rule k inv3)+
qed

subsection \<open>Properties\<close>

text \<open>C30: \<open>_kill\<close> of a process other than the first, whose structure and page directory are blocks of the kernel's heap
  like the other processes: it takes exactly it out of the list, which stays well-formed, gives both blocks back, so that they
  are holes of the heap, and jumps to the process behind it, or from the end to the first one. Nothing else changes in the
  structures of the others but the link that passed to it. Neither block is the first of the heap, behind the page
  directory lies a block in use, and the index has room for two holes. \<open>schedule\<close> finds the next process in the freed
  structure, which \<open>kfree\<close> has not cleared. When a hole follows the structure, the heap is well-formed but for the footer that
  \<open>free\<close> leaves out.\<close>

theorem kill_removes_current:
  assumes "tasks_ok t (memory s) ps" "ps = pre @ a # cp t # post" "load32 (memory s) (p_id (cp t)) \<noteq> 1"
    and "kheap s = H" "H \<noteq> 0" "heap_inv s H (xs1 @ (n1, False) # (n2, False) # ys1)"
    and "\<forall>r \<in> set ps. in_block (heap_start (memory s) H) (xs1 @ (n1, False) # (n2, False) # ys1) r 36"
    and "dir = load32 (memory s) (p_page_directory (cp t))" "dir = heap_start (memory s) H + of_nat (total xs1) + 12" "dir \<notin> set ps" "xs1 \<noteq> []"
    and "freed xs1 n1 (n2, False) ys1 = xs2 @ (n3, False) # (n4, hole) # ys2" "hole \<longrightarrow> ys2 \<noteq> []" "xs2 \<noteq> []"
    and "cp t = heap_start (memory s) H + of_nat (total xs2) + 12"
    and "unat (oa_size_at (memory s) H) + 2 \<le> unat (oa_max_size_at (memory s) H)"
  shows "\<exists>t' s'. kill_current (t, s) = Some (runs (memory s') (cp t'), t', s')
    \<and> tasks_ok t' (memory s') (pre @ a # post) \<and> cp t' = hd (post @ [ready_queue t])
    \<and> (\<forall>r \<in> set ps. \<forall>c. within r 36 c \<longrightarrow> \<not> within (p_next a) 4 c \<longrightarrow> memory s' c = memory s c)
    \<and> heap_inv (s'\<lparr>memory := close_footer hole (heap_start (memory s) H + of_nat (total (left_rest xs2)))
        (left_len xs2 + n3 + (if hole then n4 else 0)) (memory s')\<rparr>) H (freed xs2 n3 (n4, hole) ys2)"
proof -
  have l: "proc_list (memory s) (ready_queue t) ps" "procs_apart ps" using assms(1) by (simp_all add: tasks_ok_def)
  obtain m1 m2 m3 where k: "kfree dir s = Some (s\<lparr>memory := m1\<rparr>)" "unlink_from (cp t) (ready_queue t) m1 = Some m2"
      "kfree (cp t) (s\<lparr>memory := m2\<rparr>) = Some (s\<lparr>memory := m3\<rparr>)"
      "proc_list m3 (ready_queue t) (pre @ a # post)" "load32 m3 (p_next (cp t)) = (if post = [] then 0 else hd post)"
    and fr: "\<And>r c. r \<in> set ps \<Longrightarrow> within r 36 c \<Longrightarrow> \<not> within (p_next a) 4 c \<Longrightarrow> m3 c = memory s c"
    and inv: "heap_inv (s\<lparr>memory := close_footer hole (heap_start (memory s) H + of_nat (total (left_rest xs2)))
      (left_len xs2 + n3 + (if hole then n4 else 0)) m3\<rparr>) H (freed xs2 n3 (n4, hole) ys2)"
    by (rule kill_runs [OF l assms(2,4-7,9-16)], rule that; assumption)
  have ap: "procs_apart (pre @ a # post)" using l(2) assms(2) by (auto simp: procs_apart_def)
  let ?t = "with_timer (set_task 1) (with_timer (set_task 0) t)" and ?c = "hd (post @ [ready_queue t])"
  have hd: "hd post \<noteq> 0" if "post \<noteq> []"
    using proc_list_nonzero [OF l(1), of "hd post"] assms(2) that by simp
  let ?s = "s\<lparr>memory := m3, current_directory := load32 m3 (p_page_directory ?c)\<rparr>"
  have "kill_current (t, s) = Some (schedule (?t, s\<lparr>memory := m3\<rparr>))"
    using assms(3,8) k(1-3) by (simp add: kill_current_def Let_def with_timer_def)
  also have "schedule (?t, s\<lparr>memory := m3\<rparr>) = (runs m3 ?c, ?t\<lparr>cp := ?c\<rparr>, ?s)"
    using k(5) hd by (cases post) (simp_all add: schedule_def exec_def runs_def with_timer_def Let_def)
  finally have run: "kill_current (t, s) = Some (runs m3 ?c, ?t\<lparr>cp := ?c\<rparr>, ?s)" .
  have "?c \<in> set (pre @ a # post)"
    using proc_list_head [OF k(4)] by (cases post; cases pre) auto
  then have ok: "tasks_ok (?t\<lparr>cp := ?c\<rparr>) (memory ?s) (pre @ a # post)" using k(4) ap by (simp add: tasks_ok_def with_timer_def)
  have heap: "heap_inv (?s\<lparr>memory := m\<rparr>) H bs" if "heap_inv (s\<lparr>memory := m\<rparr>) H bs" for m bs
    using that by (simp add: heap_inv_def)
  show ?thesis
    by (rule exI [of _ "?t\<lparr>cp := ?c\<rparr>"], rule exI [of _ ?s], intro conjI) (use run ok fr heap [OF inv] in simp_all)
qed

text \<open>Two processes in the first and the third of four blocks of the kernel's heap; the second holds the page directory of
  the third, which runs.\<close>

definition linked_processes :: "mem \<Rightarrow> mem" where
  "linked_processes m = store32 (store32 (store32 (store32 m 0xC008002C 0xC00800FC) 0xC0080100 2) 0xC0080114 0xC0080084) 0xC008011C 0"

definition heap_tasks :: tasking where
  "heap_tasks = \<lparr>cp = 0xC00800FC, ready_queue = 0xC008000C, lpid = 2, tasking_enabled = 1, timer = timer_initial\<rparr>"

lemma linked_processes_words:
  "load32 (linked_processes m) 0xC008002C = 0xC00800FC" "load32 (linked_processes m) 0xC0080100 = 2"
  "load32 (linked_processes m) 0xC0080114 = 0xC0080084" "load32 (linked_processes m) 0xC008011C = 0"
  by (simp_all add: linked_processes_def load32_store32_same load32_store32_apart apart_def)

lemma linked_processes_outside:
  "\<not> within 0xC008000C 36 c \<Longrightarrow> \<not> within 0xC00800FC 36 c \<Longrightarrow> linked_processes m c = m c"
  by (auto simp: linked_processes_def store32_other within_nat)

abbreviation four_blocks :: "block list" where
  "four_blocks \<equiv> [(120, False)] @ (120, False) # (120, False) # [(120, False), (0x80000 - 480, True)]"

lemma four_blocks_in:
  "in_block 0xC0080000 four_blocks 0xC008000C 36" "in_block 0xC0080000 four_blocks 0xC00800FC 36"
  unfolding in_block_def
  by (rule exI [of _ "[]"], simp, rule exI [of _ "[(120, False), (120, False)]"], simp)

lemma linked_heap:
  obtains s m where "kheap s = 0x20000" "heap_inv s 0x20000 four_blocks" "heap_start (memory s) 0x20000 = 0xC0080000"
    "oa_max_size_at (memory s) 0x20000 = 0x20000" "memory s = linked_processes m"
proof -
  have "replicate 4 x = [x, x, x, x]" for x :: block by (simp add: eval_nat_numeral)
  then have four: "replicate 4 (120, False) @ [(0x80000 - 120 * 4 :: nat, True)] = four_blocks" by simp
  obtain s0 where inv: "heap_inv s0 0x20000 four_blocks" and st: "heap_start (memory s0) 0x20000 = 0xC0080000"
    and mx: "oa_max_size_at (memory s0) 0x20000 = 0x20000"
    using filled_heap [of 4] unfolding four by auto
  let ?s = "s0\<lparr>kheap := 0x20000, memory := linked_processes (memory s0)\<rparr>"
  have own: "linked_processes (memory s0) c = memory s0 c" if "heap_own (memory s0) 0x20000 four_blocks c" for c
    using in_block_not_own [OF inv, unfolded st, OF four_blocks_in(1)] in_block_not_own [OF inv, unfolded st, OF four_blocks_in(2)] that
    by (intro linked_processes_outside) blast+
  note cong = heap_own_cong [OF inv own]
  have "heap_inv ?s 0x20000 four_blocks" using cong(1) by (simp add: heap_inv_def)
  then show thesis using cong(2,5) st mx by (intro that [of ?s]) simp_all
qed

theorem kill_removes_current_witness:
  "\<exists>s t' s'. kheap s = 0x20000 \<and> heap_inv s 0x20000 four_blocks \<and> cp heap_tasks = 0xC00800FC
    \<and> kill_current (heap_tasks, s) = Some (runs (memory s') 0xC008000C, t', s') \<and> tasks_ok t' (memory s') [0xC008000C]
    \<and> heap_inv s' 0x20000 [(120, False), (240, True), (120, False), (0x80000 - 480, True)]"
proof -
  obtain s m where h: "kheap s = 0x20000" and inv: "heap_inv s 0x20000 four_blocks" and st: "heap_start (memory s) 0x20000 = 0xC0080000"
    and mx: "oa_max_size_at (memory s) 0x20000 = 0x20000" and m: "memory s = linked_processes m"
    by (rule linked_heap)
  note w = linked_processes_words [of m, folded m]
  have ok: "tasks_ok heap_tasks (memory s) [0xC008000C, 0xC00800FC]"
    by (simp add: tasks_ok_def heap_tasks_def p_next_def w procs_apart_def apart_def)
  have id: "load32 (memory s) (p_id (cp heap_tasks)) \<noteq> 1" by (simp add: heap_tasks_def p_id_def w)
  have dir: "0xC0080084 = load32 (memory s) (p_page_directory (cp heap_tasks))" by (simp add: heap_tasks_def p_page_directory_def w)
  have blocks: "\<forall>r \<in> set [0xC008000C, 0xC00800FC]. in_block (heap_start (memory s) 0x20000) four_blocks r 36"
    using four_blocks_in by (simp add: st)
  have fr: "freed [(120, False)] 120 (120, False) [(120, False), (0x80000 - 480, True)]
      = [(120, False), (120, True)] @ (120, False) # (120, False) # [(0x80000 - 480, True)]"
    by (simp add: freed_def left_len_def left_rest_def)
  have room: "unat (oa_size_at (memory s) 0x20000) + 2 \<le> unat (oa_max_size_at (memory s) 0x20000)"
    using index_size [OF inv] mx by simp
  have ps: "[0xC008000C, 0xC00800FC] = [] @ 0xC008000C # cp heap_tasks # []" by (simp add: heap_tasks_def)
  have ne: "(0x20000 :: u32) \<noteq> 0" "0xC0080084 \<notin> set [0xC008000C, 0xC00800FC :: u32]" "[(120, False)] \<noteq> ([] :: block list)"
    "[(120, False), (120, True)] \<noteq> ([] :: block list)" "False \<longrightarrow> [(0x80000 - 480, True)] \<noteq> ([] :: block list)" by simp_all
  have at: "0xC0080084 = heap_start (memory s) 0x20000 + of_nat (total [(120, False)]) + 12"
    "cp heap_tasks = heap_start (memory s) 0x20000 + of_nat (total [(120, False), (120, True)]) + 12" by (simp_all add: st heap_tasks_def)
  show ?thesis
    using kill_removes_current [OF ok ps id h ne(1) inv blocks dir at(1) ne(2,3) fr ne(5,4) at(2) room] inv h
    by (auto simp: heap_tasks_def close_footer_def freed_def left_len_def left_rest_def)
qed

end
