(* ===== verification/Memory_Strings.thy ===== *)
theory Memory_Strings
  imports Machine_Memory
begin

text \<open>
  Strings in memory: \<open>bytes m a n\<close> are the \<open>n\<close> bytes from \<open>a\<close>, and \<open>cstr m s xs\<close> says that a
  terminated string with the characters \<open>xs\<close> is at \<open>s\<close>. Shared by the string routines, the
  console, the file system and the shell.
\<close>

subsection \<open>Bytes as lists\<close>

definition bytes :: "mem \<Rightarrow> u32 \<Rightarrow> nat \<Rightarrow> u8 list" where
  "bytes m a n = map (\<lambda>i. load8 m (a + of_nat i)) [0..<n]"

definition cstr :: "mem \<Rightarrow> u32 \<Rightarrow> u8 list \<Rightarrow> bool" where
  "cstr m s xs \<longleftrightarrow> bytes m s (Suc (length xs)) = xs @ [0] \<and> 0 \<notin> set xs \<and> length xs < 2147483647"

lemma length_bytes [simp]: "length (bytes m a n) = n"
  by (simp add: bytes_def)

lemma bytes_nth [simp]: "i < n \<Longrightarrow> bytes m a n ! i = load8 m (a + of_nat i)"
  by (simp add: bytes_def)

lemma bytes_store8:
  assumes "k < n" "n \<le> 4294967296"
  shows "bytes (store8 m (a + of_nat k) v) a n = (bytes m a n)[k := v]"
  unfolding bytes_def
  by (rule upt_map_update [OF assms(1)])
    (use assms in \<open>simp add: load8_store8 of_nat_u32_inject [OF _ assms]\<close>)

lemma bytes_cong: "(\<And>c. within a n c \<Longrightarrow> m' c = m c) \<Longrightarrow> n \<le> 4294967296 \<Longrightarrow> bytes m' a n = bytes m a n"
  by (simp add: bytes_def load8_def within_add_of_nat)

lemma take_bytes: "k \<le> n \<Longrightarrow> take k (bytes m a n) = bytes m a k"
  by (simp add: bytes_def take_map)

lemma bytes_Suc: "bytes m a (Suc n) = bytes m a n @ [load8 m (a + of_nat n)]"
  by (simp add: bytes_def)

lemma bytes_swap:
  assumes "i < n" "j < n" "n \<le> 4294967296"
  shows "bytes (store8 (store8 m (a + of_nat i) (load8 m (a + of_nat j))) (a + of_nat j) (load8 m (a + of_nat i))) a n
    = (bytes m a n)[i := bytes m a n ! j, j := bytes m a n ! i]"
  using assms by (simp add: bytes_store8)

lemma cstr_nth:
  assumes "cstr m s xs"
  shows "i < length xs \<Longrightarrow> load8 m (s + of_nat i) = xs ! i"
    "i < length xs \<Longrightarrow> load8 m (s + of_nat i) \<noteq> 0" "load8 m (s + of_nat (length xs)) = 0"
proof -
  have e: "load8 m (s + of_nat i) = (xs @ [0]) ! i" if "i < Suc (length xs)" for i
    using assms that bytes_nth [OF that, of m s] by (simp add: cstr_def)
  show "i < length xs \<Longrightarrow> load8 m (s + of_nat i) = xs ! i" using e [of i] by (simp add: nth_append)
  then show "i < length xs \<Longrightarrow> load8 m (s + of_nat i) \<noteq> 0"
    using assms by (metis cstr_def nth_mem)
  show "load8 m (s + of_nat (length xs)) = 0" using e [of "length xs"] by simp
qed

lemma cstrI:
  assumes "bytes m s (length xs) = xs" "load8 m (s + of_nat (length xs)) = 0" "0 \<notin> set xs"
    "length xs < 2147483647"
  shows "cstr m s xs"
  using assms by (simp add: cstr_def bytes_Suc)

lemma cstr_bytes: "cstr m s xs \<Longrightarrow> bytes m s (length xs) = xs"
  by (simp add: cstr_def bytes_Suc)

lemma within_Suc: "n < 4294967296 \<Longrightarrow> within p (Suc n) c \<longleftrightarrow> c = p \<or> within (p + 1) n c"
  using within_split [of 1 n p c] by (simp add: within_1 [simplified])

lemma bytes_Cons: "bytes m p (Suc n) = load8 m p # bytes m (p + 1) n"
  by (simp add: bytes_def upt_conv_Cons map_Suc_upt [symmetric] o_def add.assoc del: upt_Suc)

lemma not_within_end: "n < 4294967296 \<Longrightarrow> \<not> within s n (s + of_nat n)"
  by (simp add: within_def unat_of_nat_small)

lemma cstr_Cons: "cstr m s (x # xs) \<longleftrightarrow>
    load8 m s = x \<and> x \<noteq> 0 \<and> cstr m (s + 1) xs \<and> length xs < 2147483646"
  by (auto simp: cstr_def bytes_Cons simp del: bytes_Suc)

lemma cstr_Nil: "cstr m s [] \<longleftrightarrow> load8 m s = 0"
  by (simp add: cstr_def bytes_def)

lemma cstr_frame: "cstr m p xs \<Longrightarrow> (\<And>i. i \<le> length xs \<Longrightarrow> m' (p + of_nat i) = m (p + of_nat i)) \<Longrightarrow> cstr m' p xs"
  unfolding cstr_def bytes_def load8_def by (auto simp del: upt_Suc intro!: map_cong elim!: subst)

lemma cstr_append: "cstr m p (xs @ ys) \<Longrightarrow> cstr m (p + of_nat (length xs)) ys"
proof (induction xs arbitrary: p)
  case (Cons x xs)
  then show ?case using Cons.IH [of "p + 1"] by (simp add: cstr_Cons add.assoc)
qed simp

lemma cstr_cong_within:
  assumes "cstr m p xs" "length xs < n" "n \<le> 4294967296" "\<And>a. within p n a \<Longrightarrow> m' a = m a"
  shows "cstr m' p xs"
proof (rule cstr_frame [OF assms(1)])
  fix i assume "i \<le> length xs"
  then show "m' (p + of_nat i) = m (p + of_nat i)"
    using assms(2,3) by (intro assms(4) within_add_of_nat) simp_all
qed

text \<open>A string placed in memory, for the witnesses.\<close>

definition put_bytes :: "u32 \<Rightarrow> u8 list \<Rightarrow> mem \<Rightarrow> mem" where
  "put_bytes a xs m = (\<lambda>c. if within a (length xs) c then xs ! unat (c - a) else m c)"

lemma put_bytes_cstr:
  assumes "0 \<notin> set xs" "length xs < 2147483647"
  shows "cstr (put_bytes a (xs @ [0]) m) a xs"
proof (rule cstrI)
  have "load8 (put_bytes a (xs @ [0]) m) (a + of_nat i) = (xs @ [0]) ! i" if "i < Suc (length xs)" for i
    using that assms(2) by (simp add: put_bytes_def load8_def within_def unat_of_nat_small)
  then show "bytes (put_bytes a (xs @ [0]) m) a (length xs) = xs"
    and "load8 (put_bytes a (xs @ [0]) m) (a + of_nat (length xs)) = 0"
    by (auto simp: bytes_def nth_append intro!: nth_equalityI)
qed (use assms in auto)

end
