(* ===== verification/Libc_String.thy ===== *)
theory Libc_String
  imports Kernel_Heap Memory_Strings
begin

text \<open>
  The strings of \<open>kernel/libc/string.c\<close>: \<open>itoa\<close>, \<open>reverse\<close>, \<open>strlen\<close>, \<open>append\<close>, \<open>backspace\<close>,
  \<open>strcmp\<close>, \<open>strncmp\<close>, \<open>strcpy\<close> and \<open>split\<close>, on strings in memory. A loop that runs to the
  terminating zero need not end, so these loops are partial: \<open>None\<close> is a loop without end.
  An \<open>int\<close> is a 32-bit word read with its sign; \<open>char\<close> is signed on the target. \<open>cstr m s xs\<close>
  says that a string with the bytes \<open>xs\<close> is at \<open>s\<close>; the lemmas state each routine over \<open>xs\<close>.
\<close>

subsection \<open>\<open>itoa\<close>\<close>

text \<open>
  The test \<open>d < 0\<close> is on an unsigned parameter and never holds, but it is kept. The format
  letters are characters passed as \<open>uint32_t\<close>: \<open>'d'\<close> is \<open>0x64\<close>, \<open>'x'\<close> is \<open>0x78\<close>.
\<close>

definition itoa_divisor :: "u32 \<Rightarrow> u32 \<Rightarrow> u32" where
  "itoa_divisor base d = (if base = 0x64 \<and> d < 0 then 10 else if base = 0x78 then 16 else 10)"

definition itoa_digit :: "u32 \<Rightarrow> u8" where
  "itoa_digit remainder = ucast (if remainder < 10 then remainder + 0x30 else remainder + 0x41 - 10)"

lemma itoa_divisor_cases: "itoa_divisor base d = (if base = 0x78 then 16 else 10)"
  by (simp add: itoa_divisor_def)

text \<open>The do-while loop: digits from the lowest, \<open>p\<close> behind the last one.\<close>

function itoa_digits :: "u32 \<Rightarrow> u32 \<Rightarrow> u32 \<Rightarrow> u32 \<Rightarrow> mem \<Rightarrow> u32 \<times> mem" where
  "itoa_digits base d ud p m =
     (let divisor = itoa_divisor base d;
          remainder = ud mod divisor;
          m = store8 m p (itoa_digit remainder);
          p = p + 1;
          ud = ud div divisor
      in if ud \<noteq> 0 then itoa_digits base d ud p m else (p, m))"
  by pat_completeness auto
termination
  by (relation "measure (\<lambda>(base, d, ud, p, m). unat ud)")
    (auto simp: itoa_divisor_cases unat_div_distrib unat_gt_0 intro!: div_less_dividend split: if_splits)

declare itoa_digits.simps [simp del]

function itoa_swap :: "u32 \<Rightarrow> u32 \<Rightarrow> mem \<Rightarrow> mem" where
  "itoa_swap p1 p2 m =
     (if p1 < p2 then
        (let tmp = load8 m p1; m = store8 m p1 (load8 m p2); m = store8 m p2 tmp
         in itoa_swap (p1 + 1) (p2 - 1) m)
      else m)"
  by pat_completeness auto
termination
proof (relation "measure (\<lambda>(p1, p2, m). unat p2)")
  fix p1 p2 :: u32 and m :: mem
  assume "p1 < p2"
  then show "((p1 + 1, p2 - 1, m), p1, p2, m') \<in> measure (\<lambda>(p1, p2, m). unat p2)" for m m'
    by simp unat_arith
qed simp

declare itoa_swap.simps [simp del]

definition itoa :: "u32 \<Rightarrow> u32 \<Rightarrow> u32 \<Rightarrow> mem \<Rightarrow> mem" where
  "itoa buf base d m =
     (let p = buf; ud = d;
          (m, p, buf, ud) = (if base = 0x64 \<and> d < 0 then (store8 m p 0x2D, p + 1, buf + 1, - d)
                             else (m, p, buf, ud));
          (p, m) = itoa_digits base d ud p m;
          m = store8 m p 0
      in itoa_swap buf (p - 1) m)"

subsection \<open>Strings\<close>

partial_function (option) strlen_from :: "mem \<Rightarrow> u32 \<Rightarrow> u32 \<Rightarrow> u32 option" where
  "strlen_from m s i = (if load8 m (s + i) \<noteq> 0 then strlen_from m s (i + 1) else Some i)"

definition strlen :: "mem \<Rightarrow> u32 \<Rightarrow> u32 option" where
  "strlen m s = strlen_from m s 0"

function reverse_loop :: "u32 \<Rightarrow> u32 \<Rightarrow> u32 \<Rightarrow> mem \<Rightarrow> mem" where
  "reverse_loop s i j m =
     (if sint i < sint j then
        (let c = load8 m (s + i); m = store8 m (s + i) (load8 m (s + j)); m = store8 m (s + j) c
         in reverse_loop s (i + 1) (j - 1) m)
      else m)"
  by pat_completeness auto
termination
  by (relation "measure (\<lambda>(s, i, j, m). nat (sint j - sint i))")
    (auto simp: sint_Suc_below sint_pred_above)

declare reverse_loop.simps [simp del]

definition reverse :: "u32 \<Rightarrow> mem \<Rightarrow> mem option" where
  "reverse s m = map_option (\<lambda>n. reverse_loop s 0 (n - 1) m) (strlen m s)"

definition append :: "u32 \<Rightarrow> u8 \<Rightarrow> mem \<Rightarrow> mem option" where
  "append s n m = map_option (\<lambda>len. store8 (store8 m (s + len) n) (s + (len + 1)) 0) (strlen m s)"

definition backspace :: "u32 \<Rightarrow> mem \<Rightarrow> mem option" where
  "backspace s m = map_option (\<lambda>len. store8 m (s + (len - 1)) 0) (strlen m s)"

partial_function (option) strcmp_from :: "mem \<Rightarrow> u32 \<Rightarrow> u32 \<Rightarrow> u32 \<Rightarrow> int option" where
  "strcmp_from m s1 s2 i =
     (if load8 m (s1 + i) = load8 m (s2 + i) then
        (if load8 m (s1 + i) = 0 then Some 0 else strcmp_from m s1 s2 (i + 1))
      else Some (sint (load8 m (s1 + i)) - sint (load8 m (s2 + i))))"

definition strcmp :: "mem \<Rightarrow> u32 \<Rightarrow> u32 \<Rightarrow> int option" where
  "strcmp m s1 s2 = strcmp_from m s1 s2 0"

function strncmp_from :: "mem \<Rightarrow> u32 \<Rightarrow> u32 \<Rightarrow> u32 \<Rightarrow> u32 \<Rightarrow> int" where
  "strncmp_from m s1 s2 n i =
     (if load8 m (s1 + i) = load8 m (s2 + i) \<and> sint i < sint n then
        (if load8 m (s1 + i) = 0 then 0 else strncmp_from m s1 s2 n (i + 1))
      else sint (load8 m (s1 + i)) - sint (load8 m (s2 + i)))"
  by pat_completeness auto
termination
  by (relation "measure (\<lambda>(m, s1, s2, n, i). nat (sint n - sint i))") (auto simp: sint_Suc_below)

declare strncmp_from.simps [simp del]

definition strncmp :: "mem \<Rightarrow> u32 \<Rightarrow> u32 \<Rightarrow> u32 \<Rightarrow> int" where
  "strncmp m s1 s2 n = strncmp_from m s1 s2 n 0"

function strcpy_loop :: "u32 \<Rightarrow> u32 \<Rightarrow> u32 \<Rightarrow> u32 \<Rightarrow> mem \<Rightarrow> mem" where
  "strcpy_loop dst src len i m =
     (if sint i < sint len then strcpy_loop dst src len (i + 1) (store8 m (dst + i) (load8 m (src + i)))
      else m)"
  by pat_completeness auto
termination
  by (relation "measure (\<lambda>(dst, src, len, i, m). nat (sint len - sint i))") (auto simp: sint_Suc_below)

declare strcpy_loop.simps [simp del]

definition strcpy :: "u32 \<Rightarrow> u32 \<Rightarrow> mem \<Rightarrow> (u32 \<times> mem) option" where
  "strcpy dst src m = map_option (\<lambda>len. (dst, strcpy_loop dst src len 0 m)) (strlen m src)"

text \<open>
  \<open>split\<close>: a counting loop, then a second one that allocates a slice for each delimiter and
  copies onto the pointer array itself; \<open>cnt * sizeof(char*)\<close> bytes hold the pointers. The
  allocator is an argument; the result is the array, the count and the state.
\<close>

function split_count :: "mem \<Rightarrow> u32 \<Rightarrow> u8 \<Rightarrow> u32 \<Rightarrow> u32 \<Rightarrow> u32 \<Rightarrow> u32" where
  "split_count m str delim sz i cnt =
     (if sint i < sint sz then
        split_count m str delim sz (i + 1) (if load8 m (str + i) = delim then cnt + 1 else cnt)
      else cnt)"
  by pat_completeness auto
termination
  by (relation "measure (\<lambda>(m, str, delim, sz, i, cnt). nat (sint sz - sint i))") (auto simp: sint_Suc_below)

declare split_count.simps [simp del]

function split_copy :: "(u32 \<Rightarrow> kstate \<Rightarrow> (u32 \<times> kstate) option) \<Rightarrow> u32 \<Rightarrow> u8 \<Rightarrow> u32 \<Rightarrow> u32 \<Rightarrow>
    u32 \<Rightarrow> u32 \<Rightarrow> u32 \<Rightarrow> kstate \<Rightarrow> kstate option" where
  "split_copy mk str delim sz ptr i idx last_idx s =
     (if sint i < sint sz then
        (if load8 (memory s) (str + i) = delim then
           Option.bind (mk (i - last_idx) s) (\<lambda>(a, s).
             let s = upd_mem (\<lambda>m. store32 m (ptr + 4 * idx) a) s;
                 s = upd_mem (\<lambda>m. snd (memcpy (ptr + 4 * idx) (str + last_idx) (i - last_idx) m)) s
             in split_copy mk str delim sz ptr (i + 1) (idx + 1) idx s)
         else split_copy mk str delim sz ptr (i + 1) idx last_idx s)
      else Some s)"
  by pat_completeness auto
termination
  by (relation "measure (\<lambda>(mk, str, delim, sz, ptr, i, idx, last_idx, s). nat (sint sz - sint i))")
    (auto simp: sint_Suc_below)

declare split_copy.simps [simp del]

definition split :: "(u32 \<Rightarrow> kstate \<Rightarrow> (u32 \<times> kstate) option) \<Rightarrow> u32 \<Rightarrow> u8 \<Rightarrow> kstate \<Rightarrow>
    (u32 \<times> u32 \<times> kstate) option" where
  "split mk str delim s =
     Option.bind (strlen (memory s) str) (\<lambda>sz.
       let cnt = split_count (memory s) str delim sz 0 0 in
       Option.bind (mk (cnt * 4) s) (\<lambda>(ptr, s).
         map_option (\<lambda>s. (ptr, cnt, s)) (split_copy mk str delim sz ptr 0 0 0 s)))"

subsection \<open>The length of a string\<close>

lemma strlen_from_cstr:
  assumes "cstr m s xs"
  shows "i \<le> length xs \<Longrightarrow> strlen_from m s (of_nat i) = Some (of_nat (length xs))"
proof (induction "length xs - i" arbitrary: i)
  case 0
  then show ?case using cstr_nth(3) [OF assms] by (subst strlen_from.simps) simp
next
  case (Suc k)
  then have "strlen_from m s (of_nat (Suc i)) = Some (of_nat (length xs))"
    by (intro Suc.hyps(1)) simp_all
  then show ?case using Suc.hyps(2) Suc.prems cstr_nth(2) [OF assms, of i]
    by (subst strlen_from.simps) (simp add: add.commute)
qed

lemma strlen_cstr: "cstr m s xs \<Longrightarrow> strlen m s = Some (of_nat (length xs))"
  using strlen_from_cstr [of m s xs 0] by (simp add: strlen_def)

subsection \<open>Swapping from both ends reverses\<close>

lemma swap_ends:
  assumes "L = A @ B @ C" "i = length A" "Suc j = length A + length B" "1 < length B"
  shows "\<exists>x B' y. B = x # B' @ [y] \<and> L[i := L ! j, j := L ! i] = (A @ [y]) @ B' @ (x # C)"
proof -
  obtain x B1 where "B = x # B1" using assms(4) by (cases B) auto
  moreover from this obtain B' y where "B1 = B' @ [y]" using assms(4) by (cases B1 rule: rev_cases) auto
  ultimately have B: "B = x # B' @ [y]" by simp
  then have j: "j = Suc (length A + length B')" using assms(3) by simp
  have "L ! i = x" "L ! j = y" using assms(1,2) B j by (simp_all add: nth_append)
  then show ?thesis
    using assms(1,2) B j by (simp add: list_update_append split: nat.split)
qed

lemma reverse_loop_reverses:
  "bytes m s n = A @ B @ C \<Longrightarrow> B \<noteq> [] \<Longrightarrow> n < 2147483648 \<Longrightarrow>
     i = of_nat (length A) \<Longrightarrow> j = of_nat (length A + length B - 1) \<Longrightarrow>
     bytes (reverse_loop s i j m) s n = A @ rev B @ C"
proof (induction s i j m arbitrary: A B C rule: reverse_loop.induct)
  case (1 s i j m)
  let ?i = "length A" and ?j = "length A + length B - 1"
  have n: "n = length A + length B + length C" using arg_cong [OF "1.prems"(1), of length] by simp
  have pos: "0 < length B" using "1.prems"(2) by simp
  have u: "sint i = int ?i" "sint j = int ?j"
    unfolding "1.prems"(4,5) by (rule sint_of_nat, use n pos "1.prems"(3) in linarith)+
  show ?case
  proof (cases "1 < length B")
    case True
    have lt: "sint i < sint j" using u True by simp
    define m' where "m' = store8 (store8 m (s + i) (load8 m (s + j))) (s + j) (load8 m (s + i))"
    obtain x B' y where B: "B = x # B' @ [y]"
      and L: "(bytes m s n)[?i := bytes m s n ! ?j, ?j := bytes m s n ! ?i] = (A @ [y]) @ B' @ (x # C)"
    proof -
      have "Suc ?j = length A + length B" using pos by simp
      from swap_ends [OF "1.prems"(1) refl this True] show thesis using that by blast
    qed
    have m': "bytes m' s n = (A @ [y]) @ B' @ (x # C)"
      unfolding m'_def "1.prems"(4,5) L [symmetric] using "1.prems"(3) n pos
      by (intro bytes_swap) (simp, linarith, linarith)
    have step: "reverse_loop s i j m = reverse_loop s (i + 1) (j - 1) m'"
      using lt by (subst reverse_loop.simps) (simp add: m'_def)
    show ?thesis
    proof (cases "B' = []")
      case True
      then have "j - 1 = i" using B "1.prems"(4,5) by simp
      then have "\<not> sint (i + 1) < sint (j - 1)" using sint_Suc_below [OF lt] by simp
      then have "reverse_loop s i j m = m'" unfolding step by (subst reverse_loop.simps) simp
      then show ?thesis using m' True B by simp
    next
      case False
      have p: "i + 1 = of_nat (length (A @ [y]))" "j - 1 = of_nat (length (A @ [y]) + length B' - 1)"
        using "1.prems"(4,5) B by simp_all
      show ?thesis
        using "1.IH" [OF lt refl refl refl m'[unfolded m'_def] False "1.prems"(3) p] B
        by (simp add: step m'_def)
    qed
  next
    case False
    then have "\<not> sint i < sint j" using u by simp
    moreover have "rev B = B" using False by (cases B) auto
    ultimately show ?thesis using "1.prems"(1) by (subst reverse_loop.simps) simp
  qed
qed

text \<open>\<open>itoa\<close> runs the same loop with pointers.\<close>

lemma itoa_swap_reverse_loop:
  "0 \<le> sint i \<Longrightarrow> 0 \<le> sint j \<Longrightarrow> sint i < int n \<Longrightarrow> sint j < int n \<Longrightarrow> n < 2147483648 \<Longrightarrow>
    unat a + n < 4294967296 \<Longrightarrow> itoa_swap (a + i) (a + j) m = reverse_loop a i j m"
proof (induction a i j m rule: reverse_loop.induct)
  case (1 a i j m)
  have u: "unat (a + i) = unat a + unat i" "unat (a + j) = unat a + unat j"
    using "1.prems" by (simp_all add: unat_of_sint unat_add_nowrap)
  have lt: "a + i < a + j \<longleftrightarrow> sint i < sint j"
    using "1.prems" by (auto simp: word_less_nat_alt u unat_of_sint)
  show ?case
  proof (cases "sint i < sint j")
    case True
    let ?m = "store8 (store8 m (a + i) (load8 m (a + j))) (a + j) (load8 m (a + i))"
    have "itoa_swap (a + (i + 1)) (a + (j - 1)) ?m = reverse_loop a (i + 1) (j - 1) ?m"
      using "1.IH" [OF True refl refl refl] "1.prems" True sint_Suc_below [OF True] sint_pred_above [OF True]
      by simp
    then show ?thesis
      using True lt by (subst itoa_swap.simps, subst reverse_loop.simps) (simp add: add.assoc add_diff_eq)
  next
    case False
    then show ?thesis using lt by (subst itoa_swap.simps, subst reverse_loop.simps) simp
  qed
qed

text \<open>Bytes outside the string stay, the terminator among them.\<close>

lemma reverse_loop_other:
  "0 \<le> sint i \<Longrightarrow> sint i \<le> int n \<Longrightarrow> sint j < int n \<Longrightarrow> n < 2147483648 \<Longrightarrow> \<not> within s n c \<Longrightarrow>
     reverse_loop s i j m c = m c"
proof (induction s i j m rule: reverse_loop.induct)
  case (1 s i j m)
  show ?case
  proof (cases "sint i < sint j")
    case True
    have "within s n (s + i)" "within s n (s + j)"
      using True "1.prems" by (simp_all add: within_def unat_of_sint)
    then have ne: "c \<noteq> s + i" "c \<noteq> s + j" using "1.prems"(5) by auto
    let ?m = "store8 (store8 m (s + i) (load8 m (s + j))) (s + j) (load8 m (s + i))"
    have "reverse_loop s (i + 1) (j - 1) ?m c = ?m c"
      using True "1.IH" [OF True refl refl refl] "1.prems" sint_Suc_below [OF True] sint_pred_above [OF True]
      by simp
    then show ?thesis
      using True ne by (subst reverse_loop.simps) (simp add: store8_other)
  next
    case False
    then show ?thesis by (subst reverse_loop.simps) simp
  qed
qed

lemma reverse_cstr:
  assumes "cstr m s xs"
  shows "\<exists>m'. reverse s m = Some m' \<and> cstr m' s (rev xs)"
proof (cases "xs = []")
  case True
  have "reverse_loop s 0 (- 1) m = m" by (subst reverse_loop.simps) simp
  then show ?thesis using assms True by (simp add: reverse_def strlen_cstr)
next
  case False
  let ?n = "length xs"
  let ?m' = "reverse_loop s 0 (of_nat (?n - 1)) m"
  have n: "0 < ?n" "?n < 2147483647" using assms False by (auto simp: cstr_def)
  have run: "reverse s m = Some ?m'"
    using n(1) by (simp add: reverse_def strlen_cstr [OF assms] of_nat_diff Suc_leI)
  have "bytes ?m' s ?n = rev xs"
    using reverse_loop_reverses [of m s ?n "[]" xs "[]" 0 "of_nat (?n - 1)"] cstr_bytes [OF assms] False n
    by (simp del: of_nat_diff)
  moreover have "load8 ?m' (s + of_nat ?n) = 0"
  proof -
    have "sint (of_nat (?n - 1) :: u32) = int (?n - 1)" by (rule sint_of_nat) (use n in linarith)
    then have "sint (of_nat (?n - 1) :: u32) < int ?n" using n by linarith
    then have "load8 ?m' (s + of_nat ?n) = load8 m (s + of_nat ?n)"
      unfolding load8_def
      by (rule reverse_loop_other [where n = ?n, rotated 2]) (use n not_within_end [of ?n s] in simp_all)
    then show ?thesis using cstr_nth(3) [OF assms] by simp
  qed
  ultimately have "cstr ?m' s (rev xs)" using assms by (intro cstrI) (auto simp: cstr_def)
  then show ?thesis using run by blast
qed

subsection \<open>\<open>itoa\<close> and its inverse\<close>

function rdigits :: "nat \<Rightarrow> nat \<Rightarrow> nat list" where
  "rdigits b n = n mod b # (if b < 2 \<or> n div b = 0 then [] else rdigits b (n div b))"
  by pat_completeness auto
termination
  by (relation "measure snd") (auto intro!: div_less_dividend Nat.gr0I)

declare rdigits.simps [simp del]

definition itoa_text :: "nat \<Rightarrow> nat \<Rightarrow> u8 list" where
  "itoa_text b n = map (\<lambda>r. itoa_digit (of_nat r)) (rev (rdigits b n))"

text \<open>Reading a number back: the usual evaluation of a digit string.\<close>

definition digit_value :: "u8 \<Rightarrow> nat" where
  "digit_value c = (if c < 0x41 then unat c - 0x30 else unat c - 0x37)"

definition parse_number :: "nat \<Rightarrow> u8 list \<Rightarrow> nat" where
  "parse_number b cs = foldl (\<lambda>acc c. acc * b + digit_value c) 0 cs"

lemma digit_value_itoa: "r < 16 \<Longrightarrow> digit_value (itoa_digit (of_nat r)) = r"
  by (auto simp: less_Suc_eq numeral_eq_Suc) (simp_all add: digit_value_def itoa_digit_def)

lemma itoa_digit_nonzero: "r < 16 \<Longrightarrow> itoa_digit (of_nat r) \<noteq> 0"
  by (auto simp: less_Suc_eq numeral_eq_Suc) (simp_all add: itoa_digit_def)

lemma rdigits_bound: "2 \<le> b \<Longrightarrow> r \<in> set (rdigits b n) \<Longrightarrow> r < b"
  by (induction b n rule: rdigits.induct) (subst (asm) (2) rdigits.simps, auto split: if_splits)

lemma itoa_text_printable: "2 \<le> b \<Longrightarrow> b \<le> 16 \<Longrightarrow> 8 \<notin> set (itoa_text b n)"
proof -
  have "itoa_digit (of_nat r) \<noteq> 8" if "r < 16" for r
    using that by (auto simp: less_Suc_eq numeral_eq_Suc) (simp_all add: itoa_digit_def)
  then show "2 \<le> b \<Longrightarrow> b \<le> 16 \<Longrightarrow> 8 \<notin> set (itoa_text b n)"
    using rdigits_bound [of b _ n] by (fastforce simp: itoa_text_def)
qed

lemma rdigits_length: "2 \<le> b \<Longrightarrow> n < b ^ k \<Longrightarrow> 0 < k \<Longrightarrow> length (rdigits b n) \<le> k"
proof (induction b n arbitrary: k rule: rdigits.induct)
  case (1 b n)
  show ?case
  proof (cases "n div b = 0")
    case True
    then show ?thesis using "1.prems" by (subst rdigits.simps) simp
  next
    case False
    then have "k \<noteq> 1" using "1.prems" by (auto simp: div_eq_0_iff)
    then obtain k' where k: "k = Suc k'" "0 < k'" using "1.prems"(3) by (cases k) auto
    then have "n div b < b ^ k'" using "1.prems"(2) by (simp add: less_mult_imp_div_less mult.commute)
    then show ?thesis using "1.IH" [of k'] False "1.prems"(1) k by (subst rdigits.simps) simp
  qed
qed

lemma parse_itoa_text:
  assumes "2 \<le> b" "b \<le> 16"
  shows "parse_number b (itoa_text b n) = n"
  using assms
proof (induction b n rule: rdigits.induct)
  case (1 b n)
  have dv: "digit_value (itoa_digit (of_nat (n mod b))) = n mod b"
    using "1.prems" mod_less_divisor [of b n] by (intro digit_value_itoa) linarith
  show ?case
  proof (cases "n div b = 0")
    case True
    then show ?thesis using dv "1.prems" by (auto simp: itoa_text_def parse_number_def rdigits.simps [of b n] div_eq_0_iff)
  next
    case False
    then have "itoa_text b n = itoa_text b (n div b) @ [itoa_digit (of_nat (n mod b))]"
      using "1.prems" by (simp add: itoa_text_def rdigits.simps [of b n])
    then show ?thesis using "1.IH" False "1.prems" dv by (simp add: parse_number_def)
  qed
qed

lemma itoa_digits_bytes:
  "itoa_digits base d ud p m = (p', m') \<Longrightarrow> b = unat (itoa_divisor base d) \<Longrightarrow>
     ds = map (\<lambda>r. itoa_digit (of_nat r)) (rdigits b (unat ud)) \<Longrightarrow> length ds < 4294967296 \<Longrightarrow>
     p' = p + of_nat (length ds) \<and> bytes m' p (length ds) = ds \<and> (\<forall>c. \<not> within p (length ds) c \<longrightarrow> m' c = m c)"
proof (induction base d ud p m arbitrary: ds rule: itoa_digits.induct)
  case (1 base d ud p m)
  let ?v = "itoa_divisor base d"
  have b: "2 \<le> b" by (simp add: "1.prems"(2) itoa_divisor_cases)
  have dm: "unat (ud div ?v) = unat ud div b" "unat (ud mod ?v) = unat ud mod b"
    by (simp_all add: unat_div_distrib unat_mod_distrib "1.prems"(2))
  have dig: "itoa_digit (of_nat (unat ud mod b)) = itoa_digit (ud mod ?v)"
    by (simp only: dm(2) [symmetric] of_nat_unat ucast_id)
  define m1 where "m1 = store8 m p (itoa_digit (ud mod ?v))"
  show ?case
  proof (cases "ud div ?v = 0")
    case True
    then have "unat ud div b = 0" using dm(1) by simp
    then have ds: "ds = [itoa_digit (ud mod ?v)]" using "1.prems"(3) dig b by (subst (asm) rdigits.simps) simp
    have "p' = p + 1" "m' = m1"
      using "1.prems"(1) True by (simp_all add: itoa_digits.simps [of base d ud] m1_def Let_def)
    then show ?thesis
      by (simp add: ds m1_def bytes_def load8_store8 store8_other [of _ p] within_1 [simplified])
  next
    case False
    let ?ds = "map (\<lambda>r. itoa_digit (of_nat r)) (rdigits b (unat (ud div ?v)))"
    have "unat ud div b \<noteq> 0" using False dm(1) unat_eq_zero [of "ud div ?v"] by simp
    then have ds: "ds = itoa_digit (ud mod ?v) # ?ds"
      using "1.prems"(3) dig b dm(1) by (subst (asm) rdigits.simps) simp
    have "itoa_digits base d (ud div ?v) (p + 1) m1 = (p', m')"
      using "1.prems"(1) False by (simp add: itoa_digits.simps [of base d ud] m1_def Let_def)
    then have ih: "p' = p + 1 + of_nat (length ?ds)" "bytes m' (p + 1) (length ?ds) = ?ds"
      "\<And>c. \<not> within (p + 1) (length ?ds) c \<Longrightarrow> m' c = m1 c"
      using "1.IH" [OF refl refl refl refl refl False _ "1.prems"(2) refl] "1.prems"(4)
      by (simp_all add: m1_def ds)
    have np: "\<not> within (p + 1) (length ?ds) p"
      using "1.prems"(4) ds by (simp add: within_def unsigned_minus_1_eq_mask mask_eq_exp_minus_1)
    have "m' c = m c" if "\<not> within p (length ds) c" for c
      using that ih(3) "1.prems"(4) by (simp add: ds within_Suc m1_def store8_other)
    moreover have "bytes m' p (length ds) = ds"
      using ih(2,3) np by (simp add: ds bytes_Cons) (simp add: load8_def m1_def store8_def)
    ultimately show ?thesis using ih(1) by (simp add: ds)
  qed
qed

lemma itoa_cstr:
  fixes d :: u32
  assumes fit: "unat buf + 11 < 4294967296" and b: "b = (if base = 0x78 then 16 else 10)"
  defines "xs \<equiv> itoa_text b (unat d)"
  shows "cstr (itoa buf base d m) buf xs" "length xs \<le> 10"
    "\<not> within buf (Suc (length xs)) c \<Longrightarrow> itoa buf base d m c = m c"
proof -
  let ?ds = "map (\<lambda>r. itoa_digit (of_nat r)) (rdigits b (unat d))"
  let ?n = "length ?ds"
  obtain p m1 where run: "itoa_digits base d d buf m = (p, m1)" by (metis surj_pair)
  have b2: "2 \<le> b" "b \<le> 16" by (auto simp: b)
  have "unat d < b ^ 10" by (rule less_trans [OF unat_lt_2p32]) (simp add: b)
  then have n: "?n \<le> 10" "0 < ?n"
    using rdigits_length [of b "unat d" 10] b2 by (simp_all add: rdigits.simps [of b])
  then show "length xs \<le> 10" by (simp add: xs_def itoa_text_def)
  have "b = unat (itoa_divisor base d)" by (simp add: b itoa_divisor_cases)
  from itoa_digits_bytes [OF run this refl] n
  have r: "p = buf + of_nat ?n" "bytes m1 buf ?n = ?ds" "\<And>c. \<not> within buf ?n c \<Longrightarrow> m1 c = m c"
    by simp_all
  define m2 where "m2 = store8 m1 p 0"
  let ?m = "reverse_loop buf 0 (of_nat (?n - 1)) m2"
  have s: "sint (of_nat (?n - 1) :: u32) = int (?n - 1)" by (rule sint_of_nat) (use n in linarith)
  have np: "\<not> within buf ?n p" using r(1) n by (simp add: not_within_end)
  have b2m: "bytes m2 buf ?n = ?ds"
    using r(2) np n by (subst bytes_cong [of buf _ m2 m1]) (auto simp: m2_def store8_def)
  have "p - 1 = buf + of_nat (?n - 1)" using r(1) n(2) by (simp add: of_nat_diff Suc_leI)
  then have "itoa buf base d m = itoa_swap (buf + 0) (buf + of_nat (?n - 1)) m2"
    by (simp add: itoa_def run m2_def)
  also have "\<dots> = ?m"
    by (rule itoa_swap_reverse_loop [where n = 10]) (use s n fit in simp_all)
  finally have eq: "itoa buf base d m = ?m" .
  have other: "?m c = m2 c" if "\<not> within buf ?n c" for c
    by (rule reverse_loop_other [where n = ?n]) (use s n that in simp_all)
  have rv: "bytes ?m buf ?n = xs"
    using reverse_loop_reverses [of m2 buf ?n "[]" ?ds "[]" 0 "of_nat (?n - 1)"] b2m n
    by (simp add: xs_def itoa_text_def rev_map)
  have "?m p = 0" using other [OF np] by (simp add: m2_def store8_def)
  moreover have "0 \<notin> set xs"
    using rdigits_bound [OF b2(1), of _ "unat d"] b2(2) itoa_digit_nonzero
    by (fastforce simp: xs_def itoa_text_def)
  ultimately show "cstr (itoa buf base d m) buf xs"
    unfolding eq using rv r(1) n by (intro cstrI) (simp_all add: xs_def itoa_text_def load8_def)
  show "itoa buf base d m c = m c" if "\<not> within buf (Suc (length xs)) c"
  proof -
    have len: "length xs = ?n" by (simp add: xs_def itoa_text_def)
    have "\<not> within buf ?n c" using that within_mono [of buf ?n c "Suc ?n"] by (auto simp: len)
    moreover have "c \<noteq> p" using that n by (auto simp: len r(1) within_def unat_of_nat_small)
    ultimately show ?thesis unfolding eq using other r(3) by (simp add: m2_def store8_def)
  qed
qed

subsection \<open>Editing and comparing\<close>

lemma cstr_length_sint: "cstr m s xs \<Longrightarrow> sint (of_nat (length xs) :: u32) = int (length xs)"
  by (rule sint_of_nat) (simp add: cstr_def)

lemma append_cstr:
  assumes "cstr m s xs" "n \<noteq> 0" "length xs < 2147483646"
  shows "\<exists>m'. append s n m = Some m' \<and> cstr m' s (xs @ [n])"
proof -
  let ?l = "length xs"
  let ?m1 = "store8 m (s + of_nat ?l) n" let ?m' = "store8 ?m1 (s + of_nat (Suc ?l)) 0"
  have run: "append s n m = Some ?m'" by (simp add: append_def strlen_cstr [OF assms(1)] add.commute)
  have b: "bytes ?m1 s (Suc ?l) = xs @ [n]"
    using assms(1,3) by (subst bytes_store8) (simp_all add: cstr_def)
  have "bytes ?m' s (Suc ?l) = xs @ [n]"
    using assms(3) not_within_end [of "Suc ?l" s] b
    by (subst bytes_cong [of s _ ?m' ?m1]) (auto simp: store8_def)
  then have "cstr ?m' s (xs @ [n])"
    using assms by (intro cstrI) (simp_all add: cstr_def load8_store8)
  then show ?thesis using run by blast
qed

lemma backspace_cstr:
  assumes "cstr m s xs" "xs \<noteq> []"
  shows "\<exists>m'. backspace s m = Some m' \<and> cstr m' s (butlast xs)"
proof -
  let ?k = "length xs - 1"
  let ?m' = "store8 m (s + of_nat ?k) 0"
  have len: "length xs = Suc ?k" using assms(2) by simp
  have run: "backspace s m = Some ?m'"
    using assms(2) by (simp add: backspace_def strlen_cstr [OF assms(1)] of_nat_diff Suc_leI)
  have k: "?k < 4294967296" using assms(1) by (auto simp: cstr_def)
  then have "bytes ?m' s ?k = bytes m s ?k"
    using not_within_end [OF k, of s] by (intro bytes_cong) (auto simp: store8_def)
  also have "\<dots> = butlast xs"
    using cstr_bytes [OF assms(1)] take_bytes [of ?k "length xs" m s] by (simp add: butlast_conv_take)
  finally have "cstr ?m' s (butlast xs)"
    using assms by (intro cstrI) (auto simp: cstr_def load8_store8 dest: in_set_butlastD)
  then show ?thesis using run by blast
qed

text \<open>The difference of the first characters that differ, the terminator counting as \<open>0\<close>.\<close>

fun str_diff :: "u8 list \<Rightarrow> u8 list \<Rightarrow> int" where
  "str_diff [] [] = 0"
| "str_diff (x # xs) [] = sint x"
| "str_diff [] (y # ys) = - sint y"
| "str_diff (x # xs) (y # ys) = (if x = y then str_diff xs ys else sint x - sint y)"

lemma str_diff_0: "0 \<notin> set xs \<Longrightarrow> 0 \<notin> set ys \<Longrightarrow> str_diff xs ys = 0 \<longleftrightarrow> xs = ys"
  by (induction xs ys rule: str_diff.induct) (auto simp: signed_eq_0_iff dest: signed_word_eqI)

lemma str_diff_less:
  "\<forall>x \<in> set xs. 0 < sint x \<Longrightarrow> \<forall>y \<in> set ys. 0 < sint y \<Longrightarrow>
     str_diff xs ys < 0 \<longleftrightarrow> (xs, ys) \<in> lexord {(a, b). sint a < sint b}"
  by (induction xs ys rule: str_diff.induct) auto

text \<open>One comparison step, on the suffixes that are left.\<close>

lemma str_diff_drop:
  assumes "cstr m a xs" "cstr m b ys" "i \<le> length xs" "i \<le> length ys"
  shows "load8 m (a + of_nat i) \<noteq> load8 m (b + of_nat i) \<Longrightarrow>
      str_diff (drop i xs) (drop i ys) = sint (load8 m (a + of_nat i)) - sint (load8 m (b + of_nat i))"
    and "load8 m (a + of_nat i) = load8 m (b + of_nat i) \<Longrightarrow> load8 m (a + of_nat i) \<noteq> 0 \<Longrightarrow>
      i < length xs \<and> i < length ys \<and> xs ! i = ys ! i"
    and "load8 m (a + of_nat i) = load8 m (b + of_nat i) \<Longrightarrow> load8 m (a + of_nat i) = 0 \<Longrightarrow>
      i = length xs \<and> i = length ys"
proof -
  note x = cstr_nth(1,2) [OF assms(1), of i] cstr_nth(3) [OF assms(1)]
    and y = cstr_nth(1,2) [OF assms(2), of i] cstr_nth(3) [OF assms(2)]
  have d: "drop i zs = (if i < length zs then zs ! i # drop (Suc i) zs else [])" for zs :: "u8 list"
    by (simp add: Cons_nth_drop_Suc)
  show "str_diff (drop i xs) (drop i ys) = sint (load8 m (a + of_nat i)) - sint (load8 m (b + of_nat i))"
    if "load8 m (a + of_nat i) \<noteq> load8 m (b + of_nat i)"
    using that assms(3,4) x y d [of xs] d [of ys]
    by (cases "i = length xs"; cases "i = length ys") auto
  show "i < length xs \<and> i < length ys \<and> xs ! i = ys ! i"
    if "load8 m (a + of_nat i) = load8 m (b + of_nat i)" "load8 m (a + of_nat i) \<noteq> 0"
    using that assms(3,4) x y by (cases "i = length xs"; cases "i = length ys") auto
  show "i = length xs \<and> i = length ys"
    if "load8 m (a + of_nat i) = load8 m (b + of_nat i)" "load8 m (a + of_nat i) = 0"
    using that assms(3,4) x y by (cases "i = length xs"; cases "i = length ys") auto
qed

lemma str_diff_drop_Suc:
  "i < length xs \<Longrightarrow> i < length ys \<Longrightarrow> xs ! i = ys ! i \<Longrightarrow>
     str_diff (drop i xs) (drop i ys) = str_diff (drop (Suc i) xs) (drop (Suc i) ys)"
  by (simp add: Cons_nth_drop_Suc [symmetric])

lemma strcmp_from_cstr:
  assumes "cstr m a xs" "cstr m b ys"
  shows "i \<le> length xs \<Longrightarrow> i \<le> length ys \<Longrightarrow>
    strcmp_from m a b (of_nat i) = Some (str_diff (drop i xs) (drop i ys))"
proof (induction "length xs - i" arbitrary: i rule: less_induct)
  case less
  note step = str_diff_drop [OF assms less.prems]
  show ?case
  proof (cases "load8 m (a + of_nat i) = load8 m (b + of_nat i) \<and> load8 m (a + of_nat i) \<noteq> 0")
    case True
    note s = step(2) [OF conjunct1 [OF True] conjunct2 [OF True]]
    have "strcmp_from m a b (of_nat (Suc i)) = Some (str_diff (drop (Suc i) xs) (drop (Suc i) ys))"
      using s by (intro less.hyps) auto
    then show ?thesis
      using True s by (subst strcmp_from.simps) (auto simp: str_diff_drop_Suc add.commute)
  next
    case False
    then show ?thesis
      using step(1,3) by (subst strcmp_from.simps) (auto split: if_splits)
  qed
qed

lemma strcmp_cstr: "cstr m a xs \<Longrightarrow> cstr m b ys \<Longrightarrow> strcmp m a b = Some (str_diff xs ys)"
  using strcmp_from_cstr [of m a xs b ys 0] by (simp add: strcmp_def)

lemma strncmp_from_cstr:
  assumes "cstr m a xs" "cstr m b ys" "n < 2147483648"
  shows "i \<le> length xs \<Longrightarrow> i \<le> length ys \<Longrightarrow> i \<le> n \<Longrightarrow>
    strncmp_from m a b (of_nat n) (of_nat i)
      = str_diff (drop i (take (Suc n) xs)) (drop i (take (Suc n) ys))"
proof (induction "length xs - i" arbitrary: i rule: less_induct)
  case less
  let ?xs = "take (Suc n) xs" and ?ys = "take (Suc n) ys"
  note step = str_diff_drop [OF assms(1,2) less.prems(1,2)]
  have lt: "sint (of_nat i :: u32) < sint (of_nat n :: u32) \<longleftrightarrow> i < n"
    using assms(3) less.prems(3) sint_of_nat [of i] sint_of_nat [of n] by simp
  show ?case
  proof (cases "load8 m (a + of_nat i) = load8 m (b + of_nat i) \<and> load8 m (a + of_nat i) \<noteq> 0")
    case True
    note s = step(2) [OF conjunct1 [OF True] conjunct2 [OF True]]
    show ?thesis
    proof (cases "i < n")
      case i: True
      have "strncmp_from m a b (of_nat n) (of_nat (Suc i)) = str_diff (drop (Suc i) ?xs) (drop (Suc i) ?ys)"
        using s i by (intro less.hyps) auto
      moreover have "str_diff (drop i ?xs) (drop i ?ys) = str_diff (drop (Suc i) ?xs) (drop (Suc i) ?ys)"
        using s i by (intro str_diff_drop_Suc) auto
      ultimately show ?thesis
        using True i lt by (subst strncmp_from.simps) (auto simp: add.commute)
    next
      case False
      then have "i = n" using less.prems(3) by simp
      then show ?thesis
        using True s lt by (subst strncmp_from.simps) (simp add: take_Suc_conv_app_nth)
    qed
  next
    case False
    then have run: "strncmp_from m a b (of_nat n) (of_nat i)
        = (sint (load8 m (a + of_nat i)) - sint (load8 m (b + of_nat i)))"
      by (subst strncmp_from.simps) auto
    have d: "drop i (take (Suc n) zs) = (if i < length zs then zs ! i # drop (Suc i) (take (Suc n) zs) else [])"
      for zs :: "u8 list"
      using less.prems(3) by (auto simp: Cons_nth_drop_Suc [symmetric] intro: Cons_nth_drop_Suc [THEN sym, THEN trans])
    note x = cstr_nth(1,2) [OF assms(1), of i] cstr_nth(3) [OF assms(1)]
      and y = cstr_nth(1,2) [OF assms(2), of i] cstr_nth(3) [OF assms(2)]
    show ?thesis
      using run False less.prems(1,2) x y d [of xs] d [of ys]
      by (cases "i = length xs"; cases "i = length ys") auto
  qed
qed

lemma strcmp_zero: "cstr m a xs \<Longrightarrow> cstr m b ys \<Longrightarrow> \<exists>c. strcmp m a b = Some c \<and> (c = 0 \<longleftrightarrow> xs = ys)"
  using strcmp_cstr [of m a xs b ys] str_diff_0 [of xs ys] by (simp add: cstr_def)

text \<open>The copying loop is a byte copy of the characters, without the terminator.\<close>

lemma strcpy_loop_copies:
  assumes "cstr m0 src xs" "apart dst (length xs) src (length xs)"
  shows "i \<le> length xs \<Longrightarrow>
    strcpy_loop dst src (of_nat (length xs)) (of_nat i) (copy_bytes dst src i m0) = copy_bytes dst src (length xs) m0"
proof (induction "length xs - i" arbitrary: i)
  case 0
  then show ?case by (subst strcpy_loop.simps) simp
next
  case (Suc k)
  let ?m = "copy_bytes dst src i m0"
  have len: "length xs < 2147483647" using assms(1) by (simp add: cstr_def)
  have i: "Suc i \<le> length xs" using Suc.hyps(2) by linarith
  have "store8 ?m (dst + of_nat i) (load8 ?m (src + of_nat i)) c = copy_bytes dst src (i + 1) m0 c" for c
    using fun_cong [OF copy_step [OF assms(2), of i 1 m0], of c] i len
    by (cases "c = dst + of_nat i") (simp_all add: store8_def load8_def within_1 [simplified])
  then have step: "store8 ?m (dst + of_nat i) (load8 ?m (src + of_nat i)) = copy_bytes dst src (Suc i) m0"
    by (simp add: fun_eq_iff)
  have "sint (of_nat i :: u32) < sint (of_nat (length xs) :: u32)"
    using i len sint_of_nat [of i] sint_of_nat [of "length xs"] by simp
  moreover have "strcpy_loop dst src (of_nat (length xs)) (of_nat (Suc i)) (copy_bytes dst src (Suc i) m0)
      = copy_bytes dst src (length xs) m0"
    using Suc.hyps(2) i by (intro Suc.hyps(1)) simp_all
  ultimately show ?case by (subst strcpy_loop.simps) (simp add: step add.commute)
qed

lemma strcpy_cstr:
  assumes "cstr m src xs" "apart dst (length xs) src (length xs)"
  shows "strcpy dst src m = Some (dst, copy_bytes dst src (length xs) m)"
  using strcpy_loop_copies [OF assms, of 0] strlen_cstr [OF assms(1)] by (simp add: strcpy_def)

subsection \<open>Properties\<close>

text \<open>C35: \<open>itoa\<close> leaves a string of at most ten digits that reads back as the number, in base 16
  for the letter \<open>'x'\<close> and base 10 for any other letter, and writes nothing behind its
  terminator.\<close>

theorem itoa_roundtrip:
  assumes "unat buf + 11 < 4294967296" and "b = (if base = 0x78 then 16 else 10)"
  shows "\<exists>xs. cstr (itoa buf base d m) buf xs \<and> parse_number b xs = unat d \<and> length xs \<le> 10
    \<and> (\<forall>c. \<not> within buf (Suc (length xs)) c \<longrightarrow> itoa buf base d m c = m c)"
proof -
  let ?xs = "itoa_text b (unat d)"
  have "parse_number b ?xs = unat d" using assms(2) by (auto intro: parse_itoa_text)
  then show ?thesis using itoa_cstr [OF assms, where d = d] by blast
qed

theorem itoa_roundtrip_witness:
  "\<exists>xs. cstr (itoa 0x1000 0x78 0xBEEF (\<lambda>_. 0)) 0x1000 xs \<and> parse_number 16 xs = 0xBEEF"
  using itoa_roundtrip [of "0x1000" 16 "0x78" "0xBEEF" "\<lambda>_. 0"] by auto

text \<open>C36: On two strings \<open>strcmp\<close> returns zero exactly when they are equal, and, when all
  characters are positive as \<open>char\<close>s, a negative number exactly when the first comes before
  the second in the lexicographic order. It always returns.\<close>

theorem strcmp_orders_strings:
  assumes "cstr m a xs" "cstr m b ys"
  shows "\<exists>r. strcmp m a b = Some r \<and> (r = 0 \<longleftrightarrow> xs = ys)
    \<and> ((\<forall>x \<in> set (xs @ ys). 0 < sint x) \<longrightarrow> (r < 0 \<longleftrightarrow> (xs, ys) \<in> lexord {(a, b). sint a < sint b}))"
  using strcmp_cstr [OF assms] assms str_diff_0 [of xs ys] str_diff_less [of xs ys]
  by (auto simp: cstr_def)

lemma two_strings:
  "cstr (put_bytes 0x2000 [0x62, 0] (put_bytes 0x1000 [0x61, 0] m)) 0x1000 [0x61]"
  "cstr (put_bytes 0x2000 [0x62, 0] (put_bytes 0x1000 [0x61, 0] m)) 0x2000 [0x62]"
  using put_bytes_cstr [of "[0x62]" "0x2000" "put_bytes 0x1000 [0x61, 0] m"]
  by (simp_all add: cstr_def bytes_def put_bytes_def load8_def within_def)

theorem strcmp_orders_strings_witness:
  "\<exists>m r. strcmp m 0x1000 0x2000 = Some r \<and> r < 0"
  using strcmp_orders_strings [OF two_strings] by fastforce

text \<open>\<open>strncmp\<close> with bound \<open>n\<close> compares one character more than its bound says: it returns
  what \<open>strcmp\<close> returns on the prefixes of length \<open>n + 1\<close>.\<close>

theorem strncmp_compares_one_more:
  assumes "cstr m a xs" "cstr m b ys" "n < 2147483648"
  shows "strncmp m a b (of_nat n) = str_diff (take (Suc n) xs) (take (Suc n) ys)"
  using strncmp_from_cstr [OF assms, of 0] by (simp add: strncmp_def)

theorem strncmp_compares_one_more_witness:
  "\<exists>m. strncmp m 0x1000 0x2000 0 = - 1"
  using strncmp_compares_one_more [OF two_strings, of 0] by force

text \<open>\<open>reverse\<close>, \<open>append\<close> and \<open>backspace\<close> are reversal, adding a last character and dropping
  it: the first keeps a string in place, the second needs a byte of room behind the terminator,
  the third a string that is not empty.\<close>

theorem string_edits:
  assumes "cstr m s xs" "n \<noteq> 0" "length xs < 2147483646"
  shows "(\<exists>m'. reverse s m = Some m' \<and> cstr m' s (rev xs))
    \<and> (\<exists>m'. append s n m = Some m' \<and> cstr m' s (xs @ [n]))
    \<and> (xs \<noteq> [] \<longrightarrow> (\<exists>m'. backspace s m = Some m' \<and> cstr m' s (butlast xs)))"
  using reverse_cstr [OF assms(1)] append_cstr [OF assms] backspace_cstr [OF assms(1)] by blast

theorem string_edits_witness:
  "\<exists>m m'. reverse 0x1000 m = Some m' \<and> cstr m' 0x1000 [0x63, 0x62, 0x61]"
proof -
  have "cstr (put_bytes 0x1000 ([0x61, 0x62, 0x63] @ [0]) (\<lambda>_. 0)) 0x1000 [0x61, 0x62, 0x63]"
    by (rule put_bytes_cstr) simp_all
  from string_edits [OF this, of 1] show ?thesis by auto
qed

text \<open>\<open>strcpy\<close> into memory apart from the source copies the characters and returns the
  destination, but does not write the terminator.\<close>

theorem strcpy_leaves_no_terminator:
  assumes "cstr m src xs" "apart dst (length xs) src (length xs)"
  shows "\<exists>m'. strcpy dst src m = Some (dst, m') \<and> bytes m' dst (length xs) = xs
    \<and> (\<forall>c. \<not> within dst (length xs) c \<longrightarrow> m' c = m c)"
proof -
  have "bytes (copy_bytes dst src (length xs) m) dst (length xs) = bytes m src (length xs)"
  proof -
    have "length xs \<le> 4294967296" using assms(1) by (simp add: cstr_def)
    then show ?thesis by (simp add: bytes_def copy_bytes_def load8_def within_add_of_nat)
  qed
  then show ?thesis
    using strcpy_cstr [OF assms] cstr_bytes [OF assms(1)] by (simp add: copy_bytes_def)
qed

theorem strcpy_leaves_no_terminator_witness:
  "\<exists>m m'. strcpy 0x3000 0x1000 m = Some (0x3000, m') \<and> bytes m' 0x3000 1 = [0x61] \<and> m' 0x3001 = m 0x3001"
proof -
  have "apart 0x3000 (length [0x61 :: u8]) 0x1000 (length [0x61 :: u8])" "\<not> within 0x3000 1 (0x3001 :: u32)"
    by (simp_all add: apart_def within_def)
  with strcpy_leaves_no_terminator [OF two_strings(1) this(1)] show ?thesis by fastforce
qed

end
