(* ===== verification/Screen.thy ===== *)
theory Screen
  imports Libc_Memory Memory_Strings Port_Io Kernel_Heap "HOL-Library.Signed_Division"
begin

text \<open>
  The text screen of \<open>kernel/drivers/screen.c\<close>: the video memory at \<open>0xB8000\<close>, the cursor in
  the display controller's registers, and the display structure. The function pointers of
  \<open>DISPLAY\<close> are set once by \<open>init_display\<close> to the functions below, so the calls through them
  are those functions. \<open>init_display\<close> takes a block for the structure from \<open>kmalloc\<close>; its contents are the
  record \<open>DISPLAY\<close> and are not in the memory. \<open>int\<close> arithmetic stays far inside 32 bits here and is written over
  integers, with the division that truncates. The second half states the screen as a terminal of
  2000 cells and shows that \<open>put_char\<close> implements it.
\<close>

subsection \<open>The code\<close>

definition VIDEO_ADDRESS :: u32 where "VIDEO_ADDRESS = 0xB8000"
definition MAX_ROWS :: int where "MAX_ROWS = 25"
definition MAX_COLS :: int where "MAX_COLS = 80"
definition REG_SCREEN_CTRL :: u16 where "REG_SCREEN_CTRL = 0x3D4"
definition REG_SCREEN_DATA :: u16 where "REG_SCREEN_DATA = 0x3D5"

record CONSOLE =
  bgColour :: u8
  fgColour :: u8
  current_x :: u16
  current_y :: u16

record DISPLAY =
  width :: u32
  height :: u32
  disp_console :: CONSOLE

record screen =
  curr_display :: DISPLAY
  vmem :: mem
  vio :: ports

text \<open>The macro's value is stored in a byte.\<close>

definition COLOUR :: "u8 \<Rightarrow> u8 \<Rightarrow> u8" where
  "COLOUR fg bg = ucast ((push_bit 8 (ucast fg) OR ucast bg) :: u32)"

definition colour_of :: "screen \<Rightarrow> u8" where
  "colour_of s = COLOUR (fgColour (disp_console (curr_display s))) (bgColour (disp_console (curr_display s)))"

text \<open>Two \<open>uint32_t\<close>, the six bytes of \<open>CONSOLE\<close> and two of padding, four pointers.\<close>

definition sizeof_DISPLAY :: u32 where "sizeof_DISPLAY = 32"

definition initial_display :: DISPLAY where
  "initial_display = \<lparr>width = word_of_int MAX_COLS, height = word_of_int MAX_ROWS,
     disp_console = \<lparr>bgColour = 0xF, fgColour = 0x0, current_x = 0, current_y = 0\<rparr>\<rparr>"

text \<open>The result is the address in \<open>curr_display\<close>, what the structure there holds, and the kernel's state.\<close>

definition init_display :: "nat \<Rightarrow> kstate \<Rightarrow> (u32 \<times> DISPLAY \<times> kstate) option" where
  "init_display fuel s = map_option (\<lambda>(a, s). (a, initial_display, s)) (kmalloc fuel sizeof_DISPLAY s)"

definition get_offset :: "int \<Rightarrow> int \<Rightarrow> int" where
  "get_offset col row = 2 * (row * MAX_COLS + col)"

definition get_offset_row :: "int \<Rightarrow> int" where
  "get_offset_row offset = offset sdiv (2 * MAX_COLS)"

definition get_offset_col :: "int \<Rightarrow> int" where
  "get_offset_col offset = (offset - (get_offset_row offset * 2 * MAX_COLS)) sdiv 2"

definition get_cursor_offset :: "device \<Rightarrow> ports \<Rightarrow> int \<times> ports" where
  "get_cursor_offset dev io =
     (let io = outb REG_SCREEN_CTRL 14 io;
          (high, io) = inb dev REG_SCREEN_DATA io;
          offset = push_bit 8 (uint high);
          io = outb REG_SCREEN_CTRL 15 io;
          (low, io) = inb dev REG_SCREEN_DATA io;
          offset = offset + uint low
      in (offset * 2, io))"

definition set_cursor_offset :: "int \<Rightarrow> screen \<Rightarrow> screen" where
  "set_cursor_offset offset s =
     (let offset = offset sdiv 2;
          d = curr_display s;
          s = s\<lparr>curr_display := d\<lparr>disp_console := (disp_console d)\<lparr>
                 current_x := word_of_int (get_offset_col offset),
                 current_y := word_of_int (get_offset_row offset)\<rparr>\<rparr>\<rparr>;
          io = outb REG_SCREEN_CTRL 14 (vio s);
          io = outb REG_SCREEN_DATA (word_of_int (drop_bit 8 offset)) io;
          io = outb REG_SCREEN_CTRL 15 io;
          io = outb REG_SCREEN_DATA (word_of_int (offset AND 0xff)) io
      in s\<lparr>vio := io\<rparr>)"

definition video_at :: "int \<Rightarrow> u32" where
  "video_at offset = VIDEO_ADDRESS + word_of_int offset"

definition scroll_row :: "nat \<Rightarrow> mem \<Rightarrow> mem" where
  "scroll_row i m = snd (memcpy (video_at (get_offset 0 (int i))) (video_at (get_offset 0 (int i + 1)))
     (word_of_int (MAX_COLS * 2)) m)"

definition scroll_up :: "mem \<Rightarrow> mem" where
  "scroll_up m =
     (let m = fold scroll_row [0..<nat (MAX_ROWS - 1)] m
      in snd (memset (video_at (get_offset 0 (MAX_ROWS - 1))) 0 (word_of_int (MAX_COLS * 2)) m))"

definition put_char :: "device \<Rightarrow> u8 \<Rightarrow> screen \<Rightarrow> int \<times> screen" where
  "put_char dev ch s =
     (let (cursor, io) = get_cursor_offset dev (vio s);
          s = s\<lparr>vio := io\<rparr>;
          row = get_offset_row cursor;
          col = get_offset_col cursor;
          (cursor, s) =
            (if ch = 0x0A then (get_offset 0 (row + 1), s)
             else if ch = 0x0D then (get_offset 0 row, s)
             else if ch = 0x09 then (get_offset (col + 4) row, s)
             else if ch = 0x08 then
               (let cursor = cursor - 2
                in (cursor, s\<lparr>vmem := store8 (store8 (vmem s) (video_at cursor) 0x20)
                     (video_at (cursor + 1)) (colour_of s)\<rparr>))
             else
               (cursor + 2, s\<lparr>vmem := store8 (store8 (vmem s) (video_at cursor) ch)
                  (video_at (cursor + 1)) (colour_of s)\<rparr>));
          (cursor, s) =
            (if cursor \<ge> MAX_ROWS * MAX_COLS * 2
             then (cursor - 2 * MAX_COLS, s\<lparr>vmem := scroll_up (vmem s)\<rparr>) else (cursor, s))
      in (cursor, set_cursor_offset cursor s))"

definition put_backspace :: "device \<Rightarrow> screen \<Rightarrow> screen" where
  "put_backspace dev s = snd (put_char dev 0x08 s)"

text \<open>\<open>put_string\<close> reads the string from the same memory; its result counts the terminator.\<close>

partial_function (option) put_string_from :: "device \<Rightarrow> u32 \<Rightarrow> int \<Rightarrow> screen \<Rightarrow> (int \<times> screen) option" where
  "put_string_from dev str i s =
     (let c = load8 (vmem s) (str + word_of_int i); i = i + 1
      in if c \<noteq> 0 then put_string_from dev str i (snd (put_char dev c s)) else Some (i, s))"

definition put_string :: "device \<Rightarrow> u32 \<Rightarrow> screen \<Rightarrow> (int \<times> screen) option" where
  "put_string dev str s = put_string_from dev str 0 s"

definition clear_cell :: "u8 \<Rightarrow> nat \<Rightarrow> mem \<Rightarrow> mem" where
  "clear_cell colour i m = store8 (store8 m (video_at (int i * 2 + 0)) 0x20) (video_at (int i * 2 + 1)) colour"

definition clear_screen :: "screen \<Rightarrow> screen" where
  "clear_screen s =
     (let screen_size = MAX_COLS * MAX_ROWS;
          s = s\<lparr>vmem := fold (clear_cell (colour_of s)) [0..<nat screen_size] (vmem s)\<rparr>
      in set_cursor_offset (get_offset 0 0) s)"

definition clrscr :: "screen \<Rightarrow> screen" where
  "clrscr s = clear_screen s"

definition printf_backspace :: "device \<Rightarrow> screen \<Rightarrow> screen" where
  "printf_backspace dev s = put_backspace dev s"

subsection \<open>The cursor registers\<close>

text \<open>
  The display controller keeps what is written to its registers 14 and 15 and gives it back:
  the documented behaviour of the device, stated on the accesses. \<open>vga\<close> is a device that
  behaves so.
\<close>

record crtc =
  crtc_index :: u8
  crtc_high :: u8
  crtc_low :: u8

fun crtc_event :: "port_event \<Rightarrow> crtc \<Rightarrow> crtc" where
  "crtc_event (Out8 port v) c =
     (if port = 0x3D4 then c\<lparr>crtc_index := v\<rparr>
      else if port = 0x3D5 then
        (if crtc_index c = 14 then c\<lparr>crtc_high := v\<rparr>
         else if crtc_index c = 15 then c\<lparr>crtc_low := v\<rparr> else c)
      else c)"
| "crtc_event _ c = c"

definition crtc_after :: "ports \<Rightarrow> crtc" where
  "crtc_after io = fold crtc_event io \<lparr>crtc_index = 0, crtc_high = 0, crtc_low = 0\<rparr>"

definition vga_device :: "device \<Rightarrow> bool" where
  "vga_device dev \<longleftrightarrow> (\<forall>io. let c = crtc_after io in
     (crtc_index c = 14 \<longrightarrow> dev io 0x3D5 = ucast (crtc_high c))
     \<and> (crtc_index c = 15 \<longrightarrow> dev io 0x3D5 = ucast (crtc_low c)))"

definition vga :: device where
  "vga io port = (let c = crtc_after io in ucast (if crtc_index c = 14 then crtc_high c else crtc_low c))"

lemma vga_is_vga: "vga_device vga"
  by (simp add: vga_device_def vga_def Let_def)

text \<open>The cell the cursor is on.\<close>

definition hw_cursor :: "ports \<Rightarrow> nat" where
  "hw_cursor io = 256 * unat (crtc_high (crtc_after io)) + unat (crtc_low (crtc_after io))"

lemma crtc_after_step [simp]:
  "crtc_after (outb port v io) = crtc_event (Out8 port v) (crtc_after io)"
  "crtc_after (io @ [In8 port w]) = crtc_after io"
  by (simp_all add: crtc_after_def outb_def)

lemma get_cursor_offset_hw:
  assumes "vga_device dev"
  shows "\<exists>io'. get_cursor_offset dev io = (2 * int (hw_cursor io), io')
    \<and> crtc_high (crtc_after io') = crtc_high (crtc_after io) \<and> crtc_low (crtc_after io') = crtc_low (crtc_after io)"
proof -
  define io1 where "io1 = outb REG_SCREEN_CTRL 14 io"
  have h: "dev io1 0x3D5 = ucast (crtc_high (crtc_after io))"
    using assms by (simp add: vga_device_def Let_def io1_def REG_SCREEN_CTRL_def)
  define io2 where "io2 = outb REG_SCREEN_CTRL 15 (io1 @ [In8 REG_SCREEN_DATA (crtc_high (crtc_after io))])"
  have l: "dev io2 0x3D5 = ucast (crtc_low (crtc_after io))"
    using assms by (simp add: vga_device_def Let_def io2_def io1_def REG_SCREEN_CTRL_def)
  have uc: "ucast (ucast (v :: u8) :: u32) = v" for v by (rule bit_word_eqI) (auto simp: bit_simps)
  have "get_cursor_offset dev io = (2 * int (hw_cursor io), io2 @ [In8 REG_SCREEN_DATA (crtc_low (crtc_after io))])"
    using h l unfolding io2_def
    by (simp add: get_cursor_offset_def inb_def Let_def io1_def [symmetric]
        REG_SCREEN_DATA_def uc hw_cursor_def push_bit_eq_mult)
  then show ?thesis by (simp add: io2_def io1_def REG_SCREEN_CTRL_def)
qed

lemma set_cursor_offset_hw:
  assumes "0 \<le> offset" "offset < 131072"
  shows "hw_cursor (vio (set_cursor_offset offset s)) = nat (offset div 2)"
    "vmem (set_cursor_offset offset s) = vmem s"
    "colour_of (set_cursor_offset offset s) = colour_of s"
proof -
  define k where "k = nat (offset div 2)"
  have k: "offset sdiv 2 = int k" "k < 65536"
    using assms by (simp_all add: k_def signed_divide_int_def sgn_if)
  have high: "unat (word_of_int (drop_bit 8 (int k)) :: u8) = k div 256"
  proof -
    have "drop_bit 8 (int k) = int (k div 256)" by (simp add: drop_bit_eq_div zdiv_int)
    then have "(word_of_int (drop_bit 8 (int k)) :: u8) = of_nat (k div 256)" by simp
    then show ?thesis using k(2) by (simp add: unat_of_nat)
  qed
  have low: "unat (word_of_int (int k AND 0xff) :: u8) = k mod 256"
  proof -
    have "int k AND 0xff = int (k mod 256)"
      using take_bit_eq_mask [of 8 "int k"] by (simp add: mask_eq_exp_minus_1 take_bit_eq_mod zmod_int)
    then have "(word_of_int (int k AND 0xff) :: u8) = of_nat (k mod 256)" by simp
    then show ?thesis by (simp add: unat_of_nat)
  qed
  show "hw_cursor (vio (set_cursor_offset offset s)) = nat (offset div 2)"
    by (simp add: set_cursor_offset_def Let_def hw_cursor_def REG_SCREEN_CTRL_def REG_SCREEN_DATA_def k(1)
        high low flip: k_def)
qed (simp_all add: set_cursor_offset_def Let_def colour_of_def)

subsection \<open>The terminal\<close>

text \<open>The screen as a list of 2000 cells, each a character and its attribute.\<close>

type_synonym cell = "u8 \<times> u8"

definition cells :: "mem \<Rightarrow> cell list" where
  "cells m = map (\<lambda>k. (m (video_at (2 * int k)), m (video_at (2 * int k + 1)))) [0..<2000]"

definition off_screen :: "u32 \<Rightarrow> bool" where
  "off_screen a \<longleftrightarrow> \<not> within VIDEO_ADDRESS 4000 a"

text \<open>What one character does to the cells and to the position.\<close>

definition terminal_put :: "u8 \<Rightarrow> u8 \<Rightarrow> cell list \<times> nat \<Rightarrow> cell list \<times> nat" where
  "terminal_put attr ch = (\<lambda>(cs, p).
     let (cs, p) = (if ch = 0x0A then (cs, 80 * (p div 80 + 1))
                    else if ch = 0x0D then (cs, 80 * (p div 80))
                    else if ch = 0x09 then (cs, p + 4)
                    else if ch = 0x08 then (cs[p - 1 := (0x20, attr)], p - 1)
                    else (cs[p := (ch, attr)], p + 1))
     in if 2000 \<le> p then (drop 80 cs @ replicate 80 (0, 0), p - 80) else (cs, p))"

definition terminal :: "screen \<Rightarrow> cell list \<times> nat" where
  "terminal s = (cells (vmem s), hw_cursor (vio s))"

lemma length_cells [simp]: "length (cells m) = 2000"
  by (simp add: cells_def)

lemma video_at_nat: "video_at (int k) = VIDEO_ADDRESS + of_nat k"
  by (simp add: video_at_def)

lemma video_at_inject: "j < 4294967296 \<Longrightarrow> k < 4294967296 \<Longrightarrow> video_at (int j) = video_at (int k) \<longleftrightarrow> j = k"
  unfolding video_at_nat by (rule word_add_of_nat_inject)

lemma video_at_cell: "video_at (2 * int k) = VIDEO_ADDRESS + of_nat (2 * k)"
  "video_at (2 * int k + 1) = VIDEO_ADDRESS + of_nat (2 * k + 1)"
  using video_at_nat [of "2 * k"] video_at_nat [of "2 * k + 1"] by (simp_all add: ac_simps)

lemma cells_nth: "k < 2000 \<Longrightarrow>
    cells m ! k = (m (VIDEO_ADDRESS + of_nat (2 * k)), m (VIDEO_ADDRESS + of_nat (2 * k + 1)))"
  unfolding cells_def by (subst nth_map) (simp_all only: length_upt nth_upt video_at_cell, simp_all)

lemma cells_eqI:
  assumes "length cs = 2000"
    and "\<And>k. k < 2000 \<Longrightarrow> cs ! k = (m (VIDEO_ADDRESS + of_nat (2 * k)), m (VIDEO_ADDRESS + of_nat (2 * k + 1)))"
  shows "cells m = cs"
proof (rule nth_equalityI)
  fix k assume "k < length (cells m)"
  then show "cells m ! k = cs ! k" using cells_nth [of k m] assms(2) [of k] by (simp only: length_cells)
qed (simp add: assms(1))

definition put_cell :: "nat \<Rightarrow> u8 \<Rightarrow> u8 \<Rightarrow> mem \<Rightarrow> mem" where
  "put_cell p ch attr m = store8 (store8 m (video_at (2 * int p)) ch) (video_at (2 * int p + 1)) attr"

lemma put_cell_byte:
  assumes "p < 2000" "k < 4000"
  shows "put_cell p ch attr m (VIDEO_ADDRESS + of_nat k)
    = (if k = 2 * p then ch else if k = 2 * p + 1 then attr else m (VIDEO_ADDRESS + of_nat k))"
proof -
  have "(VIDEO_ADDRESS + of_nat k = VIDEO_ADDRESS + of_nat j) = (k = j)" if "j < 4000" for j
    using assms that by (intro word_add_of_nat_inject) simp_all
  moreover have "2 * p < 4000" "2 * p + 1 < 4000" using assms(1) by simp_all
  ultimately have "(VIDEO_ADDRESS + of_nat k = VIDEO_ADDRESS + of_nat (2 * p)) = (k = 2 * p)"
    "(VIDEO_ADDRESS + of_nat k = VIDEO_ADDRESS + of_nat (2 * p + 1)) = (k = 2 * p + 1)"
    by blast+
  then show ?thesis
    unfolding put_cell_def video_at_cell store8_def fun_upd_def by (simp only: split: if_split) simp
qed

lemma cells_put:
  assumes "p < 2000"
  shows "cells (put_cell p ch attr m) = (cells m)[p := (ch, attr)]"
proof (rule cells_eqI)
  fix k assume k: "k < (2000::nat)"
  have "2 * k \<noteq> 2 * p + 1" "2 * k + 1 \<noteq> 2 * p" by presburger+
  then show "(cells m)[p := (ch, attr)] ! k = (put_cell p ch attr m (VIDEO_ADDRESS + of_nat (2 * k)),
      put_cell p ch attr m (VIDEO_ADDRESS + of_nat (2 * k + 1)))"
    using k put_cell_byte [OF assms, of "2 * k"] put_cell_byte [OF assms, of "2 * k + 1"] cells_nth [OF k, of m]
    by (simp add: nth_list_update)
qed simp

lemma put_cell_off_screen: "p < 2000 \<Longrightarrow> off_screen a \<Longrightarrow> put_cell p ch attr m a = m a"
  using within_add_of_nat [of "2 * p" 4000 VIDEO_ADDRESS] within_add_of_nat [of "2 * p + 1" 4000 VIDEO_ADDRESS]
  unfolding put_cell_def off_screen_def video_at_cell by (auto simp: store8_def)

subsection \<open>Scrolling\<close>

lemma row_address: "video_at (get_offset 0 (int i)) = VIDEO_ADDRESS + of_nat (160 * i)"
  using video_at_nat [of "160 * i"] by (simp add: get_offset_def MAX_COLS_def)

lemma scroll_rows:
  "j \<le> 24 \<Longrightarrow> fold scroll_row [0..<j] m
     = (\<lambda>a. if within VIDEO_ADDRESS (160 * j) a then m (a + 160) else m a)"
proof (induction j)
  case (Suc j)
  let ?m = "fold scroll_row [0..<j] m" and ?d = "VIDEO_ADDRESS + of_nat (160 * j) :: u32"
  have ud: "unat ?d = 0xB8000 + 160 * j"
    using Suc.prems by (subst unat_add_of_nat) (simp_all add: VIDEO_ADDRESS_def)
  have s: "video_at (get_offset 0 (int j + 1)) = ?d + 160"
    using row_address [of "Suc j"] by (simp add: algebra_simps)
  have ap: "apart ?d 160 (?d + 160) 160" by (simp add: apart_same_base) (simp add: apart_def)
  have "fold scroll_row [0..<Suc j] m = copy_bytes ?d (?d + 160) 160 ?m"
    using memcpy_copies [of ?d 160 "?d + 160" ?m] ap
    by (simp add: scroll_row_def row_address s MAX_COLS_def)
  moreover have "copy_bytes ?d (?d + 160) 160 ?m a
      = (if within VIDEO_ADDRESS (160 * Suc j) a then m (a + 160) else m a)" for a
  proof -
    have sp: "within VIDEO_ADDRESS (160 * Suc j) a \<longleftrightarrow> within VIDEO_ADDRESS (160 * j) a \<or> within ?d 160 a"
      using within_split [of "160 * j" 160 VIDEO_ADDRESS a] Suc.prems by (simp add: add.commute)
    have "\<not> within VIDEO_ADDRESS (160 * j) (a + 160) \<and> \<not> within VIDEO_ADDRESS (160 * j) a" if w: "within ?d 160 a"
    proof -
      have b: "unat a < unat ?d + 160" "unat ?d \<le> unat a"
        using w ud Suc.prems by (simp_all add: within_nat)
      then have "unat (a + 160) = unat a + 160" using ud Suc.prems by (intro unat_add_numeral_nowrap) simp
      then show ?thesis using b ud Suc.prems by (simp add: within_nat VIDEO_ADDRESS_def)
    qed
    then show ?thesis using sp Suc by (auto simp: copy_bytes_def algebra_simps)
  qed
  ultimately show ?case by (simp add: fun_eq_iff)
qed simp

lemma scroll_up_bytes:
  "scroll_up m = (\<lambda>a. if within VIDEO_ADDRESS 3840 a then m (a + 160)
     else if within VIDEO_ADDRESS 4000 a then 0 else m a)"
proof
  fix a
  have "video_at (get_offset 0 (MAX_ROWS - 1)) = VIDEO_ADDRESS + of_nat 3840"
    using row_address [of 24] by (simp add: MAX_ROWS_def)
  then have "scroll_up m = fill_bytes (VIDEO_ADDRESS + 3840) 160 0 (fold scroll_row [0..<24] m)"
    by (simp add: scroll_up_def memset_zero_fills MAX_COLS_def MAX_ROWS_def)
  then show "scroll_up m a = (if within VIDEO_ADDRESS 3840 a then m (a + 160)
     else if within VIDEO_ADDRESS 4000 a then 0 else m a)"
    using within_split [of 3840 160 VIDEO_ADDRESS a] apart_within [of VIDEO_ADDRESS 3840 "VIDEO_ADDRESS + 3840" 160 a]
    by (auto simp: scroll_rows fill_bytes_def apart_same_base apart_def)
qed

lemma cells_scroll: "cells (scroll_up m) = drop 80 (cells m) @ replicate 80 (0, 0)"
proof (rule cells_eqI)
  fix k assume k: "k < (2000::nat)"
  have w: "within VIDEO_ADDRESS n (VIDEO_ADDRESS + of_nat j) \<longleftrightarrow> j < n" if "j < 4000" for n j
    using that by (simp add: within_def unat_of_nat_small)
  show "(drop 80 (cells m) @ replicate 80 (0, 0)) ! k
    = (scroll_up m (VIDEO_ADDRESS + of_nat (2 * k)), scroll_up m (VIDEO_ADDRESS + of_nat (2 * k + 1)))"
  proof (cases "k < 1920")
    case True
    have "cells m ! (80 + k) = (m (VIDEO_ADDRESS + of_nat (2 * k) + 160), m (VIDEO_ADDRESS + of_nat (2 * k + 1) + 160))"
      using True by (subst cells_nth) (simp_all add: algebra_simps)
    then show ?thesis
      unfolding scroll_up_bytes using True w [of "2 * k"] w [of "2 * k + 1"] by (simp add: nth_append)
  next
    case False
    then show ?thesis
      unfolding scroll_up_bytes using k w [of "2 * k"] w [of "2 * k + 1"] by (simp add: nth_append)
  qed
qed simp

lemma scroll_up_off_screen: "off_screen a \<Longrightarrow> scroll_up m a = m a"
  using within_mono [of VIDEO_ADDRESS 3840 a 4000] by (auto simp: scroll_up_bytes off_screen_def)

subsection \<open>\<open>put_char\<close> is the terminal\<close>

lemma offset_division:
  "get_offset_row (2 * int p) = int (p div 80)" "get_offset_col (2 * int p) = int (p mod 80)"
proof -
  have r: "(2 * int p) sdiv 160 = int (p div 80)"
    by (simp add: signed_divide_int_def sgn_if zdiv_int)
  then show "get_offset_row (2 * int p) = int (p div 80)" by (simp add: get_offset_row_def MAX_COLS_def)
  have "2 * int p - int (p div 80) * 2 * 80 = 2 * int (p mod 80)"
    using mult_div_mod_eq [of 80 p] by linarith
  then show "get_offset_col (2 * int p) = int (p mod 80)"
    using r by (simp add: get_offset_col_def get_offset_row_def MAX_COLS_def signed_divide_int_def sgn_if)
qed

lemma put_char_terminal:
  assumes vga: "vga_device dev" and pos: "hw_cursor (vio s) < 2000"
    and bs: "ch = 0x08 \<Longrightarrow> 0 < hw_cursor (vio s)"
  shows "terminal (snd (put_char dev ch s)) = terminal_put (colour_of s) ch (terminal s)"
    and "hw_cursor (vio (snd (put_char dev ch s))) < 2000"
    and "off_screen a \<Longrightarrow> vmem (snd (put_char dev ch s)) a = vmem s a"
    and "colour_of (snd (put_char dev ch s)) = colour_of s"
proof -
  define p where "p = hw_cursor (vio s)"
  obtain io' where cur: "get_cursor_offset dev (vio s) = (2 * int p, io')"
    using get_cursor_offset_hw [OF vga, of "vio s"] by (auto simp: p_def)
  have p: "p < 2000" "ch = 8 \<Longrightarrow> 0 < p" using pos bs by (simp_all add: p_def)
  let ?a = "colour_of s"
  define q where "q = (if ch = 0x0A then 80 * (p div 80 + 1) else if ch = 0x0D then 80 * (p div 80)
     else if ch = 0x09 then p + 4 else if ch = 0x08 then p - 1 else p + 1)"
  define m where "m = (if ch \<in> {0x0A, 0x0D, 0x09} then vmem s
     else if ch = 0x08 then put_cell (p - 1) 0x20 ?a (vmem s) else put_cell p ch ?a (vmem s))"
  define r where "r = (if 2000 \<le> q then q - 80 else q)"
  define m' where "m' = (if 2000 \<le> q then scroll_up m else m)"
  have q: "q < 2080" using p by (auto simp: q_def)
  have r: "r < 2000" using q by (auto simp: r_def)
  have "80 * int (p div 80) + int (p mod 80) = int p"
    by (metis mult_div_mod_eq of_nat_add of_nat_mult of_nat_numeral)
  then have tab: "160 * int (p div 80) + 2 * int (p mod 80) = 2 * int p" by linarith
  have col: "colour_of (s\<lparr>vio := io'\<rparr>) = ?a" by (simp add: colour_of_def)
  have c8: "2 * int p - 2 = 2 * int (p - 1)" if "ch = 8" using p(2) that by linarith
  let ?s = "s\<lparr>vio := io'\<rparr>"
  have body: "(if ch = 0x0A then (get_offset 0 (int (p div 80) + 1), ?s)
      else if ch = 0x0D then (get_offset 0 (int (p div 80)), ?s)
      else if ch = 0x09 then (get_offset (int (p mod 80) + 4) (int (p div 80)), ?s)
      else if ch = 0x08 then (2 * int p - 2, ?s\<lparr>vmem :=
           store8 (store8 (vmem ?s) (video_at (2 * int p - 2)) 0x20) (video_at (2 * int p - 2 + 1)) (colour_of ?s)\<rparr>)
      else (2 * int p + 2, ?s\<lparr>vmem :=
           store8 (store8 (vmem ?s) (video_at (2 * int p)) ch) (video_at (2 * int p + 1)) (colour_of ?s)\<rparr>))
    = (2 * int q, ?s\<lparr>vmem := m\<rparr>)"
    using c8 by (simp add: q_def m_def get_offset_def MAX_COLS_def tab put_cell_def col)
  have "put_char dev ch s = (2 * int r, set_cursor_offset (2 * int r) (s\<lparr>vio := io', vmem := m'\<rparr>))"
    unfolding put_char_def cur Let_def prod.case offset_division body
    by (simp add: r_def m'_def MAX_ROWS_def MAX_COLS_def)
  then have run: "snd (put_char dev ch s) = set_cursor_offset (2 * int r) (s\<lparr>vio := io', vmem := m'\<rparr>)" by simp
  have hw: "hw_cursor (vio (snd (put_char dev ch s))) = r"
    unfolding run using r by (subst set_cursor_offset_hw) simp_all
  then show "hw_cursor (vio (snd (put_char dev ch s))) < 2000" using r by simp
  have vm: "vmem (snd (put_char dev ch s)) = m'" unfolding run using r by (simp add: set_cursor_offset_hw)
  show "colour_of (snd (put_char dev ch s)) = colour_of s"
    unfolding run using r by (simp add: set_cursor_offset_hw) (simp add: colour_of_def)
  have "cells m = (if ch \<in> {0x0A, 0x0D, 0x09} then cells (vmem s)
     else if ch = 0x08 then (cells (vmem s))[p - 1 := (0x20, ?a)] else (cells (vmem s))[p := (ch, ?a)])"
    using p by (simp add: m_def cells_put)
  then show "terminal (snd (put_char dev ch s)) = terminal_put ?a ch (terminal s)"
    by (simp add: terminal_def hw vm terminal_put_def m'_def r_def q_def p_def [symmetric] cells_scroll)
  show "vmem (snd (put_char dev ch s)) a = vmem s a" if "off_screen a"
    unfolding vm using that p by (simp add: m'_def m_def scroll_up_off_screen put_cell_off_screen)
qed

lemma clear_cells:
  "j \<le> 2000 \<Longrightarrow> k < 4000 \<Longrightarrow> fold (clear_cell col) [0..<j] m (VIDEO_ADDRESS + of_nat k)
     = (if k < 2 * j then (if even k then 0x20 else col) else m (VIDEO_ADDRESS + of_nat k))"
proof (induction j)
  case (Suc j)
  have "clear_cell col j = put_cell j 0x20 col"
    by (simp add: clear_cell_def put_cell_def fun_eq_iff mult.commute)
  then have "fold (clear_cell col) [0..<Suc j] m (VIDEO_ADDRESS + of_nat k)
     = (if k = 2 * j then 0x20 else if k = 2 * j + 1 then col else fold (clear_cell col) [0..<j] m (VIDEO_ADDRESS + of_nat k))"
    using Suc.prems put_cell_byte [of j k "0x20" col "fold (clear_cell col) [0..<j] m"] by simp
  then show ?case using Suc by auto
qed simp

lemma clear_screen_terminal:
  "terminal (clear_screen s) = (replicate 2000 (0x20, colour_of s), 0)"
proof -
  have "cells (fold (clear_cell (colour_of s)) [0..<2000] (vmem s)) = replicate 2000 (0x20, colour_of s)"
    by (rule cells_eqI) (simp, subst clear_cells, simp_all add: clear_cells del: of_nat_mult of_nat_add)
  then show ?thesis
    by (simp add: terminal_def clear_screen_def Let_def MAX_COLS_def MAX_ROWS_def get_offset_def set_cursor_offset_hw)
qed

lemma put_string_from_terminal:
  assumes vga: "vga_device dev" and str: "length xs < 2147483647" "8 \<notin> set xs"
    and off: "\<And>i. i \<le> length xs \<Longrightarrow> off_screen (str + of_nat i)"
  shows "k \<le> length xs \<Longrightarrow> cstr (vmem s) str xs \<Longrightarrow> hw_cursor (vio s) < 2000 \<Longrightarrow>
    \<exists>s'. put_string_from dev str (int k) s = Some (int (length xs) + 1, s')
      \<and> terminal s' = fold (terminal_put (colour_of s)) (drop k xs) (terminal s)
      \<and> hw_cursor (vio s') < 2000"
proof (induction "length xs - k" arbitrary: k s)
  case 0
  then have "load8 (vmem s) (str + word_of_int (int k)) = 0" using cstr_nth(3) [of "vmem s" str xs] by simp
  then show ?case using 0 by (subst put_string_from.simps) (simp add: Let_def)
next
  case (Suc d)
  then have k: "k < length xs" by simp
  let ?c = "xs ! k" let ?s = "snd (put_char dev ?c s)"
  have c: "load8 (vmem s) (str + word_of_int (int k)) = ?c" "?c \<noteq> 0"
    using cstr_nth(1,2) [OF Suc.prems(2) k] by simp_all
  have "?c \<noteq> 8" using str(2) k by (metis nth_mem)
  then have step: "terminal ?s = terminal_put (colour_of s) ?c (terminal s)" "hw_cursor (vio ?s) < 2000"
    "colour_of ?s = colour_of s" "\<And>a. off_screen a \<Longrightarrow> vmem ?s a = vmem s a"
    using put_char_terminal [OF vga Suc.prems(3), of ?c] by blast+
  have "bytes (vmem ?s) str (Suc (length xs)) = bytes (vmem s) str (Suc (length xs))"
    using step(4) off by (simp add: bytes_def load8_def del: upt_Suc)
  then have "cstr (vmem ?s) str xs" using Suc.prems(2) by (simp add: cstr_def)
  note ih = Suc.hyps(1) [OF _ _ this step(2), of "Suc k"]
  have "d = length xs - Suc k" "Suc k \<le> length xs" using Suc.hyps(2) k by simp_all
  then have "\<exists>s'. put_string_from dev str (int (Suc k)) ?s = Some (int (length xs) + 1, s')
    \<and> terminal s' = fold (terminal_put (colour_of ?s)) (drop (Suc k) xs) (terminal ?s) \<and> hw_cursor (vio s') < 2000"
    by (rule ih)
  then obtain s' where s': "put_string_from dev str (int (Suc k)) ?s = Some (int (length xs) + 1, s')"
    "terminal s' = fold (terminal_put (colour_of ?s)) (drop (Suc k) xs) (terminal ?s)" "hw_cursor (vio s') < 2000"
    by blast
  have "put_string_from dev str (int k) s = put_string_from dev str (int (Suc k)) ?s"
    using c by (subst put_string_from.simps) (simp add: Let_def add.commute)
  then show ?case
    using s' step(1,3) by (simp add: Cons_nth_drop_Suc [OF k, symmetric])
qed

subsection \<open>Properties\<close>

text \<open>The cursor the display controller was given is the cursor read back: after
  \<open>set_cursor_offset\<close> of an even offset below \<open>2 ^ 17\<close>, \<open>get_cursor_offset\<close> returns it.\<close>

theorem cursor_roundtrip:
  assumes "vga_device dev" "even offset" "0 \<le> offset" "offset < 131072"
  shows "fst (get_cursor_offset dev (vio (set_cursor_offset offset s))) = offset"
proof -
  obtain io' where "get_cursor_offset dev (vio (set_cursor_offset offset s))
      = (2 * int (hw_cursor (vio (set_cursor_offset offset s))), io')"
    using get_cursor_offset_hw [OF assms(1)] by blast
  then show ?thesis using assms by (simp add: set_cursor_offset_hw)
qed

definition blank_screen :: screen where
  "blank_screen = \<lparr>curr_display = initial_display, vmem = (\<lambda>_. 0), vio = []\<rparr>"

theorem cursor_roundtrip_witness:
  "fst (get_cursor_offset vga (vio (set_cursor_offset 3998 blank_screen))) = 3998"
  using cursor_roundtrip [OF vga_is_vga, of 3998 blank_screen] by simp

text \<open>C5: \<open>put_char\<close> implements the terminal of 2000 cells: with the cursor on the screen, and not
  a backspace in the first cell, it puts the character, moves for newline, return and tab,
  erases for backspace, and scrolls when it leaves the last row; the cursor stays on the
  screen and no byte outside the video memory changes.\<close>

theorem put_char_refines_terminal:
  assumes "vga_device dev" "hw_cursor (vio s) < 2000" "ch = 0x08 \<Longrightarrow> 0 < hw_cursor (vio s)"
  shows "terminal (snd (put_char dev ch s)) = terminal_put (colour_of s) ch (terminal s)
    \<and> hw_cursor (vio (snd (put_char dev ch s))) < 2000
    \<and> (\<forall>a. off_screen a \<longrightarrow> vmem (snd (put_char dev ch s)) a = vmem s a)"
  using put_char_terminal [OF assms] by blast

lemma blank_cursor: "hw_cursor (vio blank_screen) = 0"
  by (simp add: blank_screen_def initial_display_def hw_cursor_def crtc_after_def)

theorem put_char_refines_terminal_witness:
  "snd (terminal (snd (put_char vga 0x41 blank_screen))) = 1
   \<and> fst (terminal (snd (put_char vga 0x41 blank_screen))) ! 0 = (0x41, 0x0F)"
  using put_char_refines_terminal [OF vga_is_vga, of blank_screen "0x41"]
  by (simp add: blank_cursor terminal_def terminal_put_def)
    (simp add: blank_screen_def initial_display_def colour_of_def COLOUR_def)

text \<open>\<open>put_string\<close> of a string that lies outside the video memory and has no backspace puts
  its characters one after the other, returns the length plus one, and always returns.\<close>

theorem put_string_prints:
  assumes "vga_device dev" "hw_cursor (vio s) < 2000" "cstr (vmem s) str xs" "0x08 \<notin> set xs"
    and "\<And>i. i \<le> length xs \<Longrightarrow> off_screen (str + of_nat i)"
  shows "\<exists>s'. put_string dev str s = Some (int (length xs) + 1, s')
    \<and> terminal s' = fold (terminal_put (colour_of s)) xs (terminal s)"
proof -
  have "length xs < 2147483647" using assms(3) by (simp add: cstr_def)
  from put_string_from_terminal [OF assms(1) this assms(4,5), of 0 s] assms(2,3)
  show ?thesis by (auto simp: put_string_def)
qed

theorem put_string_prints_witness:
  "\<exists>s s'. put_string vga 0x1000 s = Some (3, s') \<and> snd (terminal s') = 2"
proof -
  let ?s = "blank_screen\<lparr>vmem := put_bytes 0x1000 ([0x48, 0x69] @ [0]) (\<lambda>_. 0)\<rparr>"
  have c: "cstr (vmem ?s) 0x1000 [0x48, 0x69]"
    using put_bytes_cstr [of "[0x48, 0x69]" "0x1000"] by simp
  have h: "hw_cursor (vio ?s) < 2000" using blank_cursor by simp
  have off: "off_screen (0x1000 + of_nat i)" if "i \<le> length [0x48 :: u8, 0x69]" for i
    using that by (auto simp: le_Suc_eq off_screen_def within_def VIDEO_ADDRESS_def)
  obtain s' where "put_string vga 0x1000 ?s = Some (3, s')"
    "terminal s' = fold (terminal_put (colour_of ?s)) [0x48, 0x69] (terminal ?s)"
    using put_string_prints [OF vga_is_vga h c _ off] by auto
  then show ?thesis
    by (intro exI [of _ ?s] exI [of _ s']) (simp add: terminal_def terminal_put_def blank_cursor)
qed

text \<open>\<open>clear_screen\<close> leaves 2000 blanks in the display's colour and the cursor in the first
  cell.\<close>

theorem clear_screen_blanks:
  "terminal (clear_screen s) = (replicate 2000 (0x20, colour_of s), 0)"
  by (rule clear_screen_terminal)

end
