(* ===== verification/Libc_Stdio.thy ===== *)
theory Libc_Stdio
  imports Libc_String Screen
begin

text \<open>
  \<open>printf\<close> of \<open>kernel/libc/stdio.c\<close>. It reads its format and its arguments from memory (the
  argument words follow the format pointer on the stack), writes numbers into a local buffer
  with \<open>itoa\<close>, and hands each character to the display's \<open>putc\<close>, a function pointer and so an
  argument here; \<open>screen_putc\<close> is the one the kernel installs. The loops run to terminating
  zeros, so they are partial. The lemmas give the text that \<open>printf\<close> produces for every format
  built from plain characters and the conversions it knows.
\<close>

subsection \<open>The code\<close>

type_synonym 'o putc = "u8 \<Rightarrow> mem \<times> 'o \<Rightarrow> mem \<times> 'o"

text \<open>\<open>for (p2 = p; *p2; p2++)\<close>, the padding loop and the printing loop.\<close>

partial_function (option) string_end :: "mem \<Rightarrow> u32 \<Rightarrow> u32 option" where
  "string_end m p2 = (if load8 m p2 \<noteq> 0 then string_end m (p2 + 1) else Some p2)"

function emit_pad :: "'o putc \<Rightarrow> u8 \<Rightarrow> u32 \<Rightarrow> u32 \<Rightarrow> mem \<times> 'o \<Rightarrow> mem \<times> 'o" where
  "emit_pad putc c p2 limit st =
     (if p2 < limit then emit_pad putc c (p2 + 1) limit (putc c st) else st)"
  by pat_completeness auto
termination
  by (relation "measure (\<lambda>(putc, c, p2, limit, st). 4294967296 - unat p2)") (auto intro: counter_decreases)

declare emit_pad.simps [simp del]

partial_function (option) emit_string :: "'o putc \<Rightarrow> u32 \<Rightarrow> mem \<times> 'o \<Rightarrow> (mem \<times> 'o) option" where
  "emit_string putc p st =
     (if load8 (fst st) p \<noteq> 0 then emit_string putc (p + 1) (putc (load8 (fst st) p) st) else Some st)"

definition print_padded :: "'o putc \<Rightarrow> bool \<Rightarrow> u32 \<Rightarrow> u32 \<Rightarrow> mem \<times> 'o \<Rightarrow> (mem \<times> 'o) option" where
  "print_padded putc pad0 pad p st =
     Option.bind (string_end (fst st) p) (\<lambda>p2.
       emit_string putc p (emit_pad putc (if pad0 then 0x30 else 0x20) p2 (p + pad) st))"

text \<open>
  The letters are \<open>X\<close>, \<open>x\<close>, \<open>d\<close>, \<open>u\<close> (\<open>0x58\<close>, \<open>0x78\<close>, \<open>0x64\<close>, \<open>0x75\<close>) and \<open>s\<close> (\<open>0x73\<close>); \<open>buf\<close> is the
  local array and \<open>null_text\<close> the literal printed for a null string.
\<close>

partial_function (option) printf_loop :: "'o putc \<Rightarrow> u32 \<Rightarrow> u32 \<Rightarrow> u32 \<Rightarrow> u32 \<Rightarrow> mem \<times> 'o \<Rightarrow> (mem \<times> 'o) option" where
  "printf_loop putc buf null_text format arg st =
     (let c = load8 (fst st) format; format = format + 1
      in if c \<noteq> 0 then
           (if c \<noteq> 0x25 then printf_loop putc buf null_text format arg (putc c st)
            else
              (let c = load8 (fst st) format; format = format + 1;
                   (pad0, c, format) =
                     (if c = 0x30 then (True, load8 (fst st) format, format + 1) else (False, c, format));
                   (pad, c, format) =
                     (if 0x30 \<le> c \<and> c \<le> 0x39 then (ucast (c - 0x30), load8 (fst st) format, format + 1)
                      else (0, c, format))
               in if c = 0x58 \<or> c = 0x78 \<or> c = 0x64 \<or> c = 0x75 then
                    Option.bind (print_padded putc pad0 pad buf
                        (itoa buf (ucast c) (load32 (fst st) arg) (fst st), snd st))
                      (\<lambda>st. printf_loop putc buf null_text format (arg + 4) st)
                  else if c = 0x73 then
                    (let p = load32 (fst st) arg; p = (if p = 0 then null_text else p)
                     in Option.bind (print_padded putc pad0 pad p st)
                          (\<lambda>st. printf_loop putc buf null_text format (arg + 4) st))
                  else printf_loop putc buf null_text format (arg + 4)
                         (putc (ucast (load32 (fst st) arg)) st)))
         else Some st)"

text \<open>\<open>slot\<close> is \<open>&format\<close>; the arguments start behind it.\<close>

definition printf :: "'o putc \<Rightarrow> u32 \<Rightarrow> u32 \<Rightarrow> u32 \<Rightarrow> mem \<times> 'o \<Rightarrow> (mem \<times> 'o) option" where
  "printf putc buf null_text slot st =
     printf_loop putc buf null_text (load32 (fst st) slot) (slot + 4) st"

text \<open>The \<open>putc\<close> of the kernel's display.\<close>

definition screen_putc :: "device \<Rightarrow> (DISPLAY \<times> ports) putc" where
  "screen_putc dev c = (\<lambda>(m, d, io).
     let s = snd (put_char dev c \<lparr>curr_display = d, vmem = m, vio = io\<rparr>)
     in (vmem s, curr_display s, vio s))"

subsection \<open>Formats and the text they stand for\<close>

datatype directive =
    Plain u8
  | Number bool nat u8
  | Text bool nat

fun well_formed :: "directive \<Rightarrow> bool" where
  "well_formed (Plain c) = (c \<noteq> 0 \<and> c \<noteq> 0x25)"
| "well_formed (Number z w l) = (w \<le> 9 \<and> l \<in> {0x58, 0x78, 0x64, 0x75})"
| "well_formed (Text z w) = (w \<le> 9)"

definition flag_chars :: "bool \<Rightarrow> nat \<Rightarrow> u8 list" where
  "flag_chars z w = (if z then [0x30] else []) @ (if w = 0 then [] else [0x30 + of_nat w])"

fun format_chars :: "directive \<Rightarrow> u8 list" where
  "format_chars (Plain c) = [c]"
| "format_chars (Number z w l) = 0x25 # flag_chars z w @ [l]"
| "format_chars (Text z w) = 0x25 # flag_chars z w @ [0x73]"

definition padded :: "bool \<Rightarrow> nat \<Rightarrow> u8 list \<Rightarrow> u8 list" where
  "padded z w xs = replicate (w - length xs) (if z then 0x30 else 0x20) @ xs"

text \<open>\<open>str_at\<close> gives the string at an address.\<close>

fun render :: "(u32 \<Rightarrow> u8 list) \<Rightarrow> directive list \<Rightarrow> u32 list \<Rightarrow> u8 list" where
  "render str_at (Plain c # ds) vs = c # render str_at ds vs"
| "render str_at (Number z w l # ds) (v # vs) =
     padded z w (itoa_text (if l = 0x78 then 16 else 10) (unat v)) @ render str_at ds vs"
| "render str_at (Text z w # ds) (v # vs) = padded z w (str_at v) @ render str_at ds vs"
| "render str_at ds vs = []"

text \<open>
  What has to be in memory: the argument words one behind the other, and a string for each
  text conversion (\<open>null_text\<close> for a null pointer), all in \<open>safe\<close> bytes.
\<close>

fun args_at :: "(u32 \<Rightarrow> bool) \<Rightarrow> mem \<Rightarrow> u32 \<Rightarrow> u32 list \<Rightarrow> bool" where
  "args_at safe m arg [] = True"
| "args_at safe m arg (v # vs) =
     (load32 m arg = v \<and> (\<forall>a. within arg 4 a \<longrightarrow> safe a) \<and> args_at safe m (arg + 4) vs)"

definition text_at :: "(u32 \<Rightarrow> bool) \<Rightarrow> mem \<Rightarrow> u32 \<Rightarrow> u8 list \<Rightarrow> bool" where
  "text_at safe m p xs \<longleftrightarrow> cstr m p xs \<and> 8 \<notin> set xs \<and> unat p + length xs + 9 < 4294967296
     \<and> (\<forall>i \<le> length xs. safe (p + of_nat i))"

fun texts_at :: "(u32 \<Rightarrow> bool) \<Rightarrow> mem \<Rightarrow> u32 \<Rightarrow> (u32 \<Rightarrow> u8 list) \<Rightarrow> directive list \<Rightarrow> u32 list \<Rightarrow> bool" where
  "texts_at safe m nt str_at (Plain c # ds) vs = (c \<noteq> 8 \<and> texts_at safe m nt str_at ds vs)"
| "texts_at safe m nt str_at (Number z w l # ds) (v # vs) = texts_at safe m nt str_at ds vs"
| "texts_at safe m nt str_at (Text z w # ds) (v # vs) =
     (text_at safe m (if v = 0 then nt else v) (str_at v) \<and> texts_at safe m nt str_at ds vs)"
| "texts_at safe m nt str_at [] [] = True"
| "texts_at safe m nt str_at _ _ = False"

lemma string_end_cstr: "cstr m p xs \<Longrightarrow> string_end m p = Some (p + of_nat (length xs))"
proof (induction xs arbitrary: p)
  case Nil
  then show ?case by (subst string_end.simps) (simp add: cstr_Nil)
next
  case (Cons x xs)
  then show ?case by (subst string_end.simps) (simp add: cstr_Cons add.assoc)
qed

lemma text_at_frame:
  assumes "\<And>a. safe a \<Longrightarrow> m' a = m a" "text_at safe m p xs"
  shows "text_at safe m' p xs"
proof -
  have "cstr m' p xs"
    by (rule cstr_frame [of m]) (use assms in \<open>auto simp: text_at_def\<close>)
  then show ?thesis using assms(2) by (simp add: text_at_def)
qed

lemma args_at_frame:
  assumes "\<And>a. safe a \<Longrightarrow> m' a = m a"
  shows "args_at safe m arg vs \<Longrightarrow> args_at safe m' arg vs"
proof (induction vs arbitrary: arg)
  case (Cons v vs)
  then have "load32 m' arg = load32 m arg" by (intro load32_cong) (simp add: assms)
  then show ?case using Cons by simp
qed simp

lemma texts_at_frame:
  assumes "\<And>a. safe a \<Longrightarrow> m' a = m a"
  shows "texts_at safe m nt str_at ds vs \<Longrightarrow> texts_at safe m' nt str_at ds vs"
proof (induction ds arbitrary: vs)
  case Nil
  then show ?case by (cases vs) simp_all
next
  case (Cons d ds)
  then show ?case
    by (cases d; cases vs) (simp_all add: text_at_frame [of safe m' m, OF assms])
qed

text \<open>How the code reads a conversion: the flag, the width, the letter.\<close>

lemma width_char:
  assumes "w \<le> 9"
  shows "0x30 \<le> (0x30 + of_nat w :: u8)" "0x30 + of_nat w \<le> (0x39 :: u8)"
    "w \<noteq> 0 \<Longrightarrow> 0x30 + of_nat w \<noteq> (0x30 :: u8)" "ucast (of_nat w :: u8) = (of_nat w :: u32)"
proof -
  have "w \<in> {0, 1, 2, 3, 4, 5, 6, 7, 8, 9}" using assms by auto
  then show "0x30 \<le> (0x30 + of_nat w :: u8)" "0x30 + of_nat w \<le> (0x39 :: u8)"
    "w \<noteq> 0 \<Longrightarrow> 0x30 + of_nat w \<noteq> (0x30 :: u8)" "ucast (of_nat w :: u8) = (of_nat w :: u32)"
    by auto
qed

lemma printf_loop_conversion:
  assumes "load8 (fst st) f = 0x25" "cstr (fst st) (f + 1) (flag_chars z w @ l # rest)" "w \<le> 9"
    and "l < 0x30 \<or> 0x39 < l"
  shows "printf_loop putc buf nt f arg st =
     (let g = f + of_nat (length (flag_chars z w) + 2)
      in if l \<in> {0x58, 0x78, 0x64, 0x75} then
           Option.bind (print_padded putc z (of_nat w) buf (itoa buf (ucast l) (load32 (fst st) arg) (fst st), snd st))
             (\<lambda>st. printf_loop putc buf nt g (arg + 4) st)
         else if l = 0x73 then
           (let p = load32 (fst st) arg; p = (if p = 0 then nt else p)
            in Option.bind (print_padded putc z (of_nat w) p st) (\<lambda>st. printf_loop putc buf nt g (arg + 4) st))
         else printf_loop putc buf nt g (arg + 4) (putc (ucast (load32 (fst st) arg)) st))"
proof -
  have l: "l \<noteq> 0x30" "(0x30 \<le> l \<and> l \<le> 0x39) = False" using assms(4) by auto
  note parse = assms(1) l width_char [OF assms(3)]
  show ?thesis
  proof (cases z; cases "w = 0")
    assume "z" "w = 0"
    then have "load8 (fst st) (f + 1) = 0x30" "load8 (fst st) (f + 2) = l"
      using assms(2) by (simp_all add: flag_chars_def cstr_Cons add.commute)
    with parse \<open>z\<close> \<open>w = 0\<close> show ?thesis
      by (subst printf_loop.simps) (simp only: Let_def flag_chars_def if_True if_False prod.case simp_thms append.simps add.assoc list.size one_add_one, simp)
  next
    assume "z" "w \<noteq> 0"
    then have "load8 (fst st) (f + 1) = 0x30" "load8 (fst st) (f + 2) = 0x30 + of_nat w" "load8 (fst st) (f + 3) = l"
      using assms(2) by (simp_all add: flag_chars_def cstr_Cons add.commute)
    with parse \<open>z\<close> \<open>w \<noteq> 0\<close> show ?thesis
      by (subst printf_loop.simps) (simp only: Let_def flag_chars_def if_True if_False prod.case simp_thms append.simps add.assoc list.size one_add_one, simp)
  next
    assume "\<not> z" "w = 0"
    then have "load8 (fst st) (f + 1) = l"
      using assms(2) by (simp_all add: flag_chars_def cstr_Cons add.commute)
    with parse \<open>\<not> z\<close> \<open>w = 0\<close> show ?thesis
      by (subst printf_loop.simps) (simp only: Let_def flag_chars_def if_True if_False prod.case simp_thms append.simps add.assoc list.size one_add_one, simp)
  next
    assume "\<not> z" "w \<noteq> 0"
    then have "load8 (fst st) (f + 1) = 0x30 + of_nat w" "load8 (fst st) (f + 2) = l"
      using assms(2) by (simp_all add: flag_chars_def cstr_Cons add.commute)
    with parse \<open>\<not> z\<close> \<open>w \<noteq> 0\<close> show ?thesis
      by (subst printf_loop.simps) (simp only: Let_def flag_chars_def if_True if_False prod.case simp_thms append.simps add.assoc list.size one_add_one, simp)
  qed
qed

subsection \<open>What a \<open>putc\<close> promises\<close>

text \<open>
  The interface between \<open>printf\<close> and a display: \<open>view\<close> is what the display shows, \<open>put\<close> what a
  character does to it, \<open>ready\<close> the display's invariant and \<open>owned\<close> the bytes of memory the
  display keeps its state in. Backspace is left out: nothing promises what it does at the first
  cell.
\<close>

locale character_sink =
  fixes putc :: "u8 \<Rightarrow> mem \<times> 'o \<Rightarrow> mem \<times> 'o" and ready :: "'o \<Rightarrow> bool"
    and view :: "mem \<Rightarrow> 'o \<Rightarrow> 't" and put :: "u8 \<Rightarrow> 't \<Rightarrow> 't" and owned :: "u32 \<Rightarrow> bool"
  assumes putc_ready: "ready out \<Longrightarrow> c \<noteq> 8 \<Longrightarrow> ready (snd (putc c (m, out)))"
    and putc_view: "ready out \<Longrightarrow> c \<noteq> 8 \<Longrightarrow>
      view (fst (putc c (m, out))) (snd (putc c (m, out))) = put c (view m out)"
    and putc_frame: "ready out \<Longrightarrow> c \<noteq> 8 \<Longrightarrow> \<not> owned a \<Longrightarrow> fst (putc c (m, out)) a = m a"
    and view_owned: "(\<And>a. owned a \<Longrightarrow> m' a = m a) \<Longrightarrow> view m' out = view m out"
begin

text \<open>\<open>printed st xs st'\<close>: from \<open>st\<close> to \<open>st'\<close> the text \<open>xs\<close> was put and nothing else changed.\<close>

definition printed :: "mem \<times> 'o \<Rightarrow> u8 list \<Rightarrow> mem \<times> 'o \<Rightarrow> bool" where
  "printed st xs st' \<longleftrightarrow> ready (snd st') \<and> view (fst st') (snd st') = fold put xs (view (fst st) (snd st))
     \<and> (\<forall>a. \<not> owned a \<longrightarrow> fst st' a = fst st a)"

lemma printed_Nil: "ready (snd st) \<Longrightarrow> printed st [] st"
  by (simp add: printed_def)

lemma printed_putc: "ready (snd st) \<Longrightarrow> c \<noteq> 8 \<Longrightarrow> printed st [c] (putc c st)"
  using putc_ready [of "snd st" c "fst st"] putc_view [of "snd st" c "fst st"] putc_frame [of "snd st" c _ "fst st"]
  by (simp add: printed_def)

lemma printed_trans: "printed st xs st' \<Longrightarrow> printed st' ys st'' \<Longrightarrow> printed st (xs @ ys) st''"
  by (auto simp: printed_def)

lemma printed_Cons: "printed (putc c st) ys st'' \<Longrightarrow> ready (snd st) \<Longrightarrow> c \<noteq> 8 \<Longrightarrow> printed st (c # ys) st''"
  using printed_trans [OF printed_putc [of st c]] by simp

lemma printed_ready: "printed st xs st' \<Longrightarrow> ready (snd st')"
  by (simp add: printed_def)

lemma printed_frame: "printed st xs st' \<Longrightarrow> \<not> owned a \<Longrightarrow> fst st' a = fst st a"
  by (simp add: printed_def)

lemma emit_pad_printed:
  "ready (snd st) \<Longrightarrow> c \<noteq> 8 \<Longrightarrow>
     printed st (replicate (unat limit - unat p2) c) (emit_pad putc c p2 limit st)"
proof (induction "unat limit - unat p2" arbitrary: p2 st)
  case 0
  then show ?case by (subst emit_pad.simps) (simp add: word_less_nat_alt printed_Nil)
next
  case (Suc d)
  then have lt: "p2 < limit" by (simp add: word_less_nat_alt)
  have "unat limit - unat (p2 + 1) = d" using Suc.hyps(2) lt by (simp add: unat_Suc_below)
  then have "printed (putc c st) (replicate d c) (emit_pad putc c (p2 + 1) limit (putc c st))"
    using Suc.hyps(1) [of "p2 + 1" "putc c st"] printed_ready [OF printed_putc] Suc.prems by simp
  then show ?case
    using Suc.prems lt by (subst emit_pad.simps) (simp add: Suc.hyps(2) [symmetric] printed_Cons)
qed

lemma emit_string_printed:
  "cstr (fst st) p xs \<Longrightarrow> 8 \<notin> set xs \<Longrightarrow> (\<And>i. i \<le> length xs \<Longrightarrow> \<not> owned (p + of_nat i)) \<Longrightarrow> ready (snd st) \<Longrightarrow>
     \<exists>st'. emit_string putc p st = Some st' \<and> printed st xs st'"
proof (induction xs arbitrary: p st)
  case Nil
  then show ?case by (subst emit_string.simps) (simp add: cstr_Nil printed_Nil)
next
  case (Cons x xs)
  have x: "load8 (fst st) p = x" "x \<noteq> 0" "cstr (fst st) (p + 1) xs" "x \<noteq> 8"
    using Cons.prems by (auto simp: cstr_Cons)
  have o: "\<not> owned (p + 1 + of_nat i)" if "i \<le> length xs" for i
    using Cons.prems(3) [of "Suc i"] that by (simp add: add.assoc)
  have "cstr (fst (putc x st)) (p + 1) xs"
    by (rule cstr_frame [OF x(3)]) (simp add: o printed_frame [OF printed_putc] Cons.prems x)
  then obtain st' where "emit_string putc (p + 1) (putc x st) = Some st'" "printed (putc x st) xs st'"
    using Cons.IH [of "putc x st" "p + 1"] o Cons.prems printed_ready [OF printed_putc] x by auto
  then show ?case
    using x Cons.prems by (subst emit_string.simps) (simp add: printed_Cons)
qed

lemma print_padded_printed:
  assumes "cstr (fst st) p xs" "8 \<notin> set xs" "\<And>i. i \<le> length xs \<Longrightarrow> \<not> owned (p + of_nat i)" "ready (snd st)"
    and "w \<le> 9" "unat p + length xs + 9 < 4294967296"
  shows "\<exists>st'. print_padded putc z (of_nat w) p st = Some st' \<and> printed st (padded z w xs) st'"
proof -
  let ?c = "if z then 0x30 else 0x20"
  let ?st = "emit_pad putc ?c (p + of_nat (length xs)) (p + of_nat w) st"
  have "unat (p + of_nat w) - unat (p + of_nat (length xs)) = w - length xs"
    using assms(5,6) by (simp add: unat_add_of_nat)
  then have pad: "printed st (replicate (w - length xs) ?c) ?st"
    using emit_pad_printed [OF assms(4), of ?c "p + of_nat w" "p + of_nat (length xs)"] by simp
  have "cstr (fst ?st) p xs"
    by (rule cstr_frame [OF assms(1)]) (simp add: assms(3) printed_frame [OF pad])
  from emit_string_printed [OF this assms(2,3) printed_ready [OF pad]]
  obtain st' where "emit_string putc p ?st = Some st'" "printed ?st xs st'" by blast
  then show ?thesis
    using printed_trans [OF pad] by (simp add: print_padded_def string_end_cstr [OF assms(1)] padded_def)
qed

text \<open>The same where \<open>printf\<close> has used its buffer: only the bytes in \<open>safe\<close> are kept.\<close>

definition shown :: "(u32 \<Rightarrow> bool) \<Rightarrow> mem \<times> 'o \<Rightarrow> u8 list \<Rightarrow> mem \<times> 'o \<Rightarrow> bool" where
  "shown safe st xs st' \<longleftrightarrow> ready (snd st') \<and> view (fst st') (snd st') = fold put xs (view (fst st) (snd st))
     \<and> (\<forall>a. safe a \<longrightarrow> fst st' a = fst st a)"

lemma shown_printed: "printed st xs st' \<Longrightarrow> (\<And>a. safe a \<Longrightarrow> \<not> owned a) \<Longrightarrow> shown safe st xs st'"
  by (simp add: shown_def printed_def)

lemma shown_trans: "shown safe st xs st' \<Longrightarrow> shown safe st' ys st'' \<Longrightarrow> shown safe st (xs @ ys) st''"
  by (auto simp: shown_def)

lemma number_shown:
  assumes "ready (snd st)" "w \<le> 9" "unat buf + 20 < 4294967296" "\<And>a. within buf 11 a \<Longrightarrow> \<not> owned a"
    and safe: "\<And>a. safe a \<Longrightarrow> \<not> owned a \<and> \<not> within buf 11 a" and b: "b = (if base = 0x78 then 16 else 10)"
  shows "\<exists>st'. print_padded putc z (of_nat w) buf (itoa buf base v (fst st), snd st) = Some st'
    \<and> shown safe st (padded z w (itoa_text b (unat v))) st'"
proof -
  let ?m = "itoa buf base v (fst st)" and ?xs = "itoa_text b (unat v)"
  have fit: "unat buf + 11 < 4294967296" using assms(3) by simp
  have c: "cstr ?m buf ?xs" and len: "length ?xs \<le> 10"
    and other: "\<not> within buf (Suc (length ?xs)) a \<Longrightarrow> ?m a = fst st a" for a
    using itoa_cstr [OF fit b] by blast+
  have other11: "?m a = fst st a" if "\<not> within buf 11 a" for a
    using that len by (intro other) (auto dest: within_mono [of buf _ a 11])
  have "8 \<notin> set ?xs" using b by (intro itoa_text_printable) auto
  moreover have "\<not> owned (buf + of_nat i)" if "i \<le> length ?xs" for i
    using that len by (intro assms(4) within_add_of_nat) simp_all
  ultimately obtain st' where st': "print_padded putc z (of_nat w) buf (?m, snd st) = Some st'"
    "printed (?m, snd st) (padded z w ?xs) st'"
    using print_padded_printed [of "(?m, snd st)" buf ?xs w z] c assms(1,2,3) len by auto
  have "view ?m (snd st) = view (fst st) (snd st)"
    by (rule view_owned) (use assms(4) other11 in blast)
  then have "shown safe st (padded z w ?xs) st'"
    using st'(2) safe other11 by (simp add: shown_def printed_def)
  then show ?thesis using st'(1) by blast
qed

lemma shown_ready: "shown safe st xs st' \<Longrightarrow> ready (snd st')"
  by (simp add: shown_def)

text \<open>One directive: the loop goes on behind it with the rest of the arguments.\<close>

lemma printf_step_shown:
  assumes buf: "unat buf + 20 < 4294967296" "\<And>a. within buf 11 a \<Longrightarrow> \<not> owned a"
    and safe: "\<And>a. safe a \<Longrightarrow> \<not> owned a \<and> \<not> within buf 11 a"
    and wf: "well_formed d" and fmt: "cstr (fst st) f (format_chars d @ rest)" and args: "args_at safe (fst st) arg vs"
    and texts: "texts_at safe (fst st) nt str_at (d # ds) vs" and rdy: "ready (snd st)"
  obtains st1 arg' ws xs where
    "printf_loop putc buf nt f arg st = printf_loop putc buf nt (f + of_nat (length (format_chars d))) arg' st1"
    "shown safe st xs st1" "args_at safe (fst st) arg' ws" "texts_at safe (fst st) nt str_at ds ws"
    "render str_at (d # ds) vs = xs @ render str_at ds ws"
proof (cases d)
  case (Plain c)
  then have c: "load8 (fst st) f = c" "c \<noteq> 0" "c \<noteq> 0x25" "c \<noteq> 8" "texts_at safe (fst st) nt str_at ds vs"
    using fmt wf texts by (auto simp: cstr_Cons)
  have "shown safe st [c] (putc c st)" by (rule shown_printed [OF printed_putc]) (use rdy c safe in auto)
  moreover have "printf_loop putc buf nt f arg st = printf_loop putc buf nt (f + of_nat (length (format_chars d))) arg (putc c st)"
    using c by (subst printf_loop.simps) (simp add: Plain Let_def)
  ultimately show thesis using that [of arg "putc c st" "[c]" vs] args c(5) by (simp add: Plain)
next
  case (Number z w l)
  then obtain v ws where vs: "vs = v # ws" using texts by (cases vs) auto
  have l: "l \<in> {0x58, 0x78, 0x64, 0x75}" "w \<le> 9" "l < 0x30 \<or> 0x39 < l" using wf Number by auto
  have f: "load8 (fst st) f = 0x25" "cstr (fst st) (f + 1) (flag_chars z w @ l # rest)"
    using fmt by (simp_all add: Number cstr_Cons)
  have v: "load32 (fst st) arg = v" using args vs by simp
  have b: "(if l = 0x78 then 16 else 10) = (if (ucast l :: u32) = 0x78 then 16 else 10 :: nat)" using l(1) by auto
  obtain st1 where st1: "print_padded putc z (of_nat w) buf (itoa buf (ucast l) v (fst st), snd st) = Some st1"
    "shown safe st (padded z w (itoa_text (if l = 0x78 then 16 else 10) (unat v))) st1"
    using number_shown [OF rdy l(2) buf safe b] by blast
  have "length (flag_chars z w) + 2 = length (format_chars d)" by (simp add: Number)
  then have "printf_loop putc buf nt f arg st = printf_loop putc buf nt (f + of_nat (length (format_chars d))) (arg + 4) st1"
    using printf_loop_conversion [OF f l(2,3), of putc buf nt arg] l(1) st1(1) by (simp add: v Let_def)
  then show thesis by (rule that [OF _ st1(2), of _ ws]) (use args texts in \<open>simp_all add: Number vs\<close>)
next
  case (Text z w)
  then obtain v ws where vs: "vs = v # ws" using texts by (cases vs) auto
  have w: "w \<le> 9" using wf Text by simp
  have f: "load8 (fst st) f = 0x25" "cstr (fst st) (f + 1) (flag_chars z w @ 0x73 # rest)"
    using fmt by (simp_all add: Text cstr_Cons)
  have v: "load32 (fst st) arg = v" using args vs by simp
  let ?p = "if v = 0 then nt else v"
  have "text_at safe (fst st) ?p (str_at v)" using texts by (simp add: Text vs)
  then obtain st1 where st1: "print_padded putc z (of_nat w) ?p st = Some st1" "printed st (padded z w (str_at v)) st1"
    using print_padded_printed [OF _ _ _ rdy w, of ?p "str_at v" z] safe by (auto simp: text_at_def)
  have sh: "shown safe st (padded z w (str_at v)) st1" using shown_printed [OF st1(2)] safe by blast
  have "length (flag_chars z w) + 2 = length (format_chars d)" by (simp add: Text)
  then have "printf_loop putc buf nt f arg st = printf_loop putc buf nt (f + of_nat (length (format_chars d))) (arg + 4) st1"
    using printf_loop_conversion [OF f w, of putc buf nt arg] st1(1) by (simp add: v Let_def)
  then show thesis by (rule that [OF _ sh, of _ ws]) (use args texts in \<open>simp_all add: Text vs\<close>)
qed

lemma printf_loop_shown:
  assumes buf: "unat buf + 20 < 4294967296" "\<And>a. within buf 11 a \<Longrightarrow> \<not> owned a"
    and safe: "\<And>a. safe a \<Longrightarrow> \<not> owned a \<and> \<not> within buf 11 a"
  shows "\<forall>d\<in>set ds. well_formed d \<Longrightarrow> cstr (fst st) f (concat (map format_chars ds)) \<Longrightarrow>
     (\<And>i. i \<le> length (concat (map format_chars ds)) \<Longrightarrow> safe (f + of_nat i)) \<Longrightarrow>
     args_at safe (fst st) arg vs \<Longrightarrow> texts_at safe (fst st) nt str_at ds vs \<Longrightarrow> ready (snd st) \<Longrightarrow>
     \<exists>st'. printf_loop putc buf nt f arg st = Some st' \<and> shown safe st (render str_at ds vs) st'"
proof (induction ds arbitrary: f arg vs st)
  case Nil
  then show ?case by (subst printf_loop.simps) (simp add: cstr_Nil Let_def shown_def)
next
  case (Cons d ds)
  let ?rest = "concat (map format_chars ds)" let ?f = "f + of_nat (length (format_chars d))"
  have wf: "well_formed d" "\<forall>d\<in>set ds. well_formed d" using Cons.prems(1) by simp_all
  have fmt: "cstr (fst st) f (format_chars d @ ?rest)" using Cons.prems(2) by simp
  obtain st1 arg' ws xs where step: "printf_loop putc buf nt f arg st = printf_loop putc buf nt ?f arg' st1"
    and st1: "shown safe st xs st1" and rest: "args_at safe (fst st) arg' ws" "texts_at safe (fst st) nt str_at ds ws"
    and rend: "render str_at (d # ds) vs = xs @ render str_at ds ws"
    by (rule printf_step_shown [OF buf safe wf(1) fmt Cons.prems(4-6)])
  have frame: "\<And>b. safe b \<Longrightarrow> fst st1 b = fst st b" using st1 by (simp add: shown_def)
  have s: "safe (?f + of_nat i)" if "i \<le> length ?rest" for i
    using Cons.prems(3) [of "length (format_chars d) + i"] that by (simp add: add.assoc)
  have "cstr (fst st1) ?f ?rest" by (rule cstr_frame [OF cstr_append [OF fmt]]) (rule frame [OF s])
  from Cons.IH [OF wf(2) this s args_at_frame [OF frame rest(1)] texts_at_frame [OF frame rest(2)] shown_ready [OF st1]]
  show ?case unfolding step rend using shown_trans [OF st1] by blast
qed

end

subsection \<open>The kernel's display\<close>

definition display_ready :: "device \<Rightarrow> u8 \<Rightarrow> DISPLAY \<times> ports \<Rightarrow> bool" where
  "display_ready dev attr = (\<lambda>(d, io). vga_device dev \<and> hw_cursor io < 2000
     \<and> COLOUR (fgColour (disp_console d)) (bgColour (disp_console d)) = attr)"

definition display_view :: "mem \<Rightarrow> DISPLAY \<times> ports \<Rightarrow> cell list \<times> nat" where
  "display_view m = (\<lambda>(d, io). (cells m, hw_cursor io))"

lemma cells_cong: "(\<And>a. \<not> off_screen a \<Longrightarrow> m' a = m a) \<Longrightarrow> cells m' = cells m"
  by (auto simp: cells_def off_screen_def video_at_def within_def unat_word_ariths unat_of_nat)

interpretation console: character_sink "screen_putc dev" "display_ready dev attr" display_view
    "terminal_put attr" "\<lambda>a. \<not> off_screen a" for dev attr
proof (unfold_locales, goal_cases)
  case (1 out c m)
  then show ?case
    using put_char_terminal [of dev "\<lparr>curr_display = fst out, vmem = m, vio = snd out\<rparr>" c]
    by (auto simp: display_ready_def screen_putc_def Let_def colour_of_def split: prod.splits)
next
  case (2 out c m)
  then show ?case
    using put_char_terminal(1) [of dev "\<lparr>curr_display = fst out, vmem = m, vio = snd out\<rparr>" c]
    by (auto simp: display_ready_def display_view_def terminal_def screen_putc_def Let_def colour_of_def split: prod.splits)
next
  case (3 out c a m)
  then show ?case
    using put_char_terminal(3) [of dev "\<lparr>curr_display = fst out, vmem = m, vio = snd out\<rparr>" c a]
    by (auto simp: display_ready_def screen_putc_def Let_def split: prod.splits)
next
  case (4 m' m out)
  then show ?case by (cases out) (simp add: display_view_def cells_cong [of m' m])
qed

subsection \<open>Properties\<close>

text \<open>A byte that is neither on the screen nor in the buffer.\<close>

definition kept :: "u32 \<Rightarrow> u32 \<Rightarrow> bool" where
  "kept buf a \<longleftrightarrow> off_screen a \<and> \<not> within buf 11 a"

text \<open>C11: \<open>printf\<close> on the kernel's display returns, for every format made of plain characters and
  the conversions \<open>X\<close>, \<open>x\<close>, \<open>d\<close>, \<open>u\<close> and \<open>s\<close> with an optional zero flag and one digit of width,
  whose arguments and strings are in memory; the terminal has then been given exactly the
  rendered text, and no byte outside the screen and the eleven bytes of the number buffer has
  changed. Numbers appear unsigned, in base 16 for \<open>x\<close> and 10 for the others.\<close>

theorem printf_renders:
  assumes "vga_device dev" "hw_cursor io < 2000" "\<forall>d\<in>set ds. well_formed d"
    and "cstr m (load32 m slot) (concat (map format_chars ds))"
    and "\<And>i. i \<le> length (concat (map format_chars ds)) \<Longrightarrow> kept buf (load32 m slot + of_nat i)"
    and "args_at (kept buf) m (slot + 4) vs" "texts_at (kept buf) m null_text str_at ds vs"
    and "unat buf + 20 < 4294967296" "\<And>a. within buf 11 a \<Longrightarrow> off_screen a"
  shows "\<exists>m' d' io'. printf (screen_putc dev) buf null_text slot (m, d, io) = Some (m', d', io')
    \<and> (cells m', hw_cursor io') = fold (terminal_put (COLOUR (fgColour (disp_console d)) (bgColour (disp_console d))))
        (render str_at ds vs) (cells m, hw_cursor io)
    \<and> (\<forall>a. kept buf a \<longrightarrow> m' a = m a)"
proof -
  let ?attr = "COLOUR (fgColour (disp_console d)) (bgColour (disp_console d))"
  have "display_ready dev ?attr (d, io)" using assms(1,2) by (simp add: display_ready_def)
  then show ?thesis
    using console.printf_loop_shown [of buf "kept buf" ds "(m, d, io)" "load32 m slot" "slot + 4" vs null_text str_at dev ?attr]
      assms by (fastforce simp: printf_def kept_def console.shown_def display_view_def)
qed

text \<open>\<open>printf ("n=%3d", 42)\<close>.\<close>

definition demo_memory :: mem where
  "demo_memory = put_bytes 0x1000 ([0x6E, 0x3D, 0x25, 0x33, 0x64] @ [0]) (store32 (store32 (\<lambda>_. 0) 0x2000 0x1000) 0x2004 42)"

lemma kept_low:
  assumes "unat a < 0x3000"
  shows "kept 0x3000 a"
  using assms by (simp add: kept_def off_screen_def VIDEO_ADDRESS_def within_nat)

theorem printf_renders_witness:
  "\<exists>m' d' io'. printf (screen_putc vga) 0x3000 0x4000 0x2000 (demo_memory, curr_display blank_screen, []) = Some (m', d', io')
    \<and> hw_cursor io' = 5 \<and> map (\<lambda>i. fst (cells m' ! i)) [0, 1, 2, 3, 4] = [0x6E, 0x3D, 0x20, 0x34, 0x32]"
proof -
  let ?ds = "[Plain 0x6E, Plain 0x3D, Number False 3 0x64]"
  have l: "load32 demo_memory 0x2000 = 0x1000" "load32 demo_memory 0x2004 = 42"
    by code_simp+
  have c: "cstr demo_memory 0x1000 (concat (map format_chars ?ds))"
    using put_bytes_cstr [of "[0x6E, 0x3D, 0x25, 0x33, 0x64]" "0x1000"] by (simp add: demo_memory_def flag_chars_def)
  have k: "kept 0x3000 (0x1000 + of_nat i)" if "i \<le> 5" for i
    using that by (intro kept_low) (simp add: bound_simps)
  have a: "args_at (kept 0x3000) demo_memory 0x2004 [42]"
    by (auto simp: l within_nat intro: kept_low)
  have b: "off_screen a" if "within 0x3000 11 a" for a :: u32
    using that by (simp add: off_screen_def VIDEO_ADDRESS_def within_nat)
  have h: "hw_cursor [] = 0" by (simp add: hw_cursor_def crtc_after_def)
  have r: "render (\<lambda>_. []) ?ds [42] = [0x6E, 0x3D, 0x20, 0x34, 0x32]"
    by code_simp
  have "\<exists>m' d' io'. printf (screen_putc vga) 0x3000 0x4000 0x2000 (demo_memory, curr_display blank_screen, []) = Some (m', d', io')
    \<and> (cells m', hw_cursor io') = fold (terminal_put 15) [0x6E, 0x3D, 0x20, 0x34, 0x32] (cells demo_memory, 0)"
    using printf_renders [OF vga_is_vga, of "[]" ?ds demo_memory "0x2000" "0x3000" "[42]" "0x4000" "\<lambda>_. []" "curr_display blank_screen"]
      c k a b h r l(1) by (fastforce simp: flag_chars_def blank_screen_def initial_display_def COLOUR_def)
  then obtain m' d' io' where p: "printf (screen_putc vga) 0x3000 0x4000 0x2000 (demo_memory, curr_display blank_screen, []) = Some (m', d', io')"
    "(cells m', hw_cursor io') = fold (terminal_put 15) [0x6E, 0x3D, 0x20, 0x34, 0x32] (cells demo_memory, 0)"
    by blast
  have "hw_cursor io' = 5 \<and> map (\<lambda>i. fst (cells m' ! i)) [0, 1, 2, 3, 4] = [0x6E, 0x3D, 0x20, 0x34, 0x32]"
    using p(2) by (simp add: terminal_put_def) (simp add: nth_list_update)
  with p(1) show ?thesis by (intro exI [of _ m'] exI [of _ d'] exI [of _ io']) simp
qed

end
