(* ===== verification/File_System.thy ===== *)
theory File_System
  imports Libc_String Libc_Memory
begin

text \<open>
  The file system of \<open>kernel/filesystem\<close>: the node structure and the dispatching functions of
  \<open>fs.c\<close>, and the initial ramdisk of \<open>initrd.c\<close>. Nodes are structures in memory. A function
  pointer is an address; the functions it may designate are given by maps from addresses, and
  a call through any other address has no value. \<open>Initrd\<close> holds the lemmas.
\<close>

subsection \<open>Nodes\<close>

definition FS_FILE :: u32 where "FS_FILE = 0x01"
definition FS_DIRECTORY :: u32 where "FS_DIRECTORY = 0x02"

text \<open>\<open>fs_node_t\<close>: the name takes 128 bytes, fourteen words follow; \<open>dirent_t\<close> is a name and a word.\<close>

definition node_name :: "u32 \<Rightarrow> u32" where "node_name n = n"
definition node_mask :: "u32 \<Rightarrow> u32" where "node_mask n = n + 128"
definition node_uid :: "u32 \<Rightarrow> u32" where "node_uid n = n + 132"
definition node_gid :: "u32 \<Rightarrow> u32" where "node_gid n = n + 136"
definition node_flags :: "u32 \<Rightarrow> u32" where "node_flags n = n + 140"
definition node_inode :: "u32 \<Rightarrow> u32" where "node_inode n = n + 144"
definition node_length :: "u32 \<Rightarrow> u32" where "node_length n = n + 148"
definition node_impl :: "u32 \<Rightarrow> u32" where "node_impl n = n + 152"
definition node_read :: "u32 \<Rightarrow> u32" where "node_read n = n + 156"
definition node_write :: "u32 \<Rightarrow> u32" where "node_write n = n + 160"
definition node_open :: "u32 \<Rightarrow> u32" where "node_open n = n + 164"
definition node_close :: "u32 \<Rightarrow> u32" where "node_close n = n + 168"
definition node_readdir :: "u32 \<Rightarrow> u32" where "node_readdir n = n + 172"
definition node_finddir :: "u32 \<Rightarrow> u32" where "node_finddir n = n + 176"
definition node_ptr :: "u32 \<Rightarrow> u32" where "node_ptr n = n + 180"
definition sizeof_fs_node :: u32 where "sizeof_fs_node = 184"
definition dirent_ino :: "u32 \<Rightarrow> u32" where "dirent_ino d = d + 128"

lemmas node_offsets [layout_simps] = node_name_def node_mask_def node_uid_def node_gid_def node_flags_def
  node_inode_def node_length_def node_impl_def node_read_def node_write_def node_open_def node_close_def
  node_readdir_def node_finddir_def node_ptr_def dirent_ino_def

subsection \<open>\<open>fs.c\<close>\<close>

text \<open>What the code at an address does to the memory.\<close>

record fs_code =
  code_read :: "u32 \<Rightarrow> (u32 \<Rightarrow> u32 \<Rightarrow> u32 \<Rightarrow> u32 \<Rightarrow> mem \<Rightarrow> (u32 \<times> mem) option) option"
  code_write :: "u32 \<Rightarrow> (u32 \<Rightarrow> u32 \<Rightarrow> u32 \<Rightarrow> u32 \<Rightarrow> mem \<Rightarrow> (u32 \<times> mem) option) option"
  code_open :: "u32 \<Rightarrow> (u32 \<Rightarrow> mem \<Rightarrow> mem option) option"
  code_close :: "u32 \<Rightarrow> (u32 \<Rightarrow> mem \<Rightarrow> mem option) option"
  code_readdir :: "u32 \<Rightarrow> (u32 \<Rightarrow> u32 \<Rightarrow> mem \<Rightarrow> (u32 \<times> mem) option) option"
  code_finddir :: "u32 \<Rightarrow> (u32 \<Rightarrow> u32 \<Rightarrow> mem \<Rightarrow> (u32 \<times> mem) option) option"

definition read_fs :: "fs_code \<Rightarrow> u32 \<Rightarrow> u32 \<Rightarrow> u32 \<Rightarrow> u32 \<Rightarrow> mem \<Rightarrow> (u32 \<times> mem) option" where
  "read_fs c node offset sz buffer m =
     (if load32 m (node_read node) \<noteq> 0
      then Option.bind (code_read c (load32 m (node_read node))) (\<lambda>f. f node offset sz buffer m)
      else Some (0, m))"

definition write_fs :: "fs_code \<Rightarrow> u32 \<Rightarrow> u32 \<Rightarrow> u32 \<Rightarrow> u32 \<Rightarrow> mem \<Rightarrow> (u32 \<times> mem) option" where
  "write_fs c node offset sz buffer m =
     (if load32 m (node_write node) \<noteq> 0
      then Option.bind (code_write c (load32 m (node_write node))) (\<lambda>f. f node offset sz buffer m)
      else Some (0, m))"

definition open_fs :: "fs_code \<Rightarrow> u32 \<Rightarrow> mem \<Rightarrow> mem option" where
  "open_fs c node m =
     (if load32 m (node_open node) \<noteq> 0
      then Option.bind (code_open c (load32 m (node_open node))) (\<lambda>f. f node m) else Some m)"

definition close_fs :: "fs_code \<Rightarrow> u32 \<Rightarrow> mem \<Rightarrow> mem option" where
  "close_fs c node m =
     (if load32 m (node_close node) \<noteq> 0
      then Option.bind (code_close c (load32 m (node_close node))) (\<lambda>f. f node m) else Some m)"

definition readdir_fs :: "fs_code \<Rightarrow> u32 \<Rightarrow> u32 \<Rightarrow> mem \<Rightarrow> (u32 \<times> mem) option" where
  "readdir_fs c node index m =
     (if load32 m (node_readdir node) \<noteq> 0 \<and> load32 m (node_flags node) AND 0x7 = FS_DIRECTORY
      then Option.bind (code_readdir c (load32 m (node_readdir node))) (\<lambda>f. f node index m)
      else Some (0, m))"

definition finddir_fs :: "fs_code \<Rightarrow> u32 \<Rightarrow> u32 \<Rightarrow> mem \<Rightarrow> (u32 \<times> mem) option" where
  "finddir_fs c node name m =
     (if load32 m (node_finddir node) \<noteq> 0 \<and> load32 m (node_flags node) AND 0x7 = FS_DIRECTORY
      then Option.bind (code_finddir c (load32 m (node_finddir node))) (\<lambda>f. f node name m)
      else Some (0, m))"

subsection \<open>\<open>initrd.c\<close>\<close>

text \<open>The global variables of \<open>initrd.c\<close>.\<close>

record initrd_vars =
  initrd_header :: u32
  file_headers :: u32
  initrd_root :: u32
  initrd_dev :: u32
  root_nodes :: u32
  nroot_nodes :: u32

text \<open>
  What the linker chooses: the addresses of the three functions, of the static \<open>dirent\<close> and of
  the literals \<open>"initrd"\<close> and \<open>"dev"\<close>.
\<close>

record initrd_link =
  fn_read :: u32
  fn_readdir :: u32
  fn_finddir :: u32
  at_dirent :: u32
  lit_initrd :: u32
  lit_dev :: u32

text \<open>\<open>initrd_file_header_t\<close>: a magic byte, 64 bytes of name, then two words at aligned offsets.\<close>

definition fh_at :: "u32 \<Rightarrow> u32 \<Rightarrow> u32" where "fh_at base i = base + 76 * i"
definition fh_name :: "u32 \<Rightarrow> u32" where "fh_name h = h + 1"
definition fh_offset :: "u32 \<Rightarrow> u32" where "fh_offset h = h + 68"
definition fh_length :: "u32 \<Rightarrow> u32" where "fh_length h = h + 72"
definition node_at :: "u32 \<Rightarrow> u32 \<Rightarrow> u32" where "node_at base i = base + sizeof_fs_node * i"

definition initrd_read :: "initrd_vars \<Rightarrow> u32 \<Rightarrow> u32 \<Rightarrow> u32 \<Rightarrow> u32 \<Rightarrow> mem \<Rightarrow> (u32 \<times> mem) option" where
  "initrd_read v node offset sz buffer m =
     (let header = fh_at (file_headers v) (load32 m (node_inode node));
          len = load32 m (fh_length header);
          start = load32 m (fh_offset header)
      in if offset > len then Some (0, m)
         else
           (let sz = (if offset + sz > len then len - offset else sz)
            in Some (sz, snd (memcpy buffer (start + offset) sz m))))"

text \<open>In \<open>index - 1 >= nroot_nodes\<close> the \<open>int\<close> is converted to unsigned.\<close>

definition initrd_readdir :: "initrd_link \<Rightarrow> initrd_vars \<Rightarrow> u32 \<Rightarrow> u32 \<Rightarrow> mem \<Rightarrow> (u32 \<times> mem) option" where
  "initrd_readdir lk v node index m =
     (let d = at_dirent lk
      in if node = initrd_root v \<and> index = 0 then
           Option.bind (strcpy d (lit_dev lk) m) (\<lambda>(_, m).
             Some (d, store32 (store8 m (d + 3) 0) (dirent_ino d) 0))
         else if index - 1 \<ge> nroot_nodes v then Some (0, m)
         else
           (let n = node_at (root_nodes v) (index - 1)
            in Option.bind (strcpy d (node_name n) m) (\<lambda>(_, m).
                 Option.bind (strlen m (node_name n)) (\<lambda>len.
                   let m = store8 m (d + len) 0
                   in Some (d, store32 m (dirent_ino d) (load32 m (node_inode n)))))))"

partial_function (option) finddir_from :: "initrd_vars \<Rightarrow> u32 \<Rightarrow> u32 \<Rightarrow> mem \<Rightarrow> u32 option" where
  "finddir_from v name i m =
     (if sint i < sint (nroot_nodes v) then
        Option.bind (strcmp m name (node_name (node_at (root_nodes v) i))) (\<lambda>c.
          if c = 0 then Some (node_at (root_nodes v) i) else finddir_from v name (i + 1) m)
      else Some 0)"

definition initrd_finddir :: "initrd_link \<Rightarrow> initrd_vars \<Rightarrow> u32 \<Rightarrow> u32 \<Rightarrow> mem \<Rightarrow> (u32 \<times> mem) option" where
  "initrd_finddir lk v node name m =
     Option.bind (if node = initrd_root v then map_option (\<lambda>c. c = 0) (strcmp m name (lit_dev lk)) else Some False)
       (\<lambda>is_dev. if is_dev then Some (initrd_dev v, m)
                  else map_option (\<lambda>n. (n, m)) (finddir_from v name 0 m))"

text \<open>The map from code addresses to the functions of the ramdisk.\<close>

definition initrd_code :: "initrd_link \<Rightarrow> initrd_vars \<Rightarrow> fs_code" where
  "initrd_code lk v = \<lparr>code_read = [fn_read lk \<mapsto> initrd_read v], code_write = Map.empty,
     code_open = Map.empty, code_close = Map.empty,
     code_readdir = [fn_readdir lk \<mapsto> initrd_readdir lk v], code_finddir = [fn_finddir lk \<mapsto> initrd_finddir lk v]\<rparr>"

text \<open>The stores that fill a directory node, and those that fill a file node.\<close>

definition fill_directory :: "initrd_link \<Rightarrow> u32 \<Rightarrow> mem \<Rightarrow> mem" where
  "fill_directory lk n m =
     (let m = store32 m (node_length n) 0; m = store32 m (node_inode n) 0; m = store32 m (node_gid n) 0;
          m = store32 m (node_uid n) 0; m = store32 m (node_mask n) 0;
          m = store32 m (node_flags n) FS_DIRECTORY;
          m = store32 m (node_read n) 0; m = store32 m (node_write n) 0;
          m = store32 m (node_open n) 0; m = store32 m (node_close n) 0;
          m = store32 m (node_readdir n) (fn_readdir lk); m = store32 m (node_finddir n) (fn_finddir lk);
          m = store32 m (node_ptr n) 0
      in store32 m (node_impl n) 0)"

definition fill_file :: "initrd_link \<Rightarrow> u32 \<Rightarrow> u32 \<Rightarrow> u32 \<Rightarrow> mem \<Rightarrow> mem" where
  "fill_file lk h i n m =
     (let m = store32 m (node_gid n) 0; m = store32 m (node_uid n) 0; m = store32 m (node_mask n) 0;
          m = store32 m (node_length n) (load32 m (fh_length h));
          m = store32 m (node_inode n) i;
          m = store32 m (node_flags n) FS_FILE;
          m = store32 m (node_read n) (fn_read lk); m = store32 m (node_write n) 0;
          m = store32 m (node_readdir n) 0; m = store32 m (node_finddir n) 0;
          m = store32 m (node_open n) 0; m = store32 m (node_close n) 0
      in store32 m (node_impl n) 0)"

definition make_node :: "initrd_link \<Rightarrow> initrd_vars \<Rightarrow> u32 \<Rightarrow> u32 \<Rightarrow> mem \<Rightarrow> mem option" where
  "make_node lk v location i m =
     (let h = fh_at (file_headers v) i;
          n = node_at (root_nodes v) i;
          m = store32 m (fh_offset h) (load32 m (fh_offset h) + location)
      in map_option (\<lambda>(_, m). fill_file lk h i n m) (strcpy (node_name n) (fh_name h) m))"

partial_function (option) make_nodes :: "initrd_link \<Rightarrow> initrd_vars \<Rightarrow> u32 \<Rightarrow> u32 \<Rightarrow> mem \<Rightarrow> mem option" where
  "make_nodes lk v location i m =
     (if sint i < sint (nroot_nodes v)
      then Option.bind (make_node lk v location i m) (make_nodes lk v location (i + 1)) else Some m)"

text \<open>\<open>mk\<close> is \<open>kmalloc\<close>. The result is \<open>initrd_root\<close>.\<close>

definition initialise_initrd :: "(u32 \<Rightarrow> kstate \<Rightarrow> (u32 \<times> kstate) option) \<Rightarrow> initrd_link \<Rightarrow> u32 \<Rightarrow> kstate \<Rightarrow>
    (u32 \<times> initrd_vars \<times> kstate) option" where
  "initialise_initrd mk lk location s =
     Option.bind (mk sizeof_fs_node s) (\<lambda>(root, s).
     Option.bind (strcpy (node_name root) (lit_initrd lk) (memory s)) (\<lambda>(_, m).
       let s = s\<lparr>memory := fill_directory lk root m\<rparr> in
     Option.bind (mk sizeof_fs_node s) (\<lambda>(dev, s).
     Option.bind (strcpy (node_name dev) (lit_dev lk) (memory s)) (\<lambda>(_, m).
       let s = s\<lparr>memory := fill_directory lk dev m\<rparr> in
     Option.bind (mk (sizeof_fs_node * load32 (memory s) location) s) (\<lambda>(nodes, s).
       let v = \<lparr>initrd_header = location, file_headers = location + 4, initrd_root = root,
                initrd_dev = dev, root_nodes = nodes, nroot_nodes = load32 (memory s) location\<rparr>
       in map_option (\<lambda>m. (root, v, s\<lparr>memory := m\<rparr>)) (make_nodes lk v location 0 (memory s)))))))"

end
