(* ===== verification/Initrd.thy ===== *)
theory Initrd
  imports File_System Heap_Source
begin

text \<open>
  What the initial ramdisk promises: a directory of named files. \<open>initrd_ok\<close> relates the
  structures of \<open>File_System\<close> to the list of files they stand for; the lemmas show that
  reading, listing and looking up give that list, and that \<open>initialise_initrd\<close> builds the
  structures from an image.
\<close>

subsection \<open>The structures and the files they stand for\<close>

type_synonym ramfile = "u8 list \<times> u8 list"

definition dev_name :: "u8 list" where "dev_name = [0x64, 0x65, 0x76]"

definition file_ok :: "initrd_link \<Rightarrow> initrd_vars \<Rightarrow> mem \<Rightarrow> nat \<Rightarrow> ramfile \<Rightarrow> bool" where
  "file_ok lk v m i f =
     (let n = node_at (root_nodes v) (of_nat i); h = fh_at (file_headers v) (of_nat i)
      in cstr m n (fst f) \<and> length (fst f) < 64 \<and> length (snd f) < 4294967296
         \<and> load32 m (node_inode n) = of_nat i \<and> load32 m (node_flags n) = FS_FILE
         \<and> load32 m (node_read n) = fn_read lk \<and> load32 m (node_length n) = of_nat (length (snd f))
         \<and> load32 m (fh_length h) = of_nat (length (snd f))
         \<and> bytes m (load32 m (fh_offset h)) (length (snd f)) = snd f)"

definition directory_ok :: "initrd_link \<Rightarrow> mem \<Rightarrow> u32 \<Rightarrow> bool" where
  "directory_ok lk m n \<longleftrightarrow> load32 m (node_flags n) = FS_DIRECTORY
     \<and> load32 m (node_readdir n) = fn_readdir lk \<and> load32 m (node_finddir n) = fn_finddir lk"

definition initrd_ok :: "initrd_link \<Rightarrow> initrd_vars \<Rightarrow> mem \<Rightarrow> ramfile list \<Rightarrow> bool" where
  "initrd_ok lk v m files \<longleftrightarrow> length files < 2147483648 \<and> nroot_nodes v = of_nat (length files)
     \<and> fn_read lk \<noteq> 0 \<and> fn_readdir lk \<noteq> 0 \<and> fn_finddir lk \<noteq> 0
     \<and> cstr m (lit_dev lk) dev_name \<and> directory_ok lk m (initrd_root v) \<and> directory_ok lk m (initrd_dev v)
     \<and> (\<forall>i<length files. file_ok lk v m i (files ! i))"

text \<open>The bytes these structures are made of.\<close>

definition initrd_byte :: "initrd_link \<Rightarrow> initrd_vars \<Rightarrow> mem \<Rightarrow> ramfile list \<Rightarrow> u32 \<Rightarrow> bool" where
  "initrd_byte lk v m files a \<longleftrightarrow> within (initrd_root v) 184 a \<or> within (initrd_dev v) 184 a
     \<or> within (lit_dev lk) 4 a
     \<or> (\<exists>i<length files. within (node_at (root_nodes v) (of_nat i)) 184 a
          \<or> within (fh_at (file_headers v) (of_nat i)) 76 a
          \<or> within (load32 m (fh_offset (fh_at (file_headers v) (of_nat i)))) (length (snd (files ! i))) a)"

lemma initrd_ok_frame:
  assumes "initrd_ok lk v m files" and same: "\<And>a. initrd_byte lk v m files a \<Longrightarrow> m' a = m a"
  shows "initrd_ok lk v m' files"
proof -
  have dir: "directory_ok lk m n \<Longrightarrow> directory_ok lk m' n" if "\<And>a. within n 184 a \<Longrightarrow> m' a = m a" for n
    using load32_field [of n 184 m' m, OF that, of 140] load32_field [of n 184 m' m, OF that, of 172]
      load32_field [of n 184 m' m, OF that, of 176]
    by (simp add: directory_ok_def layout_simps)
  have lit: "cstr m' (lit_dev lk) dev_name"
    by (rule cstr_cong_within [of m _ _ 4])
      (use assms(1) same in \<open>auto simp: initrd_ok_def initrd_byte_def dev_name_def\<close>)
  have "file_ok lk v m' i (files ! i)" if i: "i < length files" for i
  proof -
    let ?n = "node_at (root_nodes v) (of_nat i)" and ?h = "fh_at (file_headers v) (of_nat i)"
    let ?f = "files ! i"
    have ok: "file_ok lk v m i ?f" using assms(1) i by (simp add: initrd_ok_def)
    have n: "m' a = m a" if "within ?n 184 a" for a using same i that by (auto simp: initrd_byte_def)
    have h: "m' a = m a" if "within ?h 76 a" for a using same i that by (auto simp: initrd_byte_def)
    have d: "m' a = m a" if "within (load32 m (fh_offset ?h)) (length (snd ?f)) a" for a
      using same i that by (auto simp: initrd_byte_def)
    have name: "cstr m' ?n (fst ?f)"
      by (rule cstr_cong_within [of m _ _ 184]) (use ok n in \<open>auto simp: file_ok_def Let_def\<close>)
    have words: "load32 m' (?n + of_nat k) = load32 m (?n + of_nat k)" if "k \<le> 180" for k
      using that by (intro load32_field [of ?n 184]) (auto intro: n)
    have hwords: "load32 m' (?h + of_nat k) = load32 m (?h + of_nat k)" if "k \<le> 72" for k
      using that by (intro load32_field [of ?h 76]) (auto intro: h)
    have "bytes m' (load32 m (fh_offset ?h)) (length (snd ?f)) = bytes m (load32 m (fh_offset ?h)) (length (snd ?f))"
      by (rule bytes_cong) (use ok d in \<open>auto simp: file_ok_def Let_def\<close>)
    then show ?thesis
      using ok name words [of 140] words [of 144] words [of 148] words [of 156] hwords [of 68] hwords [of 72]
      by (simp add: file_ok_def Let_def layout_simps fh_offset_def fh_length_def)
  qed
  then show ?thesis
    using assms lit dir by (simp add: initrd_ok_def initrd_byte_def)
qed

subsection \<open>Reading a file\<close>

lemma file_okD:
  assumes "initrd_ok lk v m files" "i < length files"
  defines "n \<equiv> node_at (root_nodes v) (of_nat i)" and "h \<equiv> fh_at (file_headers v) (of_nat i)"
  shows "cstr m n (fst (files ! i))" "length (fst (files ! i)) < 64" "length (snd (files ! i)) < 4294967296"
    "load32 m (node_inode n) = of_nat i" "load32 m (node_read n) = fn_read lk" "fn_read lk \<noteq> 0"
    "load32 m (node_flags n) = FS_FILE" "load32 m (node_length n) = of_nat (length (snd (files ! i)))"
    "load32 m (fh_length h) = of_nat (length (snd (files ! i)))"
    "bytes m (load32 m (fh_offset h)) (length (snd (files ! i))) = snd (files ! i)"
  using assms by (auto simp: initrd_ok_def file_ok_def Let_def)

lemma bytes_drop: "j + k \<le> n \<Longrightarrow> bytes m (a + of_nat j) k = take k (drop j (bytes m a n))"
  by (auto simp: bytes_def drop_map take_map add.assoc intro!: nth_equalityI)

lemma bytes_copy_bytes:
  assumes "k \<le> 4294967296"
  shows "bytes (copy_bytes dest src k m) dest k = bytes m src k"
  using assms by (auto simp: bytes_def load8_def copy_bytes_def within_add_of_nat intro!: map_cong)

lemma read_fs_call:
  assumes "initrd_ok lk v m files" "i < length files"
  shows "read_fs (initrd_code lk v) (node_at (root_nodes v) (of_nat i)) offset sz buffer m
    = initrd_read v (node_at (root_nodes v) (of_nat i)) offset sz buffer m"
  using file_okD(5,6) [OF assms] by (simp add: read_fs_def initrd_code_def)

lemma read_fs_past_end:
  assumes "initrd_ok lk v m files" "i < length files" "length (snd (files ! i)) < unat offset"
  shows "read_fs (initrd_code lk v) (node_at (root_nodes v) (of_nat i)) offset sz buffer m = Some (0, m)"
  using file_okD [OF assms(1,2)] assms(3)
  by (simp add: read_fs_call [OF assms(1,2)] initrd_read_def Let_def word_less_nat_alt unat_of_nat_small)

lemma read_fs_file:
  assumes ok: "initrd_ok lk v m files" and i: "i < length files"
    and offset: "unat offset \<le> length (snd (files ! i))" "unat offset + unat sz < 4294967296"
    and k: "k = min (unat sz) (length (snd (files ! i)) - unat offset)"
    and apart: "apart buffer k (load32 m (fh_offset (fh_at (file_headers v) (of_nat i))) + offset) k"
  shows "\<exists>m'. read_fs (initrd_code lk v) (node_at (root_nodes v) (of_nat i)) offset sz buffer m = Some (of_nat k, m')
    \<and> bytes m' buffer k = take k (drop (unat offset) (snd (files ! i)))
    \<and> (\<forall>a. \<not> within buffer k a \<longrightarrow> m' a = m a)"
proof -
  let ?len = "length (snd (files ! i))"
  let ?start = "load32 m (fh_offset (fh_at (file_headers v) (of_nat i)))"
  note f = file_okD [OF ok i]
  have len: "unat (of_nat ?len :: u32) = ?len" using f(3) by (rule unat_of_nat_small)
  let ?sz = "if offset + sz > of_nat ?len then of_nat ?len - offset else sz"
  have sz: "?sz = of_nat k"
  proof (rule word_unat_eq_iff [THEN iffD2])
    have "unat (offset + sz) = unat offset + unat sz" using offset(2) by (rule unat_add_nowrap)
    then show "unat ?sz = unat (of_nat k :: u32)"
      using offset(1) k f(3) len by (auto simp: word_less_nat_alt unat_sub_nowrap unat_of_nat_small min_def)
  qed
  have kl: "k \<le> ?len" "unat (of_nat k :: u32) = k" using k f(3) by (simp_all add: unat_of_nat_small)
  have "\<not> offset > of_nat ?len" using offset(1) len by (simp add: word_less_nat_alt)
  then have "initrd_read v (node_at (root_nodes v) (of_nat i)) offset sz buffer m
    = Some (?sz, snd (memcpy buffer (?start + offset) ?sz m))"
    using f(4,9) by (simp add: initrd_read_def Let_def)
  then have run: "read_fs (initrd_code lk v) (node_at (root_nodes v) (of_nat i)) offset sz buffer m
    = Some (of_nat k, copy_bytes buffer (?start + offset) k m)"
    unfolding read_fs_call [OF ok i] sz using memcpy_copies [of buffer "of_nat k" "?start + offset" m] apart kl(2)
    by simp
  have "bytes m (?start + of_nat (unat offset)) k = take k (drop (unat offset) (bytes m ?start ?len))"
    using k offset(1) by (intro bytes_drop) simp
  moreover have "bytes (copy_bytes buffer (?start + offset) k m) buffer k = bytes m (?start + offset) k"
    using kl(1) f(3) by (intro bytes_copy_bytes) linarith
  ultimately have "bytes (copy_bytes buffer (?start + offset) k m) buffer k = take k (drop (unat offset) (snd (files ! i)))"
    using f(10) by simp
  then show ?thesis by (intro exI conjI) (rule run, assumption, simp add: copy_bytes_def)
qed

subsection \<open>Looking a name up\<close>

text \<open>The index of the first file with a name, or the number of files.\<close>

definition name_index :: "u8 list \<Rightarrow> ramfile list \<Rightarrow> nat" where
  "name_index nm files = length (takeWhile (\<lambda>f. fst f \<noteq> nm) files)"

lemma name_index_first:
  "i < length files \<Longrightarrow> i \<le> name_index nm files \<Longrightarrow> fst (files ! i) = nm \<longleftrightarrow> i = name_index nm files"
  unfolding name_index_def
  by (metis (mono_tags, lifting) le_neq_implies_less nth_length_takeWhile nth_mem set_takeWhileD takeWhile_nth)

lemma name_index_distinct:
  assumes names: "distinct (map fst files)" and k: "k < length files"
  shows "name_index (fst (files ! k)) files = k"
proof -
  let ?P = "\<lambda>f. fst f \<noteq> fst (files ! k)"
  have le: "name_index (fst (files ! k)) files \<le> k"
  proof (rule ccontr)
    assume "\<not> ?thesis"
    then have lt: "k < length (takeWhile ?P files)" by (simp add: name_index_def)
    have "files ! k \<in> set (takeWhile ?P files)" using nth_mem [OF lt] unfolding takeWhile_nth [OF lt] .
    from set_takeWhileD [OF this] show False by simp
  qed
  then have "fst (files ! name_index (fst (files ! k)) files) = fst (files ! k)"
    using name_index_first [of "name_index (fst (files ! k)) files" files "fst (files ! k)"] k by simp
  then show ?thesis
    using le k nth_eq_iff_index_eq [OF names, of "name_index (fst (files ! k)) files" k] by simp
qed

lemma finddir_from_first:
  assumes ok: "initrd_ok lk v m files" and name: "cstr m p nm"
  shows "i \<le> name_index nm files \<Longrightarrow> finddir_from v p (of_nat i) m =
    Some (if name_index nm files < length files
          then node_at (root_nodes v) (of_nat (name_index nm files)) else 0)"
proof (induction "length files - i" arbitrary: i)
  case 0
  have le: "name_index nm files \<le> length files" by (simp add: name_index_def length_takeWhile_le)
  have n: "length files < 2147483648" "nroot_nodes v = of_nat (length files)" using ok by (simp_all add: initrd_ok_def)
  have "i = length files" using 0 le by simp
  then show ?case using 0 le by (subst finddir_from.simps) (simp add: n sint_of_nat)
next
  case (Suc d)
  then have i: "i < length files" by simp
  have n: "length files < 2147483648" "nroot_nodes v = of_nat (length files)" using ok by (simp_all add: initrd_ok_def)
  have lt: "sint (of_nat i :: u32) < sint (nroot_nodes v)" using n i by (simp add: sint_of_nat)
  obtain c where c: "strcmp m p (node_name (node_at (root_nodes v) (of_nat i))) = Some c"
    "c = 0 \<longleftrightarrow> nm = fst (files ! i)"
    using strcmp_zero [OF name file_okD(1) [OF ok i]] by (auto simp: node_name_def)
  show ?case
  proof (cases "fst (files ! i) = nm")
    case True
    then have "i = name_index nm files" using name_index_first [OF i Suc.prems] by simp
    then show ?thesis using lt c i True by (subst finddir_from.simps) simp
  next
    case False
    then have "Suc i \<le> name_index nm files" using name_index_first [OF i Suc.prems] Suc.prems by simp
    then have "finddir_from v p (of_nat (Suc i)) m =
      Some (if name_index nm files < length files then node_at (root_nodes v) (of_nat (name_index nm files)) else 0)"
      using Suc.hyps(1) [of "Suc i"] Suc.hyps(2) by simp
    then show ?thesis using lt c False by (subst finddir_from.simps) (simp add: add.commute)
  qed
qed

lemma finddir_fs_first:
  assumes ok: "initrd_ok lk v m files" and name: "cstr m p nm"
  shows "finddir_fs (initrd_code lk v) (initrd_root v) p m =
    Some (if nm = dev_name then initrd_dev v
          else if name_index nm files < length files
          then node_at (root_nodes v) (of_nat (name_index nm files)) else 0, m)"
proof -
  have root: "load32 m (node_flags (initrd_root v)) = FS_DIRECTORY"
    "load32 m (node_finddir (initrd_root v)) = fn_finddir lk" "fn_finddir lk \<noteq> 0"
    "cstr m (lit_dev lk) dev_name"
    using ok by (simp_all add: initrd_ok_def directory_ok_def)
  obtain c where "strcmp m p (lit_dev lk) = Some c" "c = 0 \<longleftrightarrow> nm = dev_name"
    using strcmp_zero [OF name root(4)] by blast
  then show ?thesis
    using root finddir_from_first [OF ok name, of 0]
    by (simp add: finddir_fs_def initrd_code_def initrd_finddir_def FS_DIRECTORY_def)
qed

subsection \<open>Listing the directory\<close>

text \<open>The static \<open>dirent\<close> overlaps nothing the ramdisk is made of.\<close>

definition dirent_apart :: "initrd_link \<Rightarrow> initrd_vars \<Rightarrow> mem \<Rightarrow> ramfile list \<Rightarrow> bool" where
  "dirent_apart lk v m files \<longleftrightarrow> (\<forall>a. within (at_dirent lk) 132 a \<longrightarrow> \<not> initrd_byte lk v m files a)"

lemma copy_then_terminate:
  assumes "cstr m src xs" "apart dst (length xs) src (length xs)"
  shows "cstr (store8 (copy_bytes dst src (length xs) m) (dst + of_nat (length xs)) 0) dst xs"
proof (rule cstrI)
  let ?n = "length xs" let ?m = "copy_bytes dst src ?n m"
  have n: "?n < 2147483647" "0 \<notin> set xs" using assms(1) by (simp_all add: cstr_def)
  then show "?n < 2147483647" "0 \<notin> set xs" by simp_all
  have "\<not> within dst ?n (dst + of_nat ?n)" using n by (intro not_within_end) simp
  then have "bytes (store8 ?m (dst + of_nat ?n) 0) dst ?n = bytes ?m dst ?n"
    using n by (intro bytes_cong) (auto simp: store8_def)
  also have "\<dots> = xs" using bytes_copy_bytes [of ?n dst src m] cstr_bytes [OF assms(1)] n by simp
  finally show "bytes (store8 ?m (dst + of_nat ?n) 0) dst ?n = xs" .
  show "load8 (store8 ?m (dst + of_nat ?n) 0) (dst + of_nat ?n) = 0" by (simp add: load8_store8)
qed

lemma dirent_frame:
  assumes "n < 64" "\<not> within d 132 a"
  shows "copy_bytes d src n m a = m a" "store8 (copy_bytes d src n m) (d + of_nat n) 0 a = m a"
    "store32 (store8 (copy_bytes d src n m) (d + of_nat n) 0) (dirent_ino d) x a = m a"
proof -
  show 1: "copy_bytes d src n m a = m a"
    using assms within_mono [of d n a 132] by (auto simp: copy_bytes_def)
  then show 2: "store8 (copy_bytes d src n m) (d + of_nat n) 0 a = m a"
    using assms within_add_of_nat [of n 132 d] by (auto simp: store8_def)
  show "store32 (store8 (copy_bytes d src n m) (d + of_nat n) 0) (dirent_ino d) x a = m a"
    using assms 2 within_field [of d 128 4 a 132] by (subst store32_other) (auto simp: dirent_ino_def)
qed

lemma dirent_name:
  assumes "cstr m src xs" "apart d (length xs) src (length xs)" "length xs < 64"
  shows "cstr (store32 (store8 (copy_bytes d src (length xs) m) (d + of_nat (length xs)) 0) (dirent_ino d) x) d xs"
proof (rule cstr_cong_within [OF copy_then_terminate [OF assms(1,2)] assms(3)])
  let ?m = "store8 (copy_bytes d src (length xs) m) (d + of_nat (length xs)) 0"
  fix a assume "within d 64 a"
  then have "\<not> within (d + 128) 4 a" using not_within_later [of d 64 a 128 4] by simp
  then show "store32 ?m (dirent_ino d) x a = ?m a" by (simp add: store32_other dirent_ino_def)
qed simp

lemma readdir_entry:
  assumes ok: "initrd_ok lk v m files" and free: "dirent_apart lk v m files" and i: "i < length files"
  shows "\<exists>m'. readdir_fs (initrd_code lk v) (initrd_root v) (of_nat (Suc i)) m = Some (at_dirent lk, m')
    \<and> cstr m' (at_dirent lk) (fst (files ! i)) \<and> load32 m' (dirent_ino (at_dirent lk)) = of_nat i
    \<and> (\<forall>a. \<not> within (at_dirent lk) 132 a \<longrightarrow> m' a = m a)"
proof -
  let ?d = "at_dirent lk" and ?n = "node_at (root_nodes v) (of_nat i)" and ?nm = "fst (files ! i)"
  note f = file_okD [OF ok i]
  have node: "\<not> within ?n 184 a" if "within ?d 132 a" for a
    using free i that by (auto simp: dirent_apart_def initrd_byte_def)
  have nl: "length ?nm < 64" "length ?nm \<le> 132" "length ?nm \<le> 184" using f(2) by simp_all
  have "apart ?d 132 ?n 184" by (rule apartI) (use node in blast)
  then have ap: "apart ?d (length ?nm) ?n (length ?nm)" using nl(2,3) by (rule apart_mono)
  let ?m1 = "copy_bytes ?d ?n (length ?nm) m"
  let ?m2 = "store8 ?m1 (?d + of_nat (length ?nm)) 0"
  let ?m3 = "store32 ?m2 (dirent_ino ?d) (of_nat i)"
  note m1 = dirent_frame(1) [OF nl(1), of ?d _ ?n m] and m2 = dirent_frame(2) [OF nl(1), of ?d _ ?n m]
    and m3 = dirent_frame(3) [OF nl(1), of ?d _ ?n m "of_nat i"]
  have "cstr ?m1 ?n ?nm"
    by (rule cstr_cong_within [OF f(1), of 184]) (use nl node m1 in auto)
  then have len: "strlen ?m1 ?n = Some (of_nat (length ?nm))" by (rule strlen_cstr)
  have ino: "load32 ?m2 (node_inode ?n) = of_nat i"
  proof -
    have "load32 ?m2 (?n + of_nat 144) = load32 m (?n + of_nat 144)"
      by (rule load32_field [of ?n 184]) (use node m2 in auto)
    then show ?thesis using f(4) by (simp add: node_inode_def)
  qed
  have d: "cstr ?m3 ?d ?nm" by (rule dirent_name [OF f(1) ap nl(1)])
  have idx: "of_nat (Suc i) \<noteq> (0 :: u32)" "of_nat (Suc i) - 1 = (of_nat i :: u32)"
    "\<not> nroot_nodes v \<le> of_nat i"
    using ok i of_nat_u32_inject [of "Suc i" 4294967296 0]
    by (auto simp: initrd_ok_def word_le_nat_alt unat_of_nat_small simp del: of_nat_Suc) simp
  have root: "load32 m (node_flags (initrd_root v)) = FS_DIRECTORY"
    "load32 m (node_readdir (initrd_root v)) = fn_readdir lk" "fn_readdir lk \<noteq> 0"
    using ok by (simp_all add: initrd_ok_def directory_ok_def)
  have "readdir_fs (initrd_code lk v) (initrd_root v) (of_nat (Suc i)) m = Some (?d, ?m3)"
    using root idx strcpy_cstr [OF f(1) ap] len ino
    by (simp add: readdir_fs_def initrd_code_def initrd_readdir_def FS_DIRECTORY_def node_name_def Let_def del: of_nat_Suc)
  then show ?thesis using d m3 by (intro exI conjI) (assumption, assumption, simp add: load32_store32_same, blast)
qed

lemma readdir_behind:
  assumes "initrd_ok lk v m files" and j: "length files < unat j"
  shows "readdir_fs (initrd_code lk v) (initrd_root v) j m = Some (0, m)"
proof -
  have n: "nroot_nodes v = of_nat (length files)" "length files < 2147483648"
    and root: "load32 m (node_flags (initrd_root v)) = FS_DIRECTORY"
      "load32 m (node_readdir (initrd_root v)) = fn_readdir lk" "fn_readdir lk \<noteq> 0"
    using assms(1) by (simp_all add: initrd_ok_def directory_ok_def)
  have "j \<noteq> 0" using j by auto
  then have "unat (j - 1) = unat j - 1" using unat_sub_nowrap [of 1 j] j by simp
  then have "j - 1 \<ge> nroot_nodes v" using j n by (simp add: word_le_nat_alt unat_of_nat_small)
  then show ?thesis
    using root \<open>j \<noteq> 0\<close> by (simp add: readdir_fs_def initrd_code_def initrd_readdir_def FS_DIRECTORY_def Let_def)
qed

subsection \<open>Building the structures\<close>

text \<open>
  An image at \<open>location\<close>: the number of files, their headers, whose offsets are relative to
  \<open>location\<close>, and the data, which overlaps no header.
\<close>

definition entry_ok :: "u32 \<Rightarrow> mem \<Rightarrow> nat \<Rightarrow> ramfile \<Rightarrow> bool" where
  "entry_ok location m i f =
     (let h = fh_at (location + 4) (of_nat i)
      in cstr m (fh_name h) (fst f) \<and> length (fst f) < 64 \<and> length (snd f) < 4294967296
         \<and> load32 m (fh_length h) = of_nat (length (snd f))
         \<and> bytes m (load32 m (fh_offset h) + location) (length (snd f)) = snd f)"

definition data_byte :: "u32 \<Rightarrow> mem \<Rightarrow> ramfile list \<Rightarrow> u32 \<Rightarrow> bool" where
  "data_byte location m files a \<longleftrightarrow> (\<exists>i<length files.
     within (load32 m (fh_offset (fh_at (location + 4) (of_nat i))) + location) (length (snd (files ! i))) a)"

definition image_ok :: "u32 \<Rightarrow> mem \<Rightarrow> ramfile list \<Rightarrow> bool" where
  "image_ok location m files \<longleftrightarrow> load32 m location = of_nat (length files)
     \<and> unat location + (4 + 76 * length files) < 4294967296
     \<and> (\<forall>i<length files. entry_ok location m i (files ! i))
     \<and> (\<forall>a. data_byte location m files a \<longrightarrow> \<not> within location (4 + 76 * length files) a)"

lemma element_within:
  assumes "i < n" "unat base + k * n < 4294967296" "within (base + of_nat (k * i)) k a"
  shows "within base (k * n) a"
proof -
  have "k * i + k \<le> k * n" using assms(1) by (metis Suc_leI mult_Suc_right add.commute mult_le_mono2)
  then show ?thesis
    using assms(2) by (intro within_field [OF assms(3)]) simp_all
qed

lemma elements_apart:
  assumes "i < n" "j < n" "i \<noteq> j" "unat base + k * n < 4294967296" "within (base + of_nat (k * i)) k a"
  shows "\<not> within (base + of_nat (k * j)) k a"
proof -
  have le: "k * i + k \<le> k * n" "k * j + k \<le> k * n"
    using assms(1,2) by (metis Suc_leI mult_Suc_right add.commute mult_le_mono2)+
  have u: "unat (base + of_nat (k * i)) = unat base + k * i" "unat (base + of_nat (k * j)) = unat base + k * j"
    using le assms(4) by (simp_all add: unat_add_of_nat del: of_nat_mult)
  have "k * i + k \<le> k * j \<or> k * j + k \<le> k * i"
    using assms(3) by (metis Suc_leI linorder_neqE_nat mult_Suc_right add.commute mult_le_mono2)
  then show ?thesis using assms(4,5) le u by (auto simp: within_nat)
qed

lemma at_nat: "node_at base (of_nat i) = base + of_nat (184 * i)" "fh_at base (of_nat i) = base + of_nat (76 * i)"
  by (simp_all add: node_at_def fh_at_def sizeof_fs_node_def)

lemma fill_file_fields:
  fixes lk :: initrd_link and i :: u32 and m :: mem
  assumes "apart n 184 h 76"
  defines "m' \<equiv> fill_file lk h i n m"
  shows "load32 m' (node_inode n) = i" "load32 m' (node_flags n) = FS_FILE" "load32 m' (node_read n) = fn_read lk"
    "load32 m' (node_length n) = load32 m (fh_length h)"
    "\<not> within (n + 128) 56 a \<Longrightarrow> m' a = m a"
proof -
  have len: "load32 (store32 (store32 (store32 m (n + 136) 0) (n + 132) 0) (n + 128) 0) (h + 72) = load32 m (h + 72)"
  proof (rule load32_cong)
    fix c assume "within (h + 72) 4 c"
    then have "within h 76 c" using within_field [of h 72 4 c 76] by simp
    then have "\<not> within n 184 c" using assms(1) by (auto simp: apart_iff)
    then have "\<not> within (n + 128) 4 c" "\<not> within (n + 132) 4 c" "\<not> within (n + 136) 4 c"
      using within_field [of n 128 4 c 184] within_field [of n 132 4 c 184] within_field [of n 136 4 c 184] by auto
    then show "store32 (store32 (store32 m (n + 136) 0) (n + 132) 0) (n + 128) 0 c = m c"
      by (simp add: store32_other)
  qed
  show "load32 m' (node_inode n) = i" "load32 m' (node_flags n) = FS_FILE" "load32 m' (node_read n) = fn_read lk"
    "load32 m' (node_length n) = load32 m (fh_length h)"
    by (simp_all add: m'_def fill_file_def Let_def layout_simps fh_length_def mem_simps apart_def len)
  show "m' a = m a" if out: "\<not> within (n + 128) 56 a"
  proof -
    have "\<not> within (n + 128 + of_nat j) 4 a" if "j \<le> 52" for j
      using out that within_field [of "n + 128" j 4 a 56] by auto
    from this [of 0] this [of 4] this [of 8] this [of 12] this [of 16] this [of 20] this [of 24]
      this [of 28] this [of 32] this [of 36] this [of 40] this [of 44] this [of 48]
    show ?thesis by (simp add: m'_def fill_file_def Let_def layout_simps store32_other add.commute)
  qed
qed

lemma fh_length_within:
  assumes "within (fh_length h) 4 c"
  shows "within h 76 c" "\<not> within (fh_offset h) 4 c"
  using assms within_field [of h 72 4 c 76] not_within_later [of "h + 68" 4 c 4 4]
  by (auto simp: fh_length_def fh_offset_def add.commute)

lemma make_node_step:
  fixes i :: nat and v :: initrd_vars
  defines "h \<equiv> fh_at (file_headers v) (of_nat i)" and "n \<equiv> node_at (root_nodes v) (of_nat i)"
  assumes name: "cstr m (fh_name h) nm" "length nm < 64" and zero: "\<And>a. within n 184 a \<Longrightarrow> m a = 0"
    and ap: "apart n 184 h 76"
  shows "\<exists>m'. make_node lk v location (of_nat i) m = Some m'
    \<and> (\<forall>a. \<not> within n 184 a \<longrightarrow> \<not> within (fh_offset h) 4 a \<longrightarrow> m' a = m a)
    \<and> cstr m' n nm \<and> load32 m' (node_inode n) = of_nat i \<and> load32 m' (node_flags n) = FS_FILE
    \<and> load32 m' (node_read n) = fn_read lk \<and> load32 m' (node_length n) = load32 m (fh_length h)
    \<and> load32 m' (fh_offset h) = load32 m (fh_offset h) + location"
proof -
  let ?m1 = "store32 m (fh_offset h) (load32 m (fh_offset h) + location)"
  let ?m2 = "copy_bytes n (fh_name h) (length nm) ?m1" let ?m3 = "fill_file lk h (of_nat i) n ?m2"
  have hn: "\<not> within n 184 a" if "within h 76 a" for a using that ap by (auto simp: apart_iff)
  have off: "within h 76 a" if "within (fh_offset h) 4 a" for a
    using within_field [of h 68 4 a 76] that by (simp add: fh_offset_def)
  have nameh: "within h 76 a" "\<not> within (fh_offset h) 4 a" if "within (fh_name h) 64 a" for a
    using within_field [of h 1 64 a 76] that not_within_later [of "h + 1" 64 a 67 4]
    by (simp_all add: fh_name_def fh_offset_def add.assoc)
  have c1: "cstr ?m1 (fh_name h) nm"
    by (rule cstr_cong_within [OF name(1,2)]) (simp_all add: nameh store32_other)
  have "apart n 64 (fh_name h) 64"
    using hn nameh(1) within_mono [of n 64 _ 184] by (intro apartI) auto
  then have apn: "apart n (length nm) (fh_name h) (length nm)" by (rule apart_mono) (use name(2) in auto)
  have run: "make_node lk v location (of_nat i) m = Some ?m3"
    using strcpy_cstr [OF c1 apn] by (simp add: make_node_def Let_def h_def n_def node_name_def)
  have m2: "?m2 a = ?m1 a" if "\<not> within n 64 a" for a
    using that name(2) within_mono [of n "length nm" a 64] by (auto simp: copy_bytes_def)
  note f = fill_file_fields [OF ap, where lk = lk and i = "of_nat i" and m = ?m2]
  have m3: "?m3 a = ?m1 a" if "\<not> within n 184 a" for a
  proof -
    have "\<not> within n 64 a" "\<not> within (n + 128) 56 a"
      using that within_mono [of n 64 a 184] within_field [of n 128 56 a 184] by auto
    then show ?thesis using f(5) m2 by simp
  qed
  have frame: "?m3 a = m a" if "\<not> within n 184 a" "\<not> within (fh_offset h) 4 a" for a
    using m3 [OF that(1)] that(2) by (simp add: store32_other)
  have low: "?m3 a = ?m2 a" if "within n 64 a" for a
    using not_within_later [of n 64 a 128 56] that by (intro f(5)) simp
  have "cstr ?m3 n nm"
  proof (rule cstrI)
    show "0 \<notin> set nm" "length nm < 2147483647" using name by (simp_all add: cstr_def)
    have "bytes ?m3 n (length nm) = bytes ?m2 n (length nm)"
      using name(2) low within_mono [of n "length nm" _ 64] by (intro bytes_cong) auto
    also have "\<dots> = bytes ?m1 (fh_name h) (length nm)" using name(2) by (intro bytes_copy_bytes) simp
    finally show "bytes ?m3 n (length nm) = nm" using cstr_bytes [OF c1] by simp
    let ?e = "n + of_nat (length nm)"
    have e: "within n 64 ?e" "within n 184 ?e" "\<not> within n (length nm) ?e"
      using name(2) by (simp_all add: within_add_of_nat not_within_end)
    have "\<not> within (fh_offset h) 4 ?e" using e(2) hn off by blast
    then have "?m3 ?e = 0" using low [OF e(1)] e(3) zero [OF e(2)] by (simp add: copy_bytes_def store32_other)
    then show "load8 ?m3 ?e = 0" by (simp add: load8_def)
  qed
  moreover have "load32 ?m3 (fh_offset h) = load32 ?m1 (fh_offset h)"
    by (rule load32_cong) (use m3 hn off in blast)
  moreover have "load32 ?m2 (fh_length h) = load32 m (fh_length h)"
  proof (rule load32_cong)
    fix c assume c: "within (fh_length h) 4 c"
    note w = fh_length_within [OF c]
    have "\<not> within n 64 c" using hn [OF w(1)] within_mono [of n 64 c 184] by auto
    then show "?m2 c = m c" using m2 w(2) by (simp add: store32_other)
  qed
  ultimately show ?thesis
    using run frame f(1-4) by (intro exI [of _ ?m3] conjI) (simp_all add: load32_store32_same)
qed

text \<open>An entry that has not been worked on yet; \<open>d\<close> is the address its data will have.\<close>

definition raw_ok :: "u32 \<Rightarrow> u32 \<Rightarrow> mem \<Rightarrow> ramfile \<Rightarrow> u32 \<Rightarrow> bool" where
  "raw_ok location h m f d \<longleftrightarrow> cstr m (fh_name h) (fst f) \<and> length (fst f) < 64 \<and> length (snd f) < 4294967296
     \<and> load32 m (fh_length h) = of_nat (length (snd f)) \<and> load32 m (fh_offset h) + location = d
     \<and> bytes m d (length (snd f)) = snd f"

lemma raw_ok_frame:
  assumes ok: "raw_ok location h m f d" and h: "\<And>a. within h 76 a \<Longrightarrow> m' a = m a"
    and d: "\<And>a. within d (length (snd f)) a \<Longrightarrow> m' a = m a"
  shows "raw_ok location h m' f d"
proof -
  have "cstr m' (fh_name h) (fst f)"
    by (rule cstr_cong_within [of m _ _ 64])
      (use ok h within_field [of h 1 64 _ 76] in \<open>auto simp: raw_ok_def fh_name_def\<close>)
  moreover have "load32 m' (fh_length h) = load32 m (fh_length h)" "load32 m' (fh_offset h) = load32 m (fh_offset h)"
    using load32_field [of h 76 m' m 72] load32_field [of h 76 m' m 68] h by (simp_all add: fh_length_def fh_offset_def)
  moreover have "bytes m' d (length (snd f)) = bytes m d (length (snd f))"
    by (rule bytes_cong) (use ok d in \<open>auto simp: raw_ok_def\<close>)
  ultimately show ?thesis using ok by (simp add: raw_ok_def)
qed

text \<open>The elements of the two tables: inside their table, and apart from each other.\<close>

definition tables_apart :: "initrd_vars \<Rightarrow> nat \<Rightarrow> bool" where
  "tables_apart v n \<longleftrightarrow> unat (file_headers v) + 76 * n < 4294967296 \<and> unat (root_nodes v) + 184 * n < 4294967296
     \<and> (\<forall>a. within (root_nodes v) (184 * n) a \<longrightarrow> \<not> within (file_headers v) (76 * n) a)"

lemma tables_inside:
  assumes t: "tables_apart v n" and j: "j < n"
  shows "within (node_at (root_nodes v) (of_nat j)) 184 a \<Longrightarrow> within (root_nodes v) (184 * n) a"
    and "within (fh_at (file_headers v) (of_nat j)) 76 a \<Longrightarrow> within (file_headers v) (76 * n) a"
    and "within (fh_offset (fh_at (file_headers v) (of_nat j))) 4 a \<Longrightarrow> within (fh_at (file_headers v) (of_nat j)) 76 a"
  using t element_within [OF j, of "root_nodes v" 184 a] element_within [OF j, of "file_headers v" 76 a]
    within_field [of "fh_at (file_headers v) (of_nat j)" 68 4 a 76]
  by (simp_all add: tables_apart_def at_nat fh_offset_def del: of_nat_mult)

lemma tables_disjoint:
  assumes t: "tables_apart v n" and jk: "j < n" "k < n"
  shows "j \<noteq> k \<Longrightarrow> within (node_at (root_nodes v) (of_nat j)) 184 a \<Longrightarrow> \<not> within (node_at (root_nodes v) (of_nat k)) 184 a"
    and "j \<noteq> k \<Longrightarrow> within (fh_at (file_headers v) (of_nat j)) 76 a \<Longrightarrow> \<not> within (fh_at (file_headers v) (of_nat k)) 76 a"
    and "within (node_at (root_nodes v) (of_nat j)) 184 a \<Longrightarrow> \<not> within (fh_at (file_headers v) (of_nat k)) 76 a"
proof -
  show "j \<noteq> k \<Longrightarrow> within (node_at (root_nodes v) (of_nat j)) 184 a \<Longrightarrow> \<not> within (node_at (root_nodes v) (of_nat k)) 184 a"
    "j \<noteq> k \<Longrightarrow> within (fh_at (file_headers v) (of_nat j)) 76 a \<Longrightarrow> \<not> within (fh_at (file_headers v) (of_nat k)) 76 a"
    using t elements_apart [OF jk, of "root_nodes v" 184 a] elements_apart [OF jk, of "file_headers v" 76 a]
    by (simp_all add: tables_apart_def at_nat del: of_nat_mult)
  show "within (node_at (root_nodes v) (of_nat j)) 184 a \<Longrightarrow> \<not> within (fh_at (file_headers v) (of_nat k)) 76 a"
    using t tables_inside(1) [OF t jk(1)] tables_inside(2) [OF t jk(2)] by (auto simp: tables_apart_def)
qed

text \<open>
  A node made in \<open>m1\<close> from a header still raw in \<open>m\<close> describes the file in every later memory
  that keeps the node, the header and the data.
\<close>

lemma made_node_ok:
  fixes i :: nat and v :: initrd_vars
  defines "h \<equiv> fh_at (file_headers v) (of_nat i)" and "n \<equiv> node_at (root_nodes v) (of_nat i)"
  assumes raw: "raw_ok location h m f d" and r: "fn_read lk = r"
    and made: "cstr m1 n (fst f)" "load32 m1 (node_inode n) = of_nat i" "load32 m1 (node_flags n) = FS_FILE"
      "load32 m1 (node_read n) = fn_read lk" "load32 m1 (node_length n) = load32 m (fh_length h)"
      "load32 m1 (fh_offset h) = load32 m (fh_offset h) + location"
    and keeps: "\<And>a. within n 184 a \<or> within h 76 a \<Longrightarrow> m' a = m1 a"
      "\<And>a. within h 76 a \<Longrightarrow> \<not> within (fh_offset h) 4 a \<Longrightarrow> m1 a = m a"
      "\<And>a. within d (length (snd f)) a \<Longrightarrow> m' a = m a"
  shows "file_ok lk v m' i f" "load32 m' (fh_offset h) = d"
proof -
  have word: "load32 m' (n + of_nat k) = load32 m1 (n + of_nat k)" if "k \<le> 180" for k
    using that by (intro load32_field [of n 184]) (auto intro: keeps(1))
  have "cstr m' n (fst f)"
    by (rule cstr_cong_within [OF made(1), of 184]) (use raw keeps(1) in \<open>auto simp: raw_ok_def\<close>)
  moreover have "load32 m' (fh_length h) = load32 m (fh_length h)"
  proof (rule load32_cong)
    fix c assume "within (fh_length h) 4 c"
    from fh_length_within [OF this] show "m' c = m c" using keeps(1,2) by metis
  qed
  moreover show "load32 m' (fh_offset h) = d"
    using load32_field [of h 76 m' m1 68] keeps(1) made(6) raw by (simp add: fh_offset_def raw_ok_def)
  moreover have "bytes m' d (length (snd f)) = bytes m d (length (snd f))"
    by (rule bytes_cong) (use raw keeps(3) in \<open>auto simp: raw_ok_def\<close>)
  ultimately show "file_ok lk v m' i f"
    using made raw word [of 140] word [of 144] word [of 148] word [of 156] unfolding n_def h_def
    by (simp add: file_ok_def Let_def raw_ok_def layout_simps)
qed

lemma make_nodes_fill:
  fixes v :: initrd_vars and files :: "ramfile list" and D :: "nat \<Rightarrow> u32"
  defines "n \<equiv> length files" and "N \<equiv> (\<lambda>j. node_at (root_nodes v) (of_nat j))"
    and "H \<equiv> (\<lambda>j. fh_at (file_headers v) (of_nat j))"
  assumes v: "nroot_nodes v = of_nat n" "n < 2147483648" "fn_read lk = r" and t: "tables_apart v n"
    and data: "\<And>j a. j < n \<Longrightarrow> within (D j) (length (snd (files ! j))) a \<Longrightarrow>
      \<not> within (file_headers v) (76 * n) a \<and> \<not> within (root_nodes v) (184 * n) a"
  shows "i \<le> n \<Longrightarrow> (\<And>j. i \<le> j \<Longrightarrow> j < n \<Longrightarrow> raw_ok location (H j) m (files ! j) (D j)) \<Longrightarrow>
    (\<And>j a. i \<le> j \<Longrightarrow> j < n \<Longrightarrow> within (N j) 184 a \<Longrightarrow> m a = 0) \<Longrightarrow>
    \<exists>m'. make_nodes lk v location (of_nat i) m = Some m'
      \<and> (\<forall>j. i \<le> j \<longrightarrow> j < n \<longrightarrow> file_ok lk v m' j (files ! j) \<and> load32 m' (fh_offset (H j)) = D j)
      \<and> (\<forall>a. \<not> within (root_nodes v) (184 * n) a \<longrightarrow> \<not> within (file_headers v) (76 * n) a \<longrightarrow> m' a = m a)
      \<and> (\<forall>j<i. \<forall>a. within (N j) 184 a \<or> within (H j) 76 a \<longrightarrow> m' a = m a)"
proof (induction "n - i" arbitrary: i m)
  case 0
  then have "i = n" by simp
  then show ?case using v by (subst make_nodes.simps) (simp add: sint_of_nat)
next
  case (Suc d)
  then have i: "i < n" by simp
  have NH: "node_at (root_nodes v) (of_nat j) = N j" "fh_at (file_headers v) (of_nat j) = H j" for j
    by (simp_all add: N_def H_def)
  note inside = tables_inside [OF t, unfolded NH] and dis = tables_disjoint [OF t, unfolded NH]
  have raw: "raw_ok location (H i) m (files ! i) (D i)" using Suc.prems(2) i by simp
  have ap: "apart (N i) 184 (H i) 76" using dis(3) [OF i i] by (intro apartI) blast
  obtain m1 where m1: "make_node lk v location (of_nat i) m = Some m1"
    and fr: "\<And>a. \<not> within (N i) 184 a \<Longrightarrow> \<not> within (fh_offset (H i)) 4 a \<Longrightarrow> m1 a = m a"
    and f1: "cstr m1 (N i) (fst (files ! i))" "load32 m1 (node_inode (N i)) = of_nat i"
      "load32 m1 (node_flags (N i)) = FS_FILE" "load32 m1 (node_read (N i)) = fn_read lk"
      "load32 m1 (node_length (N i)) = load32 m (fh_length (H i))"
      "load32 m1 (fh_offset (H i)) = load32 m (fh_offset (H i)) + location"
    using make_node_step [of m v i "fst (files ! i)" lk location] raw Suc.prems(3) [of i] i ap
    unfolding N_def H_def raw_ok_def by blast
  have later: "m1 a = m a" if "j < n" "j \<noteq> i" "within (N j) 184 a \<or> within (H j) 76 a" for j a
    using that i dis [of j i a] dis(3) [of i j a] inside(3) [of i a] by (intro fr) auto
  have D1: "m1 a = m a" if "j < n" "within (D j) (length (snd (files ! j))) a" for j a
    using data [OF that] inside [OF i, of a] fr [of a] by auto
  have "raw_ok location (H j) m1 (files ! j) (D j)" if "Suc i \<le> j" "j < n" for j
    by (rule raw_ok_frame [OF Suc.prems(2)]) (use that later [of j] D1 [of j] in auto)
  moreover have "m1 a = 0" if "Suc i \<le> j" "j < n" "within (N j) 184 a" for j a
    using that later Suc.prems(3) [of j a] by auto
  moreover have "d = n - Suc i" "Suc i \<le> n" using Suc.hyps(2) i by simp_all
  ultimately obtain m' where m': "make_nodes lk v location (of_nat (Suc i)) m1 = Some m'"
    and ok: "\<And>j. Suc i \<le> j \<Longrightarrow> j < n \<Longrightarrow> file_ok lk v m' j (files ! j) \<and> load32 m' (fh_offset (H j)) = D j"
    and out: "\<And>a. \<not> within (root_nodes v) (184 * n) a \<Longrightarrow> \<not> within (file_headers v) (76 * n) a \<Longrightarrow> m' a = m1 a"
    and low: "\<And>j a. j < Suc i \<Longrightarrow> within (N j) 184 a \<or> within (H j) 76 a \<Longrightarrow> m' a = m1 a"
    using Suc.hyps(1) [of "Suc i" m1] by blast
  have "file_ok lk v m' i (files ! i)" "load32 m' (fh_offset (H i)) = D i"
    using made_node_ok [of location v i m "files ! i" "D i" lk r m1 m', unfolded NH] raw v(3) f1
      low [of i] fr dis(3) [OF i i] out data [OF i] D1 [OF i] by auto
  then have all: "file_ok lk v m' j (files ! j) \<and> load32 m' (fh_offset (H j)) = D j" if "i \<le> j" "j < n" for j
    using ok [of j] that by (cases "j = i") auto
  have run: "make_nodes lk v location (of_nat i) m = Some m'"
    using m1 m' i v by (subst make_nodes.simps) (simp add: sint_of_nat add.commute)
  have outside: "m' a = m a"
    if "\<not> within (root_nodes v) (184 * n) a" "\<not> within (file_headers v) (76 * n) a" for a
    using out [OF that] fr [of a] inside [OF i, of a] that by auto
  have below: "m' a = m a" if "j < i" "within (N j) 184 a \<or> within (H j) 76 a" for j a
    using low [of j a] later [of j a] that i by auto
  show ?case using run all outside below by blast
qed

text \<open>An image is one of equal memories as well, and a loop over its headers makes the nodes of its files.\<close>

lemma image_header_within:
  assumes "i < n" "unat location + (4 + 76 * n) < 4294967296" "within (fh_at (location + 4) (of_nat i)) 76 a"
  shows "within location (4 + 76 * n) a"
proof -
  have "unat (location + 4) = unat location + 4" using assms(2) by (intro unat_add_numeral_nowrap) simp
  then have "within (location + 4) (76 * n) a"
    using element_within [OF assms(1), of "location + 4" 76 a] assms(2,3) by (simp add: at_nat del: of_nat_mult)
  then show ?thesis using within_field [of location 4 "76 * n" a "4 + 76 * n"] assms(2) by simp
qed

lemma image_ok_cong:
  assumes image: "image_ok location m files"
    and eq: "\<And>a. within location (4 + 76 * length files) a \<or> data_byte location m files a \<Longrightarrow> m' a = m a"
  shows "image_ok location m' files" "data_byte location m' files = data_byte location m files"
    and "i < length files \<Longrightarrow> load32 m' (fh_offset (fh_at (location + 4) (of_nat i)))
      = load32 m (fh_offset (fh_at (location + 4) (of_nat i)))"
proof -
  let ?n = "length files" and ?h = "\<lambda>i. fh_at (location + 4) (of_nat i)"
  have im: "load32 m location = of_nat ?n" "unat location + (4 + 76 * ?n) < 4294967296"
    "\<And>i. i < ?n \<Longrightarrow> entry_ok location m i (files ! i)"
    "\<And>a. data_byte location m files a \<Longrightarrow> \<not> within location (4 + 76 * ?n) a"
    using image by (simp_all add: image_ok_def)
  have hd: "m' a = m a" if "i < ?n" "within (?h i) 76 a" for i a
    using image_header_within [OF that(1) im(2) that(2)] eq by blast
  have off: "load32 m' (fh_offset (?h i)) = load32 m (fh_offset (?h i))" if "i < ?n" for i
    using load32_field [of "?h i" 76 m' m 68] hd [OF that] by (simp add: fh_offset_def)
  then show "i < length files \<Longrightarrow> load32 m' (fh_offset (?h i)) = load32 m (fh_offset (?h i))" .
  show db: "data_byte location m' files = data_byte location m files" by (auto simp: fun_eq_iff data_byte_def off)
  have "load32 m' location = load32 m location"
    by (rule load32_cong) (use eq within_mono [of location 4 _ "4 + 76 * ?n"] in auto)
  moreover have "entry_ok location m' i (files ! i)" if i: "i < ?n" for i
  proof -
    have "raw_ok location (?h i) m (files ! i) (load32 m (fh_offset (?h i)) + location)"
      using im(3) [OF i] by (simp add: entry_ok_def raw_ok_def Let_def)
    then have "raw_ok location (?h i) m' (files ! i) (load32 m (fh_offset (?h i)) + location)"
      by (rule raw_ok_frame) (use hd [OF i] eq i in \<open>auto simp: data_byte_def\<close>)
    then show ?thesis by (simp add: entry_ok_def raw_ok_def Let_def off [OF i])
  qed
  ultimately show "image_ok location m' files" using im by (simp add: image_ok_def db)
qed

lemma make_nodes_image:
  assumes image: "image_ok location m files"
    and nodes: "unat (root_nodes v) + 184 * length files < 4294967296"
      "\<And>a. within (root_nodes v) (184 * length files) a \<Longrightarrow>
        m a = 0 \<and> \<not> within location (4 + 76 * length files) a \<and> \<not> data_byte location m files a"
    and v: "file_headers v = location + 4" "nroot_nodes v = of_nat (length files)"
  obtains m' where "make_nodes lk v location 0 m = Some m'"
    "\<And>j. j < length files \<Longrightarrow> file_ok lk v m' j (files ! j)
      \<and> load32 m' (fh_offset (fh_at (location + 4) (of_nat j))) = load32 m (fh_offset (fh_at (location + 4) (of_nat j))) + location"
    "\<And>a. \<not> within (root_nodes v) (184 * length files) a \<Longrightarrow> \<not> within location (4 + 76 * length files) a \<Longrightarrow> m' a = m a"
proof -
  let ?n = "length files"
  define D where "D j = load32 m (fh_offset (fh_at (location + 4) (of_nat j))) + location" for j :: nat
  have im: "unat location + (4 + 76 * ?n) < 4294967296" "\<And>i. i < ?n \<Longrightarrow> entry_ok location m i (files ! i)"
    "\<And>a. data_byte location m files a \<Longrightarrow> \<not> within location (4 + 76 * ?n) a"
    using image by (simp_all add: image_ok_def)
  have u4: "unat (location + 4) = unat location + 4" using im(1) by (intro unat_add_numeral_nowrap) simp
  have hd: "within location (4 + 76 * ?n) a" if "within (file_headers v) (76 * ?n) a" for a
    using that within_field [of location 4 "76 * ?n" a "4 + 76 * ?n"] im(1) by (simp add: v)
  have apart: "tables_apart v ?n" using im(1) nodes u4 hd by (auto simp: tables_apart_def v)
  have data: "\<not> within (file_headers v) (76 * ?n) a \<and> \<not> within (root_nodes v) (184 * ?n) a"
    if "j < ?n" "within (D j) (length (snd (files ! j))) a" for j a
    using that im(3) nodes(2) hd by (fastforce simp: data_byte_def D_def)
  have raw: "raw_ok location (fh_at (file_headers v) (of_nat j)) m (files ! j) (D j)" if "j < ?n" for j
    using im(2) [OF that] by (simp add: entry_ok_def raw_ok_def D_def Let_def v)
  have zero: "m a = 0" if "j < ?n" "within (node_at (root_nodes v) (of_nat j)) 184 a" for j a
    using nodes(2) tables_inside(1) [OF apart that] by blast
  have "\<exists>m'. make_nodes lk v location (of_nat 0) m = Some m'
      \<and> (\<forall>j. 0 \<le> j \<longrightarrow> j < ?n \<longrightarrow> file_ok lk v m' j (files ! j) \<and> load32 m' (fh_offset (fh_at (file_headers v) (of_nat j))) = D j)
      \<and> (\<forall>a. \<not> within (root_nodes v) (184 * ?n) a \<longrightarrow> \<not> within (file_headers v) (76 * ?n) a \<longrightarrow> m' a = m a)
      \<and> (\<forall>j<0. \<forall>a. within (node_at (root_nodes v) (of_nat j)) 184 a \<or> within (fh_at (file_headers v) (of_nat j)) 76 a
           \<longrightarrow> m' a = m a)"
    by (rule make_nodes_fill [where r = "fn_read lk"]) (use im(1) v apart data raw zero in auto)
  then show thesis using that hd unfolding v D_def by auto
qed

lemma fill_directory_ok:
  fixes lk :: initrd_link and m :: mem and n :: u32
  defines "m' \<equiv> fill_directory lk n m"
  shows "directory_ok lk m' n" "\<not> within (n + 128) 56 a \<Longrightarrow> m' a = m a"
proof -
  show "directory_ok lk m' n"
    by (simp add: m'_def directory_ok_def fill_directory_def Let_def layout_simps mem_simps apart_def)
  show "m' a = m a" if out: "\<not> within (n + 128) 56 a"
  proof -
    have "\<not> within (n + 128 + of_nat j) 4 a" if "j \<le> 52" for j
      using out that within_field [of "n + 128" j 4 a 56] by auto
    from this [of 0] this [of 4] this [of 8] this [of 12] this [of 16] this [of 20] this [of 24]
      this [of 28] this [of 32] this [of 36] this [of 40] this [of 44] this [of 48] this [of 52]
    show ?thesis by (simp add: m'_def fill_directory_def Let_def layout_simps store32_other add.commute)
  qed
qed

lemma directory_ok_frame:
  assumes "directory_ok lk m n" "\<And>a. within n 184 a \<Longrightarrow> m' a = m a"
  shows "directory_ok lk m' n"
  using assms(1) load32_field [of n 184 m' m, OF assms(2), of 140] load32_field [of n 184 m' m, OF assms(2), of 172]
    load32_field [of n 184 m' m, OF assms(2), of 176]
  by (simp add: directory_ok_def layout_simps)

context block_source
begin

lemma directory_step:
  assumes rd: "ready b used s" "224 \<le> b" and lit: "cstr (memory s) l nm" "length nm < 128"
    and used: "\<And>x. within l (Suc (length nm)) x \<Longrightarrow> used x"
  obtains n s1 m where "mk sizeof_fs_node s = Some (n, s1)" "strcpy (node_name n) l (memory s1) = Some (n, m)"
    "directory_ok lk (fill_directory lk n m) n"
    "ready (b - 224) (\<lambda>x. used x \<or> within n 184 x) (s1\<lparr>memory := fill_directory lk n m\<rparr>)"
    "\<And>x. used x \<Longrightarrow> fill_directory lk n m x = memory s x" "\<And>x. within n 184 x \<Longrightarrow> \<not> used x"
proof -
  obtain n s1 where mk: "mk sizeof_fs_node s = Some (n, s1)"
    and fresh: "\<And>x. within n 184 x \<Longrightarrow> \<not> used x" and same: "\<And>x. used x \<Longrightarrow> memory s1 x = memory s x"
    and rd1: "ready (b - 224) (\<lambda>x. used x \<or> within n 184 x) s1"
    using gives [OF rd(1), of sizeof_fs_node] rd(2) by (auto simp: sizeof_fs_node_def)
  have c: "cstr (memory s1) l nm"
    by (rule cstr_cong_within [OF lit(1), of "Suc (length nm)"]) (use lit in \<open>simp_all add: used same\<close>)
  have ap: "apart n (length nm) l (length nm)"
  proof (rule apartI)
    fix c assume "within n (length nm) c" "within l (length nm) c"
    then have "within n 184 c" "within l (Suc (length nm)) c" using lit(2) by (auto elim: within_mono)
    then show False using fresh used by blast
  qed
  let ?m = "copy_bytes n l (length nm) (memory s1)"
  have cp: "strcpy (node_name n) l (memory s1) = Some (n, ?m)"
    using strcpy_cstr [OF c ap] by (simp add: node_name_def)
  have fr: "fill_directory lk n ?m x = memory s1 x" if "\<not> within n 184 x" for x
  proof -
    have "\<not> within (n + 128) 56 x" "\<not> within n (length nm) x"
      using that within_field [of n 128 56 x 184] within_mono [of n "length nm" x 184] lit(2) by auto
    then show ?thesis by (simp add: fill_directory_ok copy_bytes_def)
  qed
  have old: "fill_directory lk n ?m x = memory s x" if "used x" for x
    using fr [of x] same [OF that] fresh [of x] that by auto
  have "ready (b - 224) (\<lambda>x. used x \<or> within n 184 x) (s1\<lparr>memory := fill_directory lk n ?m\<rparr>)"
    by (rule keeps [OF rd1]) (use fr in auto)
  from that [OF mk cp fill_directory_ok(1) this old fresh] show thesis .
qed

lemma two_directories:
  assumes rd: "ready b used s" "448 \<le> b"
    and lits: "cstr (memory s) (lit_initrd lk) ini" "length ini < 128" "cstr (memory s) (lit_dev lk) dev_name"
    and used: "\<And>a. within (lit_initrd lk) (Suc (length ini)) a \<Longrightarrow> used a" "\<And>a. within (lit_dev lk) 4 a \<Longrightarrow> used a"
  obtains root s1 m1 dev s2 m2 m3 where "mk sizeof_fs_node s = Some (root, s1)"
    "strcpy (node_name root) (lit_initrd lk) (memory s1) = Some (root, m1)"
    "mk sizeof_fs_node (s1\<lparr>memory := fill_directory lk root m1\<rparr>) = Some (dev, s2)"
    "strcpy (node_name dev) (lit_dev lk) (memory s2) = Some (dev, m2)" "m3 = fill_directory lk dev m2"
    "directory_ok lk m3 root" "directory_ok lk m3 dev"
    "ready (b - 448) (\<lambda>x. (used x \<or> within root 184 x) \<or> within dev 184 x) (s2\<lparr>memory := m3\<rparr>)"
    "\<And>x. used x \<Longrightarrow> m3 x = memory s x \<and> \<not> within root 184 x \<and> \<not> within dev 184 x"
proof -
  obtain root s1 m1 where r: "mk sizeof_fs_node s = Some (root, s1)"
      "strcpy (node_name root) (lit_initrd lk) (memory s1) = Some (root, m1)"
      "directory_ok lk (fill_directory lk root m1) root"
      "ready (b - 224) (\<lambda>x. used x \<or> within root 184 x) (s1\<lparr>memory := fill_directory lk root m1\<rparr>)"
      "\<And>x. used x \<Longrightarrow> fill_directory lk root m1 x = memory s x" "\<And>x. within root 184 x \<Longrightarrow> \<not> used x"
    by (rule directory_step [OF rd(1) _ lits(1,2) used(1)]) (use rd(2) in auto)
  let ?u1 = "\<lambda>x. used x \<or> within root 184 x" let ?s1 = "s1\<lparr>memory := fill_directory lk root m1\<rparr>"
  have dev1: "cstr (memory ?s1) (lit_dev lk) dev_name"
    by (rule cstr_cong_within [OF lits(3), of 4]) (use used(2) r(5) in \<open>auto simp: dev_name_def\<close>)
  have dl: "Suc (length dev_name) = 4" "length dev_name < 128" by (simp_all add: dev_name_def)
  obtain dev s2 m2 where d: "mk sizeof_fs_node ?s1 = Some (dev, s2)"
      "strcpy (node_name dev) (lit_dev lk) (memory s2) = Some (dev, m2)"
      "directory_ok lk (fill_directory lk dev m2) dev"
      "ready (b - 448) (\<lambda>x. ?u1 x \<or> within dev 184 x) (s2\<lparr>memory := fill_directory lk dev m2\<rparr>)"
      "\<And>x. ?u1 x \<Longrightarrow> fill_directory lk dev m2 x = memory ?s1 x" "\<And>x. within dev 184 x \<Longrightarrow> \<not> ?u1 x"
    by (rule directory_step [OF r(4) _ dev1]) (use rd(2) used(2) dl in auto)
  have "directory_ok lk (fill_directory lk dev m2) root" by (rule directory_ok_frame [OF r(3)]) (use d(5) in simp)
  moreover have "fill_directory lk dev m2 x = memory s x \<and> \<not> within root 184 x \<and> \<not> within dev 184 x" if "used x" for x
    using d(5) [of x] r(5) [OF that] r(6) [of x] d(6) [of x] that by auto
  ultimately show thesis using that [OF r(1,2) d(1,2) refl _ d(3) d(4)] by blast
qed

lemma initialise_builds:
  assumes rd: "ready b used s" "488 + 184 * length files \<le> b" "184 * length files < 4294967296"
    and image: "image_ok location (memory s) files"
    and used: "\<And>a. within location (4 + 76 * length files) a \<Longrightarrow> used a"
      "\<And>a. data_byte location (memory s) files a \<Longrightarrow> used a"
      "\<And>a. within (lit_initrd lk) (Suc (length ini)) a \<Longrightarrow> used a" "\<And>a. within (lit_dev lk) 4 a \<Longrightarrow> used a"
    and lits: "cstr (memory s) (lit_initrd lk) ini" "length ini < 128" "cstr (memory s) (lit_dev lk) dev_name"
      "\<And>a. within (lit_dev lk) 4 a \<Longrightarrow> \<not> within location (4 + 76 * length files) a"
    and fns: "fn_read lk \<noteq> 0" "fn_readdir lk \<noteq> 0" "fn_finddir lk \<noteq> 0"
  shows "\<exists>v s'. initialise_initrd mk lk location s = Some (initrd_root v, v, s') \<and> initrd_ok lk v (memory s') files
    \<and> (\<forall>a. initrd_byte lk v (memory s') files a \<longrightarrow> used a \<longrightarrow>
         within location (4 + 76 * length files) a \<or> data_byte location (memory s) files a \<or> within (lit_dev lk) 4 a)
    \<and> (\<forall>a. used a \<longrightarrow> \<not> within location (4 + 76 * length files) a \<longrightarrow> memory s' a = memory s a)
    \<and> file_headers v = location + 4
    \<and> (\<forall>j<length files. load32 (memory s') (fh_offset (fh_at (location + 4) (of_nat j)))
         = load32 (memory s) (fh_offset (fh_at (location + 4) (of_nat j))) + location)"
proof -
  let ?n = "length files" and ?off = "\<lambda>j. fh_offset (fh_at (location + 4) (of_nat j))"
  obtain root s1 m1 dev s2 m2 m3 where d: "mk sizeof_fs_node s = Some (root, s1)"
    "strcpy (node_name root) (lit_initrd lk) (memory s1) = Some (root, m1)"
    "mk sizeof_fs_node (s1\<lparr>memory := fill_directory lk root m1\<rparr>) = Some (dev, s2)"
    "strcpy (node_name dev) (lit_dev lk) (memory s2) = Some (dev, m2)" "m3 = fill_directory lk dev m2"
    and ok3: "directory_ok lk m3 root" "directory_ok lk m3 dev"
    and rd3: "ready (b - 448) (\<lambda>x. (used x \<or> within root 184 x) \<or> within dev 184 x) (s2\<lparr>memory := m3\<rparr>)"
    and same3: "\<And>x. used x \<Longrightarrow> m3 x = memory s x \<and> \<not> within root 184 x \<and> \<not> within dev 184 x"
    by (rule two_directories [OF rd(1) _ lits(1-3) used(3,4)], (use rd(2) in simp), blast+)
  let ?u = "\<lambda>x. (used x \<or> within root 184 x) \<or> within dev 184 x"
  have sz: "unat (sizeof_fs_node * of_nat ?n) = 184 * ?n"
    using unat_of_nat_small [OF rd(3)] by (simp add: sizeof_fs_node_def)
  have fit: "unat (sizeof_fs_node * of_nat ?n) + 40 \<le> b - 448" using rd(2) sz by linarith
  obtain nodes s3 where k: "mk (sizeof_fs_node * of_nat ?n) (s2\<lparr>memory := m3\<rparr>) = Some (nodes, s3)"
      "unat nodes + 184 * ?n < 4294967296" "\<And>x. within nodes (184 * ?n) x \<Longrightarrow> \<not> ?u x \<and> memory s3 x = 0"
      "\<And>x. ?u x \<Longrightarrow> memory s3 x = m3 x"
    using gives [OF rd3 fit] unfolding sz by (elim exE conjE) (rule that, auto)
  have eq: "memory s3 x = memory s x" "m3 x = memory s x"
    if "within location (4 + 76 * ?n) x \<or> data_byte location (memory s) files x" for x
    using that used(1,2) same3 k(4) by auto
  have im3: "image_ok location (memory s3) files" "data_byte location (memory s3) files = data_byte location (memory s) files"
    "\<And>j. j < ?n \<Longrightarrow> load32 (memory s3) (?off j) = load32 (memory s) (?off j)" and imd: "image_ok location m3 files"
    using image_ok_cong [OF image, of "memory s3"] image_ok_cong(1) [OF image, of m3] eq by blast+
  have n3: "load32 (memory s3) location = of_nat ?n" "load32 m3 location = of_nat ?n"
    using im3(1) imd by (simp_all add: image_ok_def)
  define v where "v = \<lparr>initrd_header = location, file_headers = location + 4, initrd_root = root,
    initrd_dev = dev, root_nodes = nodes, nroot_nodes = of_nat ?n\<rparr>"
  have vs: "file_headers v = location + 4" "root_nodes v = nodes" "nroot_nodes v = of_nat ?n"
    "initrd_root v = root" "initrd_dev v = dev" by (simp_all add: v_def)
  have "unat (root_nodes v) + 184 * ?n < 4294967296" using k(2) by (simp add: vs)
  moreover have "memory s3 a = 0 \<and> \<not> within location (4 + 76 * ?n) a \<and> \<not> data_byte location (memory s3) files a"
    if "within (root_nodes v) (184 * ?n) a" for a using that k(3) used(1,2) unfolding im3(2) vs by blast
  ultimately obtain m' where m': "make_nodes lk v location 0 (memory s3) = Some m'"
    and files: "\<And>j. j < ?n \<Longrightarrow> file_ok lk v m' j (files ! j) \<and> load32 m' (?off j) = load32 (memory s) (?off j) + location"
    and out: "\<And>a. \<not> within nodes (184 * ?n) a \<Longrightarrow> \<not> within location (4 + 76 * ?n) a \<Longrightarrow> m' a = memory s3 a"
    using make_nodes_image [OF im3(1) _ _ vs(1,3)] im3(3) unfolding vs(2) by (metis (no_types, lifting))
  have run: "initialise_initrd mk lk location s = Some (root, v, s3\<lparr>memory := m'\<rparr>)"
    using d(1-4) d(5) [symmetric] n3 k(1) m' by (simp add: initialise_initrd_def v_def Let_def)
  have keep: "m' x = m3 x" if "?u x" "\<not> within location (4 + 76 * ?n) x" for x
    using out [of x] k(3) [of x] k(4) [of x] that by metis
  have dirs: "m' x = m3 x" if "within root 184 x \<or> within dev 184 x" for x
    using keep [of x] that used(1) [of x] same3 [of x] by blast
  have usedm: "m' x = memory s x" if "used x" "\<not> within location (4 + 76 * ?n) x" for x
    using keep [of x] same3 [of x] that by auto
  have "cstr m' (lit_dev lk) dev_name"
    by (rule cstr_cong_within [OF lits(3), of 4]) (use used(4) lits(4) usedm in \<open>auto simp: dev_name_def\<close>)
  moreover have "?n < 2147483648" using rd(3) by linarith
  ultimately have ok: "initrd_ok lk v m' files"
    using files fns directory_ok_frame [OF ok3(1), of m'] directory_ok_frame [OF ok3(2), of m'] dirs
    by (simp add: initrd_ok_def vs)
  have bytes: "within location (4 + 76 * ?n) a \<or> data_byte location (memory s) files a \<or> within (lit_dev lk) 4 a"
    if "initrd_byte lk v m' files a" "used a" for a
    using that(1) unfolding initrd_byte_def vs
  proof (elim disjE exE conjE)
    fix j assume j: "j < ?n" "within (node_at nodes (of_nat j)) 184 a"
    then have "within nodes (184 * ?n) a" using element_within [OF j(1) k(2)] by (simp add: at_nat del: of_nat_mult)
    then show ?thesis using k(3) that(2) by blast
  next
    fix j assume j: "j < ?n" "within (fh_at (location + 4) (of_nat j)) 76 a"
    then show ?thesis using image_header_within [OF j(1) _ j(2)] image by (simp add: image_ok_def)
  next
    fix j assume j: "j < ?n" "within (load32 m' (?off j)) (length (snd (files ! j))) a"
    then show ?thesis using files [OF j(1)] by (auto simp: data_byte_def)
  qed (use that(2) same3 in auto)
  show ?thesis
    using run ok bytes usedm files vs(1,4) by (intro exI [of _ v] exI [of _ "s3\<lparr>memory := m'\<rparr>"]) simp
qed

end

end
