(* ===== verification/Initrd_Image.thy ===== *)
theory Initrd_Image
  imports Initrd
begin

text \<open>
  The program that makes the ramdisk, \<open>tools/initrd_creator/init_rd_creator.c\<close>, and the round
  trip: the image it writes, placed in memory, is one that \<open>initialise_initrd\<close> accepts, with
  the files of the command line. Its array of headers is an uninitialised local, so its
  contents are an argument; a store behind its end has no defined result. That the image cannot be opened for
  writing, or is one of the input files, is not modelled.
\<close>

subsection \<open>The code\<close>

definition MAGIC :: u8 where "MAGIC = 0xBF"


datatype creator_error = File_Not_Found | Array_Overrun

text \<open>The four bytes of an \<open>int\<close> in a file; storing bytes in the array.\<close>

definition le32 :: "u32 \<Rightarrow> u8 list" where
  "le32 v = [ucast v, ucast (drop_bit 8 v), ucast (drop_bit 16 v), ucast (drop_bit 24 v)]"

definition put_at :: "nat \<Rightarrow> u8 list \<Rightarrow> u8 list \<Rightarrow> creator_error + u8 list" where
  "put_at k bs hs = (if k + length bs \<le> length hs then Inr (take k hs @ bs @ drop (k + length bs) hs)
                     else Inl Array_Overrun)"

fun and_then :: "'e + 'a \<Rightarrow> ('a \<Rightarrow> 'e + 'b) \<Rightarrow> 'e + 'b" where
  "and_then (Inl e) f = Inl e"
| "and_then (Inr x) f = f x"

text \<open>
  The first loop, for the arguments that are left, the index, the offset and the array. \<open>fs\<close> is
  what \<open>fopen\<close> finds.
\<close>

fun fill_headers :: "('p \<Rightarrow> u8 list option) \<Rightarrow> ('p \<times> u8 list) list \<Rightarrow> nat \<Rightarrow> u32 \<Rightarrow> u8 list \<Rightarrow>
    creator_error + u8 list" where
  "fill_headers fs [] i offset hs = Inr hs"
| "fill_headers fs ((path, nm) # args) i offset hs =
     and_then (put_at (76 * i + 1) (nm @ [0]) hs) (\<lambda>hs.
     and_then (put_at (76 * i + 68) (le32 offset) hs) (\<lambda>hs.
       case fs path of
         None \<Rightarrow> Inl File_Not_Found
       | Some stream \<Rightarrow>
           and_then (put_at (76 * i + 72) (le32 (of_nat (length stream))) hs) (\<lambda>hs.
             let offset = offset + of_nat (length stream) in
             and_then (put_at (76 * i) [MAGIC] hs) (fill_headers fs args (Suc i) offset))))"

text \<open>\<open>main\<close>: \<open>args\<close> are the pairs of the command line, \<open>junk\<close> the array before; the result is what is written.\<close>

definition init_rd_creator :: "('p \<Rightarrow> u8 list option) \<Rightarrow> ('p \<times> u8 list) list \<Rightarrow> u8 list \<Rightarrow> creator_error + u8 list" where
  "init_rd_creator fs args junk =
     (let n_headers = length args; offset = 76 * 64 + 4
      in and_then (fill_headers fs args 0 offset junk) (\<lambda>hs.
           Inr (le32 (of_nat n_headers) @ hs @ concat (map (\<lambda>(path, nm). the (fs path)) args))))"

subsection \<open>Pieces of a list\<close>

definition piece :: "nat \<Rightarrow> nat \<Rightarrow> 'a list \<Rightarrow> 'a list" where
  "piece k n xs = take n (drop k xs)"

lemma put_at_piece:
  assumes "put_at k bs hs = Inr hs'"
  shows "length hs' = length hs" "piece k (length bs) hs' = bs"
    "j + n \<le> k \<or> k + length bs \<le> j \<Longrightarrow> piece j n hs' = piece j n hs"
proof -
  have hs': "hs' = take k hs @ bs @ drop (k + length bs) hs" and k: "k + length bs \<le> length hs"
    using assms by (auto simp: put_at_def split: if_splits)
  show len: "length hs' = length hs" and "piece k (length bs) hs' = bs" using k by (simp_all add: hs' piece_def)
  show "piece j n hs' = piece j n hs" if out: "j + n \<le> k \<or> k + length bs \<le> j"
  proof (rule nth_equalityI)
    show "length (piece j n hs') = length (piece j n hs)" by (simp add: piece_def len)
    fix i assume "i < length (piece j n hs')"
    then have i: "i < n" "j + i < length hs" by (auto simp: piece_def len less_diff_conv)
    have "hs' ! (j + i) = hs ! (j + i)"
    proof (cases "j + i < k")
      case True
      then show ?thesis using k by (simp add: hs' nth_append)
    next
      case False
      then have "k + length bs \<le> j + i" using out i(1) by linarith
      then have "\<not> j + i < k" "\<not> j + i - k < length bs" by simp_all
      then show ?thesis using k i(2) by (simp add: hs' nth_append)
    qed
    then show "piece j n hs' ! i = piece j n hs ! i" using i len by (simp add: piece_def)
  qed
qed

lemma and_then_Inr: "and_then r f = Inr y \<longleftrightarrow> (\<exists>x. r = Inr x \<and> f x = Inr y)"
  by (cases r) simp_all

text \<open>What the loop leaves in the array.\<close>

definition header_at :: "u8 list \<Rightarrow> nat \<Rightarrow> u8 list \<Rightarrow> u32 \<Rightarrow> u32 \<Rightarrow> bool" where
  "header_at hs i nm off len \<longleftrightarrow> piece (76 * i) 1 hs = [MAGIC] \<and> piece (76 * i + 1) (length nm + 1) hs = nm @ [0]
     \<and> piece (76 * i + 68) 4 hs = le32 off \<and> piece (76 * i + 72) 4 hs = le32 len"

lemma length_le32 [simp]: "length (le32 v) = 4"
  by (simp add: le32_def)

lemma header_at_put:
  assumes "put_at k bs hs = Inr hs'" "76 * j + 76 \<le> k \<or> k + length bs \<le> 76 * j" "length nm < 64"
  shows "header_at hs' j nm off len \<longleftrightarrow> header_at hs j nm off len"
proof -
  have "piece (76 * j) 1 hs' = piece (76 * j) 1 hs" "piece (76 * j + 1) (length nm + 1) hs' = piece (76 * j + 1) (length nm + 1) hs"
    "piece (76 * j + 68) 4 hs' = piece (76 * j + 68) 4 hs" "piece (76 * j + 72) 4 hs' = piece (76 * j + 72) 4 hs"
    by (rule put_at_piece(3) [OF assms(1)], use assms(2,3) in linarith)+
  then show ?thesis by (simp add: header_at_def)
qed

lemma fill_headers_result:
  "fill_headers fs args i offset hs = Inr hs' \<Longrightarrow> \<forall>(p, nm) \<in> set args. length nm < 64 \<Longrightarrow>
     length hs' = length hs \<and> (76 * (i + length args) \<le> length hs \<or> args = [])
     \<and> (\<forall>j nm off len. j < i \<longrightarrow> length nm < 64 \<longrightarrow> header_at hs j nm off len \<longrightarrow> header_at hs' j nm off len)
     \<and> (\<forall>j < length args. \<exists>stream. fs (fst (args ! j)) = Some stream
          \<and> header_at hs' (i + j) (snd (args ! j))
              (offset + of_nat (sum_list (map (\<lambda>(p, nm). length (the (fs p))) (take j args)))) (of_nat (length stream)))"
proof (induction fs args i offset hs rule: fill_headers.induct)
  case (1 fs i offset hs)
  then show ?case by simp
next
  case (2 fs path nm args i offset hs)
  have nm: "length nm < 64" using "2.prems"(2) by simp
  obtain hs1 hs2 stream hs3 hs4 where h1: "put_at (76 * i + 1) (nm @ [0]) hs = Inr hs1"
    and h2: "put_at (76 * i + 68) (le32 offset) hs1 = Inr hs2" and st: "fs path = Some stream"
    and h3: "put_at (76 * i + 72) (le32 (of_nat (length stream))) hs2 = Inr hs3"
    and h4: "put_at (76 * i) [MAGIC] hs3 = Inr hs4"
    and rest: "fill_headers fs args (Suc i) (offset + of_nat (length stream)) hs4 = Inr hs'"
    using "2.prems"(1) by (auto simp: and_then_Inr Let_def split: option.splits)
  note len = put_at_piece(1) [OF h1] put_at_piece(1) [OF h2] put_at_piece(1) [OF h3] put_at_piece(1) [OF h4]
  have fit: "76 * i + 76 \<le> length hs" using h3 len by (simp add: put_at_def split: if_splits)
  have own: "header_at hs4 i nm offset (of_nat (length stream))"
    using nm put_at_piece(2) [OF h1] put_at_piece(2) [OF h2] put_at_piece(2) [OF h3] put_at_piece(2) [OF h4]
    by (simp add: header_at_def put_at_piece(3) [OF h4] put_at_piece(3) [OF h3] put_at_piece(3) [OF h2])
  have old: "header_at hs4 j n off l" if "header_at hs j n off l" "j < i" "length n < 64" for j n off l
    using that(1) header_at_put [OF h1 _ that(3)] header_at_put [OF h2 _ that(3)] header_at_put [OF h3 _ that(3)]
      header_at_put [OF h4 _ that(3)] that(2) by simp
  have ih: "length hs' = length hs4" "76 * (Suc i + length args) \<le> length hs4 \<or> args = []"
    "\<And>j n off l. j < Suc i \<Longrightarrow> length n < 64 \<Longrightarrow> header_at hs4 j n off l \<Longrightarrow> header_at hs' j n off l"
    "\<And>j. j < length args \<Longrightarrow> \<exists>str. fs (fst (args ! j)) = Some str \<and> header_at hs' (Suc i + j) (snd (args ! j))
       (offset + of_nat (length stream) + of_nat (sum_list (map (\<lambda>(p, nm). length (the (fs p))) (take j args)))) (of_nat (length str))"
    using "2.IH" [OF st refl, of hs4] rest "2.prems"(2) by auto
  show ?case
  proof (intro conjI allI impI)
    show "length hs' = length hs" using ih(1) len by simp
    show "76 * (i + length ((path, nm) # args)) \<le> length hs \<or> (path, nm) # args = []"
      using ih(2) len fit by auto
    show "header_at hs' j n off l" if "j < i" "length n < 64" "header_at hs j n off l" for j n off l
      using ih(3) [of j n off l] old [OF that(3,1,2)] that by simp
    show "\<exists>str. fs (fst (((path, nm) # args) ! j)) = Some str \<and> header_at hs' (i + j) (snd (((path, nm) # args) ! j))
        (offset + of_nat (sum_list (map (\<lambda>(p, nm). length (the (fs p))) (take j ((path, nm) # args))))) (of_nat (length str))"
      if "j < length ((path, nm) # args)" for j
    proof (cases j)
      case 0
      then show ?thesis using ih(3) [of i nm] own nm st by simp
    next
      case (Suc k)
      then show ?thesis using ih(4) [of k] that st by (simp add: add.assoc)
    qed
  qed
qed

subsection \<open>The image in memory\<close>

lemma load32_le32: "bytes m a 4 = le32 v \<Longrightarrow> load32 m a = v"
proof -
  assume b: "bytes m a 4 = le32 v"
  have "m a = ucast v" "m (a + 1) = ucast (drop_bit 8 v)" "m (a + 2) = ucast (drop_bit 16 v)"
    "m (a + 3) = ucast (drop_bit 24 v)"
    using b by (simp_all add: bytes_def le32_def load8_def eval_nat_numeral)
  then have "load32 m a = load32 (store32 m a v) a"
    by (simp add: load32_def store32_def)
  then show ?thesis by (simp add: load32_store32_same)
qed

lemma piece_inside:
  "k + n \<le> length hs \<Longrightarrow> piece (4 + k) n (le32 v @ hs @ ds) = piece k n hs"
  "piece (4 + length hs + k) n (le32 v @ hs @ ds) = piece k n ds"
  by (simp_all add: piece_def)

lemma piece_concat:
  "i < length dss \<Longrightarrow> piece (sum_list (map length (take i dss))) (length (dss ! i)) (concat dss) = dss ! i"
proof (induction dss arbitrary: i)
  case (Cons ds dss)
  then show ?case by (cases i) (simp_all add: piece_def)
qed simp

lemma length_prefix_concat:
  "i < length dss \<Longrightarrow> sum_list (map length (take i dss)) + length (dss ! i) \<le> length (concat dss)"
proof (induction dss arbitrary: i)
  case (Cons ds dss)
  then show ?case by (cases i) (auto dest: Cons.IH)
qed simp

definition ramfiles :: "('p \<Rightarrow> u8 list option) \<Rightarrow> ('p \<times> u8 list) list \<Rightarrow> ramfile list" where
  "ramfiles fs args = map (\<lambda>(p, nm). (nm, the (fs p))) args"

lemma image_entry:
  assumes img: "img = le32 n @ hs @ ds" "length hs = 4864" "j < 64" and valid: "0 \<notin> set nm" "length nm < 64"
    and hd: "header_at hs j nm (4868 + of_nat S) (of_nat (length d))"
    and data: "S + length d \<le> length ds" "piece S (length d) ds = d"
    and mem: "bytes m location (length img) = img" "unat location + length img < 4294967296"
  shows "entry_ok location m j (nm, d)"
    and "load32 m (fh_offset (fh_at (location + 4) (of_nat j))) + location = location + of_nat (4868 + S)"
    and "within (location + of_nat (4868 + S)) (length d) a \<Longrightarrow> within location (length img) a \<and> \<not> within location 4868 a"
proof -
  let ?h = "fh_at (location + 4) (of_nat j)"
  have len: "length img = 4868 + length ds" using img by simp
  have at: "bytes m (location + of_nat k) w = piece k w img" if "k + w \<le> length img" for k w
    using bytes_drop [OF that, of m location] mem(1) by (simp add: piece_def)
  have h: "?h + of_nat k = location + of_nat (4 + (76 * j + k))" for k by (simp add: fh_at_def)
  have in_hs: "bytes m (?h + of_nat k) w = piece (76 * j + k) w hs" if "k + w \<le> 76" for k w
  proof -
    have "76 * j + k + w \<le> length hs" using that img(2,3) by simp
    then show ?thesis using at [of "4 + (76 * j + k)" w] len img(2) unfolding h by (simp add: img(1) piece_inside(1))
  qed
  have fit: "4868 + S + length d \<le> length img" using data(1) len by simp
  have small: "length d < 4294967296" using fit mem(2) by linarith
  have nm: "cstr m (fh_name ?h) nm"
  proof (rule cstrI)
    have "bytes m (fh_name ?h) (length nm + 1) = nm @ [0]"
      using in_hs [of 1 "length nm + 1"] hd valid by (simp add: fh_name_def header_at_def)
    then show "bytes m (fh_name ?h) (length nm) = nm" "load8 m (fh_name ?h + of_nat (length nm)) = 0"
      by (simp_all add: bytes_Suc)
  qed (use valid in simp_all)
  have off: "load32 m (fh_offset ?h) = 4868 + of_nat S" "load32 m (fh_length ?h) = of_nat (length d)"
    using in_hs [of 68 4] in_hs [of 72 4] hd by (simp_all add: header_at_def load32_le32 fh_offset_def fh_length_def)
  show addr: "load32 m (fh_offset ?h) + location = location + of_nat (4868 + S)" by (simp add: off)
  have "bytes m (load32 m (fh_offset ?h) + location) (length d) = piece (4868 + S) (length d) img"
    unfolding addr by (rule at [OF fit])
  also have "\<dots> = d" using piece_inside(2) [of hs S "length d"] img(2) data(2) by (simp add: img(1))
  finally show "entry_ok location m j (nm, d)" using nm valid off small by (simp add: entry_ok_def Let_def)
  have "unat (location + of_nat (4868 + S)) = unat location + (4868 + S)"
    by (rule unat_add_of_nat) (use fit mem(2) in linarith)
  then show "within (location + of_nat (4868 + S)) (length d) a \<Longrightarrow> within location (length img) a \<and> \<not> within location 4868 a"
    using fit mem(2) by (auto simp: within_nat simp del: of_nat_add)
qed

text \<open>What the creator has written when it succeeds.\<close>

lemma creator_parts:
  assumes run: "init_rd_creator fs args junk = Inr img" and junk: "length junk = 76 * 64"
    and names: "\<forall>(p, nm) \<in> set args. length nm < 64"
  obtains hs where "img = le32 (of_nat (length args)) @ hs @ concat (map snd (ramfiles fs args))" "length hs = 4864"
    "length args \<le> 64"
    "\<And>j. j < length args \<Longrightarrow> fs (fst (args ! j)) = Some (snd (ramfiles fs args ! j))
      \<and> header_at hs j (snd (args ! j)) (4868 + of_nat (sum_list (map length (take j (map snd (ramfiles fs args))))))
          (of_nat (length (snd (ramfiles fs args ! j))))"
proof -
  have data: "map snd (ramfiles fs args) = map (\<lambda>(p, nm). the (fs p)) args" by (auto simp: ramfiles_def)
  obtain hs where hs: "fill_headers fs args 0 4868 junk = Inr hs"
    and img: "img = le32 (of_nat (length args)) @ hs @ concat (map snd (ramfiles fs args))"
    using run unfolding data by (auto simp: init_rd_creator_def and_then_Inr Let_def)
  note r = fill_headers_result [OF hs names]
  have "fs (fst (args ! j)) = Some (snd (ramfiles fs args ! j))
      \<and> header_at hs j (snd (args ! j)) (4868 + of_nat (sum_list (map length (take j (map snd (ramfiles fs args))))))
          (of_nat (length (snd (ramfiles fs args ! j))))" if j: "j < length args" for j
  proof -
    obtain d where "fs (fst (args ! j)) = Some d" "header_at hs j (snd (args ! j))
        (4868 + of_nat (sum_list (map (\<lambda>(p, nm). length (the (fs p))) (take j args)))) (of_nat (length d))"
      using r j by auto
    moreover have "snd (ramfiles fs args ! j) = the (fs (fst (args ! j)))"
      using j by (simp add: ramfiles_def case_prod_unfold)
    ultimately show ?thesis unfolding data by (simp add: take_map o_def case_prod_unfold)
  qed
  then show thesis using that img r junk by auto
qed

lemma image_of_creator:
  assumes run: "init_rd_creator fs args junk = Inr img" and junk: "length junk = 76 * 64"
    and names: "\<forall>(p, nm) \<in> set args. 0 \<notin> set nm \<and> length nm < 64"
    and mem: "bytes m location (length img) = img" "unat location + length img < 4294967296"
  shows "image_ok location m (ramfiles fs args)"
    and "data_byte location m (ramfiles fs args) a \<Longrightarrow> within location (length img) a"
proof -
  let ?n = "length args" and ?dss = "map snd (ramfiles fs args)"
  define S where "S j = sum_list (map length (take j ?dss))" for j
  have "\<forall>(p, nm) \<in> set args. length nm < 64" using names by auto
  then obtain hs where img: "img = le32 (of_nat ?n) @ hs @ concat ?dss" "length hs = 4864" "?n \<le> 64"
    and hd: "\<And>j. j < ?n \<Longrightarrow> header_at hs j (snd (args ! j)) (4868 + of_nat (S j)) (of_nat (length (snd (ramfiles fs args ! j))))"
    unfolding S_def by (rule creator_parts [OF run junk]) blast
  have lr: "length (ramfiles fs args) = ?n" by (simp add: ramfiles_def)
  have entry: "entry_ok location m j (ramfiles fs args ! j)"
    "within (load32 m (fh_offset (fh_at (location + 4) (of_nat j))) + location) (length (snd (ramfiles fs args ! j))) a
      \<Longrightarrow> within location (length img) a \<and> \<not> within location (4 + 76 * ?n) a" if j: "j < ?n" for j a
  proof -
    have valid: "0 \<notin> set (snd (args ! j))" "length (snd (args ! j)) < 64" using names nth_mem [OF j] by auto
    define d where "d = ?dss ! j"
    have f: "ramfiles fs args ! j = (snd (args ! j), d)" using j lr by (simp add: ramfiles_def d_def case_prod_unfold)
    have sd: "S j + length d \<le> length (concat ?dss)" "piece (S j) (length d) (concat ?dss) = d"
      using length_prefix_concat [of j ?dss] piece_concat [of j ?dss] j lr by (simp_all add: S_def d_def)
    have "header_at hs j (snd (args ! j)) (4868 + of_nat (S j)) (of_nat (length d))" using hd [OF j] by (simp add: f)
    note entry = image_entry [OF img(1,2) _ valid this sd mem]
    show "entry_ok location m j (ramfiles fs args ! j)" using entry(1) j img(3) by (simp add: f)
    have "load32 m (fh_offset (fh_at (location + 4) (of_nat j))) + location = location + of_nat (4868 + S j)"
      using entry(2) j img(3) by simp
    moreover have "\<not> within location 4868 a \<Longrightarrow> \<not> within location (4 + 76 * ?n) a" for a
      using img(3) within_mono [of location "4 + 76 * ?n" a 4868] by auto
    ultimately show "within (load32 m (fh_offset (fh_at (location + 4) (of_nat j))) + location) (length (snd (ramfiles fs args ! j))) a
        \<Longrightarrow> within location (length img) a \<and> \<not> within location (4 + 76 * ?n) a"
      using entry(3) [of a] j img(3) unfolding f snd_conv by simp
  qed
  have data: "within location (length img) a \<and> \<not> within location (4 + 76 * ?n) a"
    if "data_byte location m (ramfiles fs args) a" for a
    using that entry(2) unfolding data_byte_def lr by blast
  then show "data_byte location m (ramfiles fs args) a \<Longrightarrow> within location (length img) a" by blast
  have "bytes m location 4 = take 4 img" using bytes_drop [of 0 4 "length img" m location] mem(1) by (simp add: img(1))
  then have "load32 m location = of_nat ?n" by (simp add: img(1) load32_le32)
  then show "image_ok location m (ramfiles fs args)"
    using entry(1) data img mem(2) by (auto simp: image_ok_def lr)
qed

subsection \<open>When it fails\<close>

lemma put_at_fits: "k + length bs \<le> length hs \<Longrightarrow> \<exists>hs'. put_at k bs hs = Inr hs' \<and> length hs' = length hs"
  by (simp add: put_at_def)

lemma le32_bytes: "length (le32 v) = 4"
  by (simp add: le32_def)

lemma fill_headers_outcome:
  "i + length args \<le> 64 \<Longrightarrow> length hs = 76 * 64 \<Longrightarrow> (\<forall>(p, nm) \<in> set args. length nm < 64) \<Longrightarrow>
   (if \<exists>(p, nm) \<in> set args. fs p = None then fill_headers fs args i offset hs = Inl File_Not_Found
    else \<exists>hs'. fill_headers fs args i offset hs = Inr hs' \<and> length hs' = 76 * 64)"
proof (induction args arbitrary: i offset hs)
  case Nil
  then show ?case by simp
next
  case (Cons arg args)
  obtain path nm where arg: "arg = (path, nm)" by (cases arg)
  have i: "i < 64" "length nm < 64" using Cons.prems by (auto simp: arg)
  obtain h1 where h1: "put_at (Suc (76 * i)) (nm @ [0]) hs = Inr h1" "length h1 = 76 * 64"
    using put_at_fits [of "Suc (76 * i)" "nm @ [0]" hs] Cons.prems(2) i by auto
  obtain h2 where h2: "put_at (76 * i + 68) (le32 offset) h1 = Inr h2" "length h2 = 76 * 64"
    using put_at_fits [of "76 * i + 68" "le32 offset" h1] h1(2) i by (auto simp: le32_bytes)
  show ?case
  proof (cases "fs path")
    case None
    then show ?thesis by (simp add: arg h1 h2)
  next
    case (Some d)
    obtain h3 where h3: "put_at (76 * i + 72) (le32 (of_nat (length d))) h2 = Inr h3" "length h3 = 76 * 64"
      using put_at_fits [of "76 * i + 72" "le32 (of_nat (length d))" h2] h2(2) i by (auto simp: le32_bytes)
    obtain h4 where h4: "put_at (76 * i) [MAGIC] h3 = Inr h4" "length h4 = 76 * 64"
      using put_at_fits [of "76 * i" "[MAGIC]" h3] h3(2) i by auto
    show ?thesis
      using Cons.IH [of "Suc i" h4 "offset + of_nat (length d)"] Cons.prems h4(2)
      by (simp add: arg h1 h2 h3 h4 Some Let_def split: if_splits)
  qed
qed

end
