(* ===== verification/Initrd_Properties.thy ===== *)
theory Initrd_Properties
  imports Initrd_Image
begin

text \<open>
  The properties of the ramdisk, over \<open>Initrd\<close> and \<open>Initrd_Image\<close>, and an image of one file in the
  memory of an early kernel state, on which they are witnessed.
\<close>

subsection \<open>A kernel state with an image\<close>

definition demo_files :: "nat \<Rightarrow> u8 list option" where
  "demo_files = [0 \<mapsto> [0x68, 0x69]]"

definition demo_args :: "(nat \<times> u8 list) list" where
  "demo_args = [(0, [0x61])]"

definition demo_image :: "u8 list" where
  "demo_image = (case init_rd_creator demo_files demo_args (replicate (76 * 64) 0) of Inr img \<Rightarrow> img | Inl _ \<Rightarrow> [])"

definition demo_link :: initrd_link where
  "demo_link = \<lparr>fn_read = 1, fn_readdir = 2, fn_finddir = 3, at_dirent = 0x5000, lit_initrd = 0x1000, lit_dev = 0x2000\<rparr>"

definition demo_state :: kstate where
  "demo_state = early_state\<lparr>memory := put_bytes 0x30000 demo_image
     (put_bytes 0x2000 (dev_name @ [0]) (put_bytes 0x1000 ([0x69] @ [0]) (\<lambda>_. 0)))\<rparr>"

definition demo_used :: "u32 \<Rightarrow> bool" where
  "demo_used a \<longleftrightarrow> within 0x30000 (length demo_image) a \<or> within 0x1000 2 a \<or> within 0x2000 4 a \<or> within 0x5000 132 a \<or> within 0x6000 256 a"

lemma demo_creator: "init_rd_creator demo_files demo_args (replicate (76 * 64) 0) = Inr demo_image"
  "length demo_image = 4870"
proof -
  have "\<exists>img. init_rd_creator demo_files demo_args (replicate (76 * 64) 0) = Inr img \<and> length img = 4870"
    by (simp add: init_rd_creator_def demo_files_def demo_args_def put_at_def le32_def)
  then show "init_rd_creator demo_files demo_args (replicate (76 * 64) 0) = Inr demo_image" "length demo_image = 4870"
    by (auto simp: demo_image_def)
qed

lemma bytes_put_bytes: "length xs \<le> 4294967296 \<Longrightarrow> bytes (put_bytes a xs m) a (length xs) = xs"
  by (auto simp: bytes_def load8_def put_bytes_def within_add_of_nat unat_of_nat intro!: nth_equalityI)

lemma put_bytes_out: "\<not> within a (length xs) c \<Longrightarrow> put_bytes a xs m c = m c"
  by (simp add: put_bytes_def)

lemma demo_memory:
  "bytes (memory demo_state) 0x30000 (length demo_image) = demo_image"
  "cstr (memory demo_state) 0x1000 [0x69]" "cstr (memory demo_state) 0x2000 dev_name"
  "early_ready 1000 demo_used demo_state"
proof -
  let ?m1 = "put_bytes 0x1000 ([0x69] @ [0]) (\<lambda>_. 0)" let ?m2 = "put_bytes 0x2000 (dev_name @ [0]) ?m1"
  note l = demo_creator(2)
  show "bytes (memory demo_state) 0x30000 (length demo_image) = demo_image"
    using bytes_put_bytes [of demo_image "0x30000"] by (simp add: demo_state_def l)
  have "cstr ?m1 0x1000 [0x69]" by (rule put_bytes_cstr) simp_all
  then show "cstr (memory demo_state) 0x1000 [0x69]"
    by (rule cstr_cong_within [where n = 2])
      (simp_all add: demo_state_def put_bytes_out l dev_name_def within_nat)
  have "cstr ?m2 0x2000 dev_name" by (rule put_bytes_cstr) (simp_all add: dev_name_def)
  then show "cstr (memory demo_state) 0x2000 dev_name"
    by (rule cstr_cong_within [where n = 4])
      (simp_all add: demo_state_def put_bytes_out l dev_name_def within_nat)
  show "early_ready 1000 demo_used demo_state"
    by (auto simp: early_ready_def demo_state_def early_state_def put_bytes_out demo_used_def l dev_name_def within_nat)
qed

lemma demo_ramfiles: "ramfiles demo_files demo_args = [([0x61], [0x68, 0x69])]"
  by (simp add: ramfiles_def demo_files_def demo_args_def)

lemma demo_image_ok: "image_ok 0x30000 (memory demo_state) [([0x61], [0x68, 0x69])]"
  and demo_data_byte: "data_byte 0x30000 (memory demo_state) [([0x61], [0x68, 0x69])] a \<Longrightarrow> within 0x30000 4870 a"
proof -
  have n: "\<forall>(p, nm) \<in> set demo_args. 0 \<notin> set nm \<and> length nm < 64" by (simp add: demo_args_def)
  note image = image_of_creator [OF demo_creator(1) _ n demo_memory(1), unfolded demo_ramfiles demo_creator(2)]
  show "image_ok 0x30000 (memory demo_state) [([0x61], [0x68, 0x69])]" by (rule image(1)) simp_all
  show "data_byte 0x30000 (memory demo_state) [([0x61], [0x68, 0x69])] a \<Longrightarrow> within 0x30000 4870 a"
    by (rule image(2)) simp_all
qed

lemma demo_initialised:
  obtains v s' where "initialise_initrd (kmalloc 1) demo_link 0x30000 demo_state = Some (initrd_root v, v, s')"
    and "initrd_ok demo_link v (memory s') [([0x61], [0x68, 0x69])]"
    and "dirent_apart demo_link v (memory s') [([0x61], [0x68, 0x69])]"
    and "\<And>a. within (load32 (memory s') (fh_offset (fh_at (file_headers v) 0))) 2 a \<Longrightarrow> within 0x30000 4870 a"
    and "\<forall>a. initrd_byte demo_link v (memory s') [([0x61], [0x68, 0x69])] a \<longrightarrow> \<not> within 0x6000 256 a"
proof -
  let ?files = "[([0x61], [0x68, 0x69])] :: ramfile list"
  have u: "within 0x30000 (4 + 76 * length ?files) a \<Longrightarrow> demo_used a" "data_byte 0x30000 (memory demo_state) ?files a \<Longrightarrow> demo_used a"
    "within (lit_initrd demo_link) (Suc (length [0x69])) a \<Longrightarrow> demo_used a" "within (lit_dev demo_link) 4 a \<Longrightarrow> demo_used a" for a
    using demo_data_byte [of a] within_mono [of "0x30000" 80 a 4870]
    by (simp_all add: demo_used_def demo_link_def demo_creator(2) numeral_2_eq_2)
  have "\<exists>v s'. initialise_initrd (kmalloc 1) demo_link 0x30000 demo_state = Some (initrd_root v, v, s')
    \<and> initrd_ok demo_link v (memory s') ?files
    \<and> (\<forall>a. initrd_byte demo_link v (memory s') ?files a \<longrightarrow> demo_used a \<longrightarrow> within 0x30000 (4 + 76 * length ?files) a
       \<or> data_byte 0x30000 (memory demo_state) ?files a \<or> within (lit_dev demo_link) 4 a)
    \<and> (\<forall>a. demo_used a \<longrightarrow> \<not> within 0x30000 (4 + 76 * length ?files) a \<longrightarrow> memory s' a = memory demo_state a)
    \<and> file_headers v = 0x30000 + 4
    \<and> (\<forall>j<length ?files. load32 (memory s') (fh_offset (fh_at (0x30000 + 4) (of_nat j)))
         = load32 (memory demo_state) (fh_offset (fh_at (0x30000 + 4) (of_nat j))) + 0x30000)"
    by (rule early.initialise_builds [OF demo_memory(4) _ _ demo_image_ok u, where ini = "[0x69]"])
      (use demo_memory in \<open>simp_all add: demo_link_def within_nat\<close>)
  then obtain v s' where run: "initialise_initrd (kmalloc 1) demo_link 0x30000 demo_state = Some (initrd_root v, v, s')"
    and ok: "initrd_ok demo_link v (memory s') ?files"
    and byte: "\<And>a. initrd_byte demo_link v (memory s') ?files a \<Longrightarrow> demo_used a \<Longrightarrow> within 0x30000 80 a
       \<or> data_byte 0x30000 (memory demo_state) ?files a \<or> within (lit_dev demo_link) 4 a"
    and fh: "file_headers v = 0x30004"
    and off: "load32 (memory s') (fh_offset (fh_at 0x30004 0)) = load32 (memory demo_state) (fh_offset (fh_at 0x30004 0)) + 0x30000"
    by auto
  have place: "within 0x30000 4870 a \<or> within 0x2000 4 a" if "initrd_byte demo_link v (memory s') ?files a" "demo_used a" for a
    using byte [OF that] demo_data_byte [of a] within_mono [of "0x30000" 80 a 4870] by (auto simp: demo_link_def)
  have "dirent_apart demo_link v (memory s') ?files"
    unfolding dirent_apart_def
  proof (intro allI impI notI)
    fix a assume "within (at_dirent demo_link) 132 a" "initrd_byte demo_link v (memory s') ?files a"
    then show False using place [of a] by (auto simp: demo_used_def demo_link_def within_nat)
  qed
  moreover have "\<not> within 0x6000 256 a" if "initrd_byte demo_link v (memory s') ?files a" for a
    using place [OF that] by (auto simp: demo_used_def within_nat)
  moreover have "within 0x30000 4870 a" if "within (load32 (memory s') (fh_offset (fh_at (file_headers v) 0))) 2 a" for a
    using that demo_data_byte [of a] fh off by (simp add: data_byte_def numeral_2_eq_2)
  ultimately show ?thesis using that run ok by simp
qed

subsection \<open>Properties\<close>

text \<open>C21: \<open>initialise_initrd\<close> on an image in memory returns, whether \<open>kmalloc\<close> works from the heap
  or still from \<open>free_mem_addr\<close>: with room for the nodes it builds the structures for exactly the files
  of the image, and outside the headers, whose offsets it makes absolute, it changes no byte that was in
  use; what the structures are made of is fresh, or part of the image, or the literal.\<close>

theorem initialise_initrd_builds_files:
  assumes "heap_ready b used s \<or> early_ready b used s"
    and "488 + 184 * length files \<le> b" "184 * length files < 4294967296"
    and "image_ok location (memory s) files"
    and "\<And>a. within location (4 + 76 * length files) a \<or> data_byte location (memory s) files a
      \<or> within (lit_initrd lk) (Suc (length ini)) a \<or> within (lit_dev lk) 4 a \<Longrightarrow> used a"
    and "cstr (memory s) (lit_initrd lk) ini" "length ini < 128" "cstr (memory s) (lit_dev lk) dev_name"
    and "\<And>a. within (lit_dev lk) 4 a \<Longrightarrow> \<not> within location (4 + 76 * length files) a"
    and "fn_read lk \<noteq> 0" "fn_readdir lk \<noteq> 0" "fn_finddir lk \<noteq> 0"
  shows "\<exists>v s'. initialise_initrd (kmalloc (Suc fuel)) lk location s = Some (initrd_root v, v, s')
    \<and> initrd_ok lk v (memory s') files
    \<and> (\<forall>a. initrd_byte lk v (memory s') files a \<longrightarrow> used a \<longrightarrow>
         within location (4 + 76 * length files) a \<or> data_byte location (memory s) files a \<or> within (lit_dev lk) 4 a)
    \<and> (\<forall>a. used a \<longrightarrow> \<not> within location (4 + 76 * length files) a \<longrightarrow> memory s' a = memory s a)
    \<and> file_headers v = location + 4
    \<and> (\<forall>j<length files. load32 (memory s') (fh_offset (fh_at (location + 4) (of_nat j)))
         = load32 (memory s) (fh_offset (fh_at (location + 4) (of_nat j))) + location)"
  using assms(1)
proof
  assume "heap_ready b used s"
  then show ?thesis by (rule heap.initialise_builds) (use assms in blast)+
next
  assume "early_ready b used s"
  then show ?thesis by (rule early.initialise_builds) (use assms in blast)+
qed

theorem initialise_initrd_builds_files_witness:
  "\<exists>v s'. initialise_initrd (kmalloc 1) demo_link 0x30000 demo_state = Some (initrd_root v, v, s')
    \<and> initrd_ok demo_link v (memory s') [([0x61], [0x68, 0x69])]"
proof -
  let ?files = "[([0x61], [0x68, 0x69])] :: ramfile list"
  have u: "demo_used a" if "within 0x30000 (4 + 76 * length ?files) a \<or> data_byte 0x30000 (memory demo_state) ?files a
      \<or> within (lit_initrd demo_link) (Suc (length [0x69 :: u8])) a \<or> within (lit_dev demo_link) 4 a" for a
    using that demo_data_byte [of a] within_mono [of "0x30000" 80 a 4870]
    by (auto simp: demo_used_def demo_link_def demo_creator(2) numeral_2_eq_2)
  show ?thesis
    using initialise_initrd_builds_files [OF disjI2 [OF demo_memory(4)] _ _ demo_image_ok u, where ini = "[0x69]" and fuel = 0]
      demo_memory
    by (fastforce simp: demo_link_def within_nat)
qed

text \<open>C15: When offset and size together do not wrap around, \<open>read_fs\<close> of a ramdisk file returns the number of bytes between the offset and the end of
  the file or the number asked for, whichever is less, and puts exactly these bytes into the
  buffer and nothing elsewhere; beyond the end it returns \<open>0\<close> and changes nothing.\<close>

theorem read_fs_returns_the_slice:
  assumes "initrd_ok lk v m files" "i < length files" "unat offset + unat sz < 4294967296"
    and "k = min (unat sz) (length (snd (files ! i)) - unat offset)"
    and "apart buffer k (load32 m (fh_offset (fh_at (file_headers v) (of_nat i))) + offset) k"
  shows "\<exists>m'. read_fs (initrd_code lk v) (node_at (root_nodes v) (of_nat i)) offset sz buffer m = Some (of_nat k, m')
    \<and> bytes m' buffer k = take k (drop (unat offset) (snd (files ! i)))
    \<and> (\<forall>a. \<not> within buffer k a \<longrightarrow> m' a = m a)"
proof (cases "unat offset \<le> length (snd (files ! i))")
  case True
  then show ?thesis by (rule read_fs_file [OF assms(1,2) _ assms(3-5)])
next
  case False
  then show ?thesis using read_fs_past_end [OF assms(1,2)] assms(4) by (auto simp: bytes_def)
qed

theorem read_fs_returns_the_slice_witness:
  "\<exists>v m m'. read_fs (initrd_code demo_link v) (node_at (root_nodes v) (of_nat 0)) 1 5 0x6000 m = Some (1, m')
     \<and> bytes m' 0x6000 1 = [0x69]"
proof -
  obtain v s' where "initialise_initrd (kmalloc 1) demo_link 0x30000 demo_state = Some (initrd_root v, v, s')"
    and ok: "initrd_ok demo_link v (memory s') [([0x61], [0x68, 0x69])]"
    and "dirent_apart demo_link v (memory s') [([0x61], [0x68, 0x69])]"
    and src: "\<And>a. within (load32 (memory s') (fh_offset (fh_at (file_headers v) 0))) 2 a \<Longrightarrow> within 0x30000 4870 a"
    by (rule demo_initialised) blast
  let ?p = "load32 (memory s') (fh_offset (fh_at (file_headers v) 0))"
  have "apart 0x6000 1 (?p + 1) 1"
    unfolding apart_iff
  proof (intro allI notI, elim conjE)
    fix a assume a: "within 0x6000 1 a" "within (?p + 1) 1 a"
    have "within ?p 2 a" using within_split [of 1 1 ?p a] a(2) by (simp add: numeral_2_eq_2)
    then show False using src [of a] a(1) by (auto simp: within_nat)
  qed
  then show ?thesis
    using read_fs_returns_the_slice [OF ok, of 0 1 5 1 "0x6000"] by auto
qed

text \<open>C22: The listing the kernel prints at start: entry \<open>k + 1\<close> of the root is the name of file \<open>k\<close>, and looking that name up, through the static
  entry itself, finds the node of this file, when the names are different and none is \<open>dev\<close>;
  behind the last file \<open>readdir_fs\<close> returns the null pointer.\<close>

theorem listing_finds_every_file:
  assumes ok: "initrd_ok lk v m files" and free: "dirent_apart lk v m files"
    and names: "distinct (map fst files)" "dev_name \<notin> fst ` set files"
  shows "(k < length files \<longrightarrow> (\<exists>m'. readdir_fs (initrd_code lk v) (initrd_root v) (of_nat (Suc k)) m = Some (at_dirent lk, m')
      \<and> cstr m' (at_dirent lk) (fst (files ! k)) \<and> initrd_ok lk v m' files
      \<and> finddir_fs (initrd_code lk v) (initrd_root v) (at_dirent lk) m' = Some (node_at (root_nodes v) (of_nat k), m')))
    \<and> (length files < unat j \<longrightarrow> readdir_fs (initrd_code lk v) (initrd_root v) j m = Some (0, m))"
proof (intro conjI impI)
  assume k: "k < length files"
  obtain m' where m': "readdir_fs (initrd_code lk v) (initrd_root v) (of_nat (Suc k)) m = Some (at_dirent lk, m')"
    "cstr m' (at_dirent lk) (fst (files ! k))" "\<And>a. \<not> within (at_dirent lk) 132 a \<Longrightarrow> m' a = m a"
    using readdir_entry [OF ok free k] by blast
  have ok': "initrd_ok lk v m' files"
    by (rule initrd_ok_frame [OF ok m'(3)]) (use free in \<open>auto simp: dirent_apart_def\<close>)
  have "name_index (fst (files ! k)) files = k" by (rule name_index_distinct [OF names(1) k])
  moreover have "fst (files ! k) \<noteq> dev_name" using names(2) k by (metis image_eqI nth_mem)
  ultimately have "finddir_fs (initrd_code lk v) (initrd_root v) (at_dirent lk) m' = Some (node_at (root_nodes v) (of_nat k), m')"
    using finddir_fs_first [OF ok' m'(2)] k by simp
  then show "\<exists>m'. readdir_fs (initrd_code lk v) (initrd_root v) (of_nat (Suc k)) m = Some (at_dirent lk, m')
      \<and> cstr m' (at_dirent lk) (fst (files ! k)) \<and> initrd_ok lk v m' files
      \<and> finddir_fs (initrd_code lk v) (initrd_root v) (at_dirent lk) m' = Some (node_at (root_nodes v) (of_nat k), m')"
    using m'(1,2) ok' by blast
qed (rule readdir_behind [OF ok])

theorem listing_finds_every_file_witness:
  "\<exists>v m m'. readdir_fs (initrd_code demo_link v) (initrd_root v) 1 m = Some (0x5000, m') \<and> cstr m' 0x5000 [0x61]
     \<and> finddir_fs (initrd_code demo_link v) (initrd_root v) 0x5000 m' = Some (node_at (root_nodes v) 0, m')"
proof -
  obtain v s' where "initialise_initrd (kmalloc 1) demo_link 0x30000 demo_state = Some (initrd_root v, v, s')"
    and ok: "initrd_ok demo_link v (memory s') [([0x61], [0x68, 0x69])]"
    and free: "dirent_apart demo_link v (memory s') [([0x61], [0x68, 0x69])]"
    and "\<And>a. within (load32 (memory s') (fh_offset (fh_at (file_headers v) 0))) 2 a \<Longrightarrow> within 0x30000 4870 a"
    by (rule demo_initialised) blast
  have at: "at_dirent demo_link = 0x5000" by (simp add: demo_link_def)
  show ?thesis
    using listing_finds_every_file [OF ok free, of 0 0] by (auto simp: at dev_name_def)
qed

text \<open>The image of the creator in memory, mounted; and what a mounted ramdisk delivers for one of its files.\<close>

lemma creator_image_mounted:
  assumes img: "init_rd_creator fs args junk = Inr img" "length junk = 76 * 64"
    and names: "\<forall>(p, nm) \<in> set args. 0 \<notin> set nm \<and> length nm < 64"
    and mem: "bytes (memory s) location (length img) = img" "unat location + length img < 4294967296"
    and rd: "heap_ready b used s \<or> early_ready b used s" "488 + 184 * length args \<le> b"
    and used: "\<And>a. within location (length img) a \<or> within (lit_initrd lk) (Suc (length ini)) a
      \<or> within (lit_dev lk) 4 a \<Longrightarrow> used a"
    and lits: "cstr (memory s) (lit_initrd lk) ini" "length ini < 128" "cstr (memory s) (lit_dev lk) dev_name"
      "apart (lit_dev lk) 4 location (length img)"
    and fns: "fn_read lk \<noteq> 0" "fn_readdir lk \<noteq> 0" "fn_finddir lk \<noteq> 0"
  obtains v s' where "initialise_initrd (kmalloc (Suc fuel)) lk location s = Some (initrd_root v, v, s')"
    "initrd_ok lk v (memory s') (ramfiles fs args)"
    "\<And>k a. k < length args \<Longrightarrow> within (load32 (memory s') (fh_offset (fh_at (file_headers v) (of_nat k))))
      (length (snd (ramfiles fs args ! k))) a \<Longrightarrow> within location (length img) a"
proof -
  let ?files = "ramfiles fs args"
  note image = image_of_creator [OF img names mem]
  have n: "length ?files = length args" by (simp add: ramfiles_def)
  have "\<forall>(p, nm) \<in> set args. length nm < 64" using names by auto
  then have small: "length args \<le> 64" "4868 \<le> length img" by (rule creator_parts [OF img], simp)+
  have hdr: "within location (length img) a" if "within location (4 + 76 * length args) a" for a
    by (rule within_mono [OF that]) (use small in simp)
  have "\<exists>v s'. initialise_initrd (kmalloc (Suc fuel)) lk location s = Some (initrd_root v, v, s')
    \<and> initrd_ok lk v (memory s') ?files
    \<and> (\<forall>a. initrd_byte lk v (memory s') ?files a \<longrightarrow> used a \<longrightarrow>
         within location (4 + 76 * length ?files) a \<or> data_byte location (memory s) ?files a \<or> within (lit_dev lk) 4 a)
    \<and> (\<forall>a. used a \<longrightarrow> \<not> within location (4 + 76 * length ?files) a \<longrightarrow> memory s' a = memory s a)
    \<and> file_headers v = location + 4
    \<and> (\<forall>j<length ?files. load32 (memory s') (fh_offset (fh_at (location + 4) (of_nat j)))
         = load32 (memory s) (fh_offset (fh_at (location + 4) (of_nat j))) + location)"
    using rd(1)
  proof
    assume "heap_ready b used s"
    then show ?thesis
      by (rule heap.initialise_builds)
        (use image lits fns rd(2) used small hdr n in \<open>auto simp: apart_iff\<close>)
  next
    assume "early_ready b used s"
    then show ?thesis
      by (rule early.initialise_builds)
        (use image lits fns rd(2) used small hdr n in \<open>auto simp: apart_iff\<close>)
  qed
  then obtain v s' where run: "initialise_initrd (kmalloc (Suc fuel)) lk location s = Some (initrd_root v, v, s')"
    and ok: "initrd_ok lk v (memory s') ?files" and fh: "file_headers v = location + 4"
    and off: "\<And>j. j < length args \<Longrightarrow> load32 (memory s') (fh_offset (fh_at (location + 4) (of_nat j)))
         = load32 (memory s) (fh_offset (fh_at (location + 4) (of_nat j))) + location"
    unfolding n by blast
  have "within location (length img) a" if k: "k < length args" and a: "within (load32 (memory s')
      (fh_offset (fh_at (file_headers v) (of_nat k)))) (length (snd (?files ! k))) a" for k a
    by (rule image(2)) (use a k off [OF k] fh n in \<open>auto simp: data_byte_def intro: exI [of _ k]\<close>)
  with run ok show thesis by (rule that)
qed

lemma ramdisk_delivers:
  assumes ok: "initrd_ok lk v m files" and k: "k < length files" "files ! k = (nm, d)"
    and names: "distinct (map fst files)" "nm \<noteq> dev_name"
  shows "cstr m p nm \<Longrightarrow> finddir_fs (initrd_code lk v) (initrd_root v) p m = Some (node_at (root_nodes v) (of_nat k), m)"
    and "apart buffer (length d) (load32 m (fh_offset (fh_at (file_headers v) (of_nat k)))) (length d) \<Longrightarrow>
      \<exists>m'. read_fs (initrd_code lk v) (node_at (root_nodes v) (of_nat k)) 0 (of_nat (length d)) buffer m
        = Some (of_nat (length d), m') \<and> bytes m' buffer (length d) = d"
proof -
  have "name_index nm files = k" using name_index_distinct [of files k] names(1) k by simp
  then show "cstr m p nm \<Longrightarrow> finddir_fs (initrd_code lk v) (initrd_root v) p m = Some (node_at (root_nodes v) (of_nat k), m)"
    using finddir_fs_first [OF ok, of p nm] names(2) k(1) by simp
  have "length d < 4294967296" using file_okD(3) [OF ok k(1)] by (simp add: k(2))
  then show "apart buffer (length d) (load32 m (fh_offset (fh_at (file_headers v) (of_nat k)))) (length d) \<Longrightarrow>
      \<exists>m'. read_fs (initrd_code lk v) (node_at (root_nodes v) (of_nat k)) 0 (of_nat (length d)) buffer m
        = Some (of_nat (length d), m') \<and> bytes m' buffer (length d) = d"
    using read_fs_file [OF ok k(1), of 0 "of_nat (length d)" "length d" buffer] by (auto simp: k(2) unat_of_nat_small)
qed

text \<open>C6: From the command line of \<open>init_rd_creator\<close> to the kernel: when the image it writes for some
  files is in memory at \<open>location\<close>, \<open>initialise_initrd\<close> succeeds, and then looking up the name of
  each argument finds its node and reading the node delivers the file, byte for byte, for names
  of at most 63 characters that are different and not \<open>dev\<close>.\<close>

theorem creator_image_is_read_back:
  assumes img: "init_rd_creator fs args junk = Inr img" "length junk = 76 * 64"
    and names: "\<forall>(p, nm) \<in> set args. 0 \<notin> set nm \<and> length nm < 64" "distinct (map snd args)" "dev_name \<notin> snd ` set args"
    and mem: "bytes (memory s) location (length img) = img" "unat location + length img < 4294967296"
    and rd: "heap_ready b used s \<or> early_ready b used s" "488 + 184 * length args \<le> b"
    and used: "\<And>a. within location (length img) a \<or> within (lit_initrd lk) (Suc (length ini)) a
      \<or> within (lit_dev lk) 4 a \<Longrightarrow> used a"
    and lits: "cstr (memory s) (lit_initrd lk) ini" "length ini < 128" "cstr (memory s) (lit_dev lk) dev_name"
      "apart (lit_dev lk) 4 location (length img)"
    and fns: "fn_read lk \<noteq> 0" "fn_readdir lk \<noteq> 0" "fn_finddir lk \<noteq> 0"
  shows "\<exists>v s'. initialise_initrd (kmalloc (Suc fuel)) lk location s = Some (initrd_root v, v, s')
    \<and> (\<forall>k<length args. \<exists>d. fs (fst (args ! k)) = Some d
      \<and> (\<forall>p. cstr (memory s') p (snd (args ! k)) \<longrightarrow>
           finddir_fs (initrd_code lk v) (initrd_root v) p (memory s') = Some (node_at (root_nodes v) (of_nat k), memory s'))
      \<and> (\<forall>buffer. apart buffer (length d) location (length img) \<longrightarrow>
           (\<exists>m'. read_fs (initrd_code lk v) (node_at (root_nodes v) (of_nat k)) 0 (of_nat (length d)) buffer (memory s')
              = Some (of_nat (length d), m') \<and> bytes m' buffer (length d) = d)))"
proof -
  let ?files = "ramfiles fs args"
  obtain v s' where run: "initialise_initrd (kmalloc (Suc fuel)) lk location s = Some (initrd_root v, v, s')"
    and ok: "initrd_ok lk v (memory s') ?files"
    and src: "\<And>k a. k < length args \<Longrightarrow> within (load32 (memory s') (fh_offset (fh_at (file_headers v) (of_nat k))))
      (length (snd (?files ! k))) a \<Longrightarrow> within location (length img) a"
    by (rule creator_image_mounted [OF img names(1) mem rd used lits fns, of fuel], assumption, rule that)
  have lens: "\<forall>(p, nm) \<in> set args. length nm < 64" using names(1) by auto
  have n: "length ?files = length args" and fst_files: "map fst ?files = map snd args"
    by (simp_all add: ramfiles_def o_def case_prod_unfold)
  have "\<exists>d. fs (fst (args ! k)) = Some d
      \<and> (\<forall>p. cstr (memory s') p (snd (args ! k)) \<longrightarrow>
           finddir_fs (initrd_code lk v) (initrd_root v) p (memory s') = Some (node_at (root_nodes v) (of_nat k), memory s'))
      \<and> (\<forall>buffer. apart buffer (length d) location (length img) \<longrightarrow>
           (\<exists>m'. read_fs (initrd_code lk v) (node_at (root_nodes v) (of_nat k)) 0 (of_nat (length d)) buffer (memory s')
              = Some (of_nat (length d), m') \<and> bytes m' buffer (length d) = d))" if k: "k < length args" for k
  proof -
    define d where "d = snd (?files ! k)"
    have d: "fs (fst (args ! k)) = Some d" unfolding d_def by (rule creator_parts [OF img lens]) (use k in blast)
    have f: "?files ! k = (snd (args ! k), d)" using k by (simp add: d_def ramfiles_def case_prod_unfold)
    have distinct: "distinct (map fst ?files)" using names(2) by (simp only: fst_files)
    have "snd (args ! k) \<noteq> dev_name" using names(3) k by (metis image_eqI nth_mem)
    note found = ramdisk_delivers [OF ok _ f distinct this]
    have "apart buffer (length d) (load32 (memory s') (fh_offset (fh_at (file_headers v) (of_nat k)))) (length d)"
      if "apart buffer (length d) location (length img)" for buffer
      by (rule apart_sub [OF that]) (use src [OF k] in \<open>simp_all add: f\<close>)
    then show ?thesis using d found k n by auto
  qed
  then show ?thesis using run by blast
qed

theorem creator_image_is_read_back_witness:
  "\<exists>v s'. initialise_initrd (kmalloc 1) demo_link 0x30000 demo_state = Some (initrd_root v, v, s')
    \<and> (\<exists>m'. read_fs (initrd_code demo_link v) (node_at (root_nodes v) 0) 0 2 0x6000 (memory s') = Some (2, m')
         \<and> bytes m' 0x6000 2 = [0x68, 0x69])"
proof -
  have n: "\<forall>(p, nm) \<in> set demo_args. 0 \<notin> set nm \<and> length nm < 64" "distinct (map snd demo_args)"
    "dev_name \<notin> snd ` set demo_args" by (simp_all add: demo_args_def dev_name_def)
  have u: "demo_used a" if "within 0x30000 (length demo_image) a \<or> within (lit_initrd demo_link) (Suc (length [0x69 :: u8])) a
      \<or> within (lit_dev demo_link) 4 a" for a
    using that by (auto simp: demo_used_def demo_link_def numeral_2_eq_2)
  have d: "demo_files (fst (demo_args ! 0)) = Some [0x68, 0x69]" "length demo_args = 1"
    by (simp_all add: demo_args_def demo_files_def)
  have ap: "apart (lit_dev demo_link) 4 0x30000 (length demo_image)" "apart 0x6000 2 0x30000 (length demo_image)"
    by (simp_all add: demo_link_def demo_creator(2) apart_iff within_nat)
  have "\<exists>v s'. initialise_initrd (kmalloc (Suc 0)) demo_link 0x30000 demo_state = Some (initrd_root v, v, s')
    \<and> (\<forall>k<length demo_args. \<exists>d. demo_files (fst (demo_args ! k)) = Some d
      \<and> (\<forall>p. cstr (memory s') p (snd (demo_args ! k)) \<longrightarrow>
           finddir_fs (initrd_code demo_link v) (initrd_root v) p (memory s') = Some (node_at (root_nodes v) (of_nat k), memory s'))
      \<and> (\<forall>buffer. apart buffer (length d) 0x30000 (length demo_image) \<longrightarrow>
           (\<exists>m'. read_fs (initrd_code demo_link v) (node_at (root_nodes v) (of_nat k)) 0 (of_nat (length d)) buffer (memory s')
              = Some (of_nat (length d), m') \<and> bytes m' buffer (length d) = d)))"
    by (rule creator_image_is_read_back [OF demo_creator(1) _ n demo_memory(1) _ disjI2 [OF demo_memory(4)] _ u, where ini = "[0x69]"])
      (use demo_memory ap in \<open>simp_all add: demo_link_def demo_creator(2) d(2)\<close>)
  then obtain v s' where run: "initialise_initrd (kmalloc (Suc 0)) demo_link 0x30000 demo_state = Some (initrd_root v, v, s')"
    and all: "\<forall>k<length demo_args. \<exists>d. demo_files (fst (demo_args ! k)) = Some d
      \<and> (\<forall>p. cstr (memory s') p (snd (demo_args ! k)) \<longrightarrow>
           finddir_fs (initrd_code demo_link v) (initrd_root v) p (memory s') = Some (node_at (root_nodes v) (of_nat k), memory s'))
      \<and> (\<forall>buffer. apart buffer (length d) 0x30000 (length demo_image) \<longrightarrow>
           (\<exists>m'. read_fs (initrd_code demo_link v) (node_at (root_nodes v) (of_nat k)) 0 (of_nat (length d)) buffer (memory s')
              = Some (of_nat (length d), m') \<and> bytes m' buffer (length d) = d))" by (elim exE conjE)
  have "0 < length demo_args" using d(2) by simp
  with all obtain d' where "demo_files (fst (demo_args ! 0)) = Some d'"
    and rd: "\<forall>buffer. apart buffer (length d') 0x30000 (length demo_image) \<longrightarrow>
           (\<exists>m'. read_fs (initrd_code demo_link v) (node_at (root_nodes v) (of_nat 0)) 0 (of_nat (length d')) buffer (memory s')
              = Some (of_nat (length d'), m') \<and> bytes m' buffer (length d') = d')" by blast
  then have "d' = [0x68, 0x69]" using d(1) by simp
  then have "length d' = 2" "d' = [0x68, 0x69]" by simp_all
  then have "\<exists>m'. read_fs (initrd_code demo_link v) (node_at (root_nodes v) 0) 0 2 0x6000 (memory s') = Some (2, m')
         \<and> bytes m' 0x6000 2 = [0x68, 0x69]" using rd [THEN spec, of "0x6000"] ap(2) by (simp add: numeral_2_eq_2)
  then show ?thesis using run by (intro exI [of _ v] exI [of _ s'] conjI) simp_all
qed

text \<open>C39: \<open>init_rd_creator\<close> with at most 64 files and names that fit, when the image itself can be opened, fails in
  one case only, and then reports it: some path cannot be opened. Otherwise it writes an image, of the fixed header size and
  the sizes of the files.\<close>

theorem creator_reports_missing_files:
  assumes "length args \<le> 64" "length junk = 76 * 64" "\<forall>(p, nm) \<in> set args. length nm < 64"
  shows "if \<exists>(p, nm) \<in> set args. fs p = None then init_rd_creator fs args junk = Inl File_Not_Found
    else \<exists>img. init_rd_creator fs args junk = Inr img
      \<and> length img = 4868 + (\<Sum>(p, nm) \<leftarrow> args. length (the (fs p)))"
  using fill_headers_outcome [of 0 args junk fs "76 * 64 + 4"] assms
  by (auto simp: init_rd_creator_def Let_def length_concat le32_bytes o_def case_prod_unfold split: if_splits)

theorem creator_reports_missing_files_witness:
  "init_rd_creator demo_files [(7, [0x61])] (replicate (76 * 64) 0) = Inl File_Not_Found"
  using creator_reports_missing_files [of "[(7, [0x61])]" "replicate (76 * 64) 0" demo_files]
  by (simp add: demo_files_def)

end
