(* ===== verification/Ata.thy ===== *)
theory Ata
  imports Port_Io Machine_Memory
begin

text \<open>
  The disk driver of \<open>kernel/drivers/ata/ata.c\<close>: programmed input and output of whole sectors with
  28-bit addresses on the primary bus. The two waiting loops return only if the disk lets them.
\<close>

subsection \<open>The code\<close>

definition STATUS_BSY :: u8 where "STATUS_BSY = 0x80"
definition STATUS_RDY :: u8 where "STATUS_RDY = 0x40"

partial_function (option) ATA_wait_BSY :: "device \<Rightarrow> ports \<Rightarrow> ports option" where
  "ATA_wait_BSY dev io =
     (let (status, io) = inb dev 0x1F7 io
      in if status AND STATUS_BSY \<noteq> 0 then ATA_wait_BSY dev io else Some io)"

partial_function (option) ATA_wait_DRQ :: "device \<Rightarrow> ports \<Rightarrow> ports option" where
  "ATA_wait_DRQ dev io =
     (let (status, io) = inb dev 0x1F7 io
      in if status AND STATUS_RDY = 0 then ATA_wait_DRQ dev io else Some io)"

text \<open>The register writes that precede a transfer; \<open>cmd\<close> is \<open>0x20\<close> to read and \<open>0x30\<close> to write.\<close>

definition send_command :: "u32 \<Rightarrow> u8 \<Rightarrow> u8 \<Rightarrow> ports \<Rightarrow> ports" where
  "send_command LBA sector_count cmd io =
     (let io = outb 0x1F6 (ucast (0xE0 OR (drop_bit 24 LBA AND 0xF))) io;
          io = outb 0x1F2 sector_count io;
          io = outb 0x1F3 (ucast LBA) io;
          io = outb 0x1F4 (ucast (drop_bit 8 LBA)) io;
          io = outb 0x1F5 (ucast (drop_bit 16 LBA)) io
      in outb 0x1F7 cmd io)"

definition read_word :: "device \<Rightarrow> u32 \<Rightarrow> nat \<Rightarrow> ports \<times> mem \<Rightarrow> ports \<times> mem" where
  "read_word dev target i = (\<lambda>(io, m).
     let (w, io) = inw dev 0x1F0 io in (io, store16 m (target + 2 * of_nat i) w))"

fun read_loop :: "device \<Rightarrow> nat \<Rightarrow> u32 \<Rightarrow> ports \<times> mem \<Rightarrow> (ports \<times> mem) option" where
  "read_loop dev 0 target st = Some st"
| "read_loop dev (Suc n) target (io, m) =
     Option.bind (ATA_wait_BSY dev io) (\<lambda>io.
     Option.bind (ATA_wait_DRQ dev io) (\<lambda>io.
       read_loop dev n (target + 512) (fold (read_word dev target) [0..<256] (io, m))))"

definition read_sectors_ATA_PIO :: "device \<Rightarrow> u32 \<Rightarrow> u32 \<Rightarrow> u8 \<Rightarrow> ports \<times> mem \<Rightarrow> (ports \<times> mem) option" where
  "read_sectors_ATA_PIO dev target_address LBA sector_count = (\<lambda>(io, m).
     Option.bind (ATA_wait_BSY dev io) (\<lambda>io.
       read_loop dev (unat sector_count) target_address (send_command LBA sector_count 0x20 io, m)))"

text \<open>The data port takes 32 bits at a time here, and \<open>bytes\<close> does not advance.\<close>

fun write_loop :: "device \<Rightarrow> mem \<Rightarrow> u32 \<Rightarrow> nat \<Rightarrow> ports \<Rightarrow> ports option" where
  "write_loop dev m bytes 0 io = Some io"
| "write_loop dev m bytes (Suc n) io =
     Option.bind (ATA_wait_BSY dev io) (\<lambda>io.
     Option.bind (ATA_wait_DRQ dev io) (\<lambda>io.
       write_loop dev m bytes n (fold (\<lambda>i. outl 0x1F0 (load32 m (bytes + 4 * of_nat i))) [0..<256] io)))"

definition write_sectors_ATA_PIO :: "device \<Rightarrow> mem \<Rightarrow> u32 \<Rightarrow> u8 \<Rightarrow> u32 \<Rightarrow> ports \<Rightarrow> ports option" where
  "write_sectors_ATA_PIO dev m LBA sector_count bytes io =
     Option.bind (ATA_wait_BSY dev io) (\<lambda>io.
       write_loop dev m bytes (unat sector_count) (send_command LBA sector_count 0x30 io))"

subsection \<open>The disk it talks to\<close>

text \<open>
  The registers of the disk and the transfer in progress: nothing, data in from a sector on (first sector, words
  in all, words fetched), or data out. A command starts a transfer when the drive register selects the first
  drive with a 28-bit sector number; a count of 0 stands for 256 sectors. A disk that is busy ignores every access.
\<close>

datatype ata_job = Idle | Data_In nat nat nat | Data_Out nat nat nat

record ata =
  ata_drive :: u8
  ata_count :: u8
  ata_low :: u8
  ata_mid :: u8
  ata_high :: u8
  ata_job :: ata_job

definition ata_sector :: "ata \<Rightarrow> nat" where
  "ata_sector d = unat (ata_low d) + 2 ^ 8 * unat (ata_mid d) + 2 ^ 16 * unat (ata_high d) + 2 ^ 24 * (unat (ata_drive d) mod 16)"

definition ata_total :: "ata \<Rightarrow> nat" where
  "ata_total d = 256 * (if ata_count d = 0 then 256 else unat (ata_count d))"

definition data_in :: "nat \<Rightarrow> nat \<Rightarrow> nat \<Rightarrow> ata_job" where
  "data_in l t k = (if k < t then Data_In l t k else Idle)"

definition ata_start :: "u8 \<Rightarrow> ata \<Rightarrow> ata_job" where
  "ata_start cmd d =
     (if ata_drive d AND 0xF0 \<noteq> 0xE0 then Idle
      else if cmd = 0x20 then data_in (ata_sector d) (ata_total d) 0
      else if cmd = 0x30 then Data_Out (ata_sector d) (ata_total d) 0 else Idle)"

fun ata_access :: "port_event \<Rightarrow> ata \<Rightarrow> ata" where
  "ata_access (Out8 port v) d =
     (if port = 0x1F6 then d\<lparr>ata_drive := v\<rparr> else if port = 0x1F2 then d\<lparr>ata_count := v\<rparr>
      else if port = 0x1F3 then d\<lparr>ata_low := v\<rparr> else if port = 0x1F4 then d\<lparr>ata_mid := v\<rparr>
      else if port = 0x1F5 then d\<lparr>ata_high := v\<rparr>
      else if port = 0x1F7 \<and> ata_job d = Idle then d\<lparr>ata_job := ata_start v d\<rparr> else d)"
| "ata_access (In16 port v) d =
     (case ata_job d of Data_In l t k \<Rightarrow> if port = 0x1F0 then d\<lparr>ata_job := data_in l t (k + 1)\<rparr> else d | _ \<Rightarrow> d)"
| "ata_access (Out32 port v) d =
     (case ata_job d of Data_Out l t k \<Rightarrow>
        if port = 0x1F0 then d\<lparr>ata_job := (if k + 2 < t then Data_Out l t (k + 2) else Idle)\<rparr> else d | _ \<Rightarrow> d)"
| "ata_access _ d = d"

definition ata_busy :: "device \<Rightarrow> ports \<Rightarrow> bool" where "ata_busy dev io = bit (dev io 0x1F7) 7"
definition ata_drq :: "device \<Rightarrow> ports \<Rightarrow> bool" where "ata_drq dev io = bit (dev io 0x1F7) 3"

text \<open>The accesses in the order of the last one first.\<close>

fun ata_rev :: "(ports \<Rightarrow> bool) \<Rightarrow> ports \<Rightarrow> ata" where
  "ata_rev busy [] = \<lparr>ata_drive = 0, ata_count = 0, ata_low = 0, ata_mid = 0, ata_high = 0, ata_job = Idle\<rparr>"
| "ata_rev busy (ev # rio) = (if busy (rev rio) then ata_rev busy rio else ata_access ev (ata_rev busy rio))"

definition ata_after :: "device \<Rightarrow> ports \<Rightarrow> ata" where "ata_after dev io = ata_rev (ata_busy dev) (rev io)"

text \<open>The accesses after which the disk may be busy: a command, and the last word of a sector.\<close>

fun begins_work :: "port_event \<Rightarrow> ata \<Rightarrow> bool" where
  "begins_work (Out8 port v) d \<longleftrightarrow> port = 0x1F7"
| "begins_work (In16 port v) d \<longleftrightarrow> port = 0x1F0 \<and> (\<forall>l t k. ata_job d = Data_In l t k \<longrightarrow> Suc k mod 256 = 0)"
| "begins_work (Out32 port v) d \<longleftrightarrow> port = 0x1F0"
| "begins_work _ d \<longleftrightarrow> False"

text \<open>Reading the status register some times.\<close>

fun polls :: "device \<Rightarrow> nat \<Rightarrow> ports \<Rightarrow> ports" where
  "polls dev 0 io = io"
| "polls dev (Suc n) io = polls dev n (io @ [In8 0x1F7 (ucast (dev io 0x1F7))])"

text \<open>
  Every command comes to an end, and a disk that is not busy is ready. In a transfer it asks for data when it is
  not busy, and then the data port has the next word of the disk; it stays so up to the end of a sector.
\<close>

definition becomes_ready :: "device \<Rightarrow> bool" where
  "becomes_ready dev \<longleftrightarrow> (\<forall>io. (\<exists>n. \<not> ata_busy dev (polls dev n io)) \<and> (\<not> ata_busy dev io \<longrightarrow> bit (dev io 0x1F7) 6))"

definition ata_disk :: "(nat \<Rightarrow> u16) \<Rightarrow> device \<Rightarrow> bool" where
  "ata_disk disk dev \<longleftrightarrow> becomes_ready dev
     \<and> (\<forall>io. \<not> ata_busy dev io \<longrightarrow>
          (ata_job (ata_after dev io) \<noteq> Idle \<longrightarrow> ata_drq dev io)
        \<and> (\<forall>l t k. ata_drq dev io \<longrightarrow> ata_job (ata_after dev io) = Data_In l t k \<longrightarrow> ucast (dev io 0x1F0) = disk (256 * l + k))
        \<and> (\<forall>ev. \<not> begins_work ev (ata_after dev io) \<longrightarrow> \<not> ata_busy dev (io @ [ev])))"

text \<open>
  What the comment at the top of the file asks of a driver: only the status register is read while the disk
  is busy, and the data register is not read while the disk does not ask for data.
\<close>

fun allowed :: "device \<Rightarrow> ports \<Rightarrow> port_event \<Rightarrow> bool" where
  "allowed dev io (In8 port v) \<longleftrightarrow> port = 0x1F7"
| "allowed dev io (In16 port v) \<longleftrightarrow> \<not> ata_busy dev io \<and> (port = 0x1F0 \<longrightarrow> ata_drq dev io)"
| "allowed dev io ev \<longleftrightarrow> \<not> ata_busy dev io"

inductive protocol :: "device \<Rightarrow> ports \<Rightarrow> ports \<Rightarrow> bool" for dev :: device and io :: ports where
  nothing: "protocol dev io io"
| access: "protocol dev io io' \<Longrightarrow> allowed dev io' ev \<Longrightarrow> protocol dev io (io' @ [ev])"

lemma protocol_trans:
  assumes "protocol dev io io'" "protocol dev io' io''"
  shows "protocol dev io io''"
  using assms(2,1) by induction (auto intro: protocol.intros)

lemma protocol_one: "allowed dev io ev \<Longrightarrow> protocol dev io (io @ [ev])"
  by (auto intro: protocol.intros)

lemma ata_after_snoc: "ata_after dev (io @ [ev]) = (if ata_busy dev io then ata_after dev io else ata_access ev (ata_after dev io))"
  by (simp add: ata_after_def)

lemma ata_disk_step:
  assumes "ata_disk disk dev" "\<not> ata_busy dev io"
  shows "ata_job (ata_after dev io) \<noteq> Idle \<Longrightarrow> ata_drq dev io"
    and "ata_drq dev io \<Longrightarrow> ata_job (ata_after dev io) = Data_In l t k \<Longrightarrow> ucast (dev io 0x1F0) = disk (256 * l + k)"
    and "\<not> begins_work ev (ata_after dev io) \<Longrightarrow> \<not> ata_busy dev (io @ [ev])"
    and "ata_after dev (io @ [ev]) = ata_access ev (ata_after dev io)"
  using assms by (simp_all add: ata_disk_def ata_after_snoc)

subsection \<open>Waiting\<close>

lemma status_bits:
  "(ucast v :: u8) AND STATUS_BSY \<noteq> 0 \<longleftrightarrow> bit (v :: u32) 7" "(ucast v :: u8) AND STATUS_RDY = 0 \<longleftrightarrow> \<not> bit (v :: u32) 6"
proof -
  have r: "STATUS_BSY = 2 ^ 7" "STATUS_RDY = 2 ^ 6" by (simp_all add: STATUS_BSY_def STATUS_RDY_def)
  show "(ucast v :: u8) AND STATUS_BSY \<noteq> 0 \<longleftrightarrow> bit v 7" "(ucast v :: u8) AND STATUS_RDY = 0 \<longleftrightarrow> \<not> bit v 6"
    by (simp_all only: r and_exp_eq_0_iff_not_bit not_not) (simp_all add: bit_simps)
qed

lemma wait_BSY_polls:
  "\<not> ata_busy dev (polls dev n io) \<Longrightarrow>
    \<exists>k. ATA_wait_BSY dev io = Some (polls dev (Suc k) io) \<and> \<not> ata_busy dev (polls dev k io)"
proof (induction n arbitrary: io)
  case 0
  then show ?case
    by (subst ATA_wait_BSY.simps, intro exI [of _ 0]) (simp add: inb_def Let_def status_bits ata_busy_def)
next
  case (Suc n)
  let ?io = "io @ [In8 0x1F7 (ucast (dev io 0x1F7))]"
  obtain k where k: "ATA_wait_BSY dev ?io = Some (polls dev (Suc k) ?io)" "\<not> ata_busy dev (polls dev k ?io)"
    using Suc.IH [of ?io] Suc.prems by auto
  show ?case
  proof (cases "ata_busy dev io")
    case True
    then have "ATA_wait_BSY dev io = ATA_wait_BSY dev ?io"
      by (subst ATA_wait_BSY.simps) (simp add: inb_def Let_def status_bits ata_busy_def)
    then show ?thesis using k by (intro exI [of _ "Suc k"]) simp
  next
    case False
    then show ?thesis
      by (subst ATA_wait_BSY.simps, intro exI [of _ 0]) (simp add: inb_def Let_def status_bits ata_busy_def)
  qed
qed

lemma wait_DRQ_polls:
  "bit (dev (polls dev n io) 0x1F7) 6 \<Longrightarrow> \<exists>k. ATA_wait_DRQ dev io = Some (polls dev (Suc k) io)"
proof (induction n arbitrary: io)
  case 0
  then show ?case
    by (subst ATA_wait_DRQ.simps, intro exI [of _ 0]) (simp add: inb_def Let_def status_bits)
next
  case (Suc n)
  let ?io = "io @ [In8 0x1F7 (ucast (dev io 0x1F7))]"
  obtain k where k: "ATA_wait_DRQ dev ?io = Some (polls dev (Suc k) ?io)"
    using Suc.IH [of ?io] Suc.prems by auto
  show ?case
  proof (cases "bit (dev io 0x1F7) 6")
    case True
    then show ?thesis
      by (subst ATA_wait_DRQ.simps, intro exI [of _ 0]) (simp add: inb_def Let_def status_bits)
  next
    case False
    then have "ATA_wait_DRQ dev io = ATA_wait_DRQ dev ?io"
      by (subst ATA_wait_DRQ.simps) (simp add: inb_def Let_def status_bits)
    then show ?thesis using k by (intro exI [of _ "Suc k"]) simp
  qed
qed

lemma waits_return:
  assumes "becomes_ready dev"
  obtains k n where "ATA_wait_BSY dev io = Some (polls dev k io)"
    "ATA_wait_DRQ dev (polls dev k io) = Some (polls dev n (polls dev k io))"
proof -
  obtain n where "\<not> ata_busy dev (polls dev n io)" using assms by (auto simp: becomes_ready_def)
  then obtain k where k: "ATA_wait_BSY dev io = Some (polls dev (Suc k) io)" using wait_BSY_polls by blast
  obtain j where "\<not> ata_busy dev (polls dev j (polls dev (Suc k) io))" using assms unfolding becomes_ready_def by blast
  then have "bit (dev (polls dev j (polls dev (Suc k) io)) 0x1F7) 6" using assms unfolding becomes_ready_def by blast
  then obtain i where "ATA_wait_DRQ dev (polls dev (Suc k) io) = Some (polls dev (Suc i) (polls dev (Suc k) io))"
    using wait_DRQ_polls [of dev j "polls dev (Suc k) io"] by blast
  then show thesis by (rule that [OF k])
qed

lemma polls_Suc: "polls dev (Suc n) io = polls dev n io @ [In8 0x1F7 (ucast (dev (polls dev n io) 0x1F7))]"
proof (induction n arbitrary: io)
  case (Suc n)
  show ?case by (subst polls.simps(2)) (subst Suc.IH, simp)
qed simp

lemma polls_nothing:
  "ata_after dev (polls dev n io) = ata_after dev io" "protocol dev io (polls dev n io)"
proof -
  show "ata_after dev (polls dev n io) = ata_after dev io"
    by (induction n) (simp_all add: polls_Suc ata_after_snoc del: polls.simps(2))
  show "protocol dev io (polls dev n io)"
    by (induction n) (auto simp: polls_Suc simp del: polls.simps(2) intro: protocol.intros)
qed

text \<open>After the wait for BSY the disk is not busy, and a wait for RDY then returns at once.\<close>

lemma wait_idle:
  assumes "ata_disk disk dev"
  obtains io' where "ATA_wait_BSY dev io = Some io'" "\<not> ata_busy dev io'" "ata_after dev io' = ata_after dev io" "protocol dev io io'"
proof -
  obtain n where "\<not> ata_busy dev (polls dev n io)" using assms unfolding ata_disk_def becomes_ready_def by blast
  then obtain k where k: "ATA_wait_BSY dev io = Some (polls dev (Suc k) io)" "\<not> ata_busy dev (polls dev k io)"
    using wait_BSY_polls by blast
  have "\<not> ata_busy dev (polls dev (Suc k) io)"
    unfolding polls_Suc by (rule ata_disk_step(3) [OF assms k(2)]) simp
  then show thesis by (rule that [OF k(1) _ polls_nothing])
qed

lemma wait_request:
  assumes "ata_disk disk dev" "\<not> ata_busy dev io"
  obtains io' where "ATA_wait_DRQ dev io = Some io'" "\<not> ata_busy dev io'" "ata_after dev io' = ata_after dev io" "protocol dev io io'"
proof -
  let ?ev = "In8 0x1F7 (ucast (dev io 0x1F7))"
  have "bit (dev io 0x1F7) 6" using assms by (simp add: ata_disk_def becomes_ready_def)
  then have "ATA_wait_DRQ dev io = Some (io @ [?ev])"
    by (subst ATA_wait_DRQ.simps) (simp add: inb_def Let_def status_bits)
  moreover have "\<not> ata_busy dev (io @ [?ev])" "ata_after dev (io @ [?ev]) = ata_after dev io"
    using ata_disk_step(3,4) [OF assms, of ?ev] by simp_all
  ultimately show thesis using protocol_one [of dev io ?ev] by (intro that) simp_all
qed

subsection \<open>Words in memory\<close>

text \<open>The memory with \<open>n\<close> words stored from \<open>t\<close> on.\<close>

definition words_at :: "u32 \<Rightarrow> nat \<Rightarrow> (nat \<Rightarrow> u16) \<Rightarrow> mem \<Rightarrow> mem" where
  "words_at t n f m = (\<lambda>c. let k = unat (c - t) in
     if k < 2 * n then (if even k then ucast (f (k div 2)) else ucast (drop_bit 8 (f (k div 2)))) else m c)"

lemma words_at_0 [simp]: "words_at t 0 f m = m"
  by (simp add: words_at_def)

lemma words_at_Suc:
  assumes "2 * Suc n \<le> 4294967296"
  shows "store16 (words_at t n f m) (t + of_nat (2 * n)) (f n) = words_at t (Suc n) f m"
proof (rule ext)
  fix c
  let ?k = "unat (c - t)"
  have c: "c = t + of_nat ?k" by simp
  have eq: "c = t + of_nat j \<longleftrightarrow> ?k = j" if "j < 4294967296" for j
    using that word_add_of_nat_inject [of ?k j t] c by simp
  have "t + of_nat (2 * n) + 1 = t + of_nat (Suc (2 * n))" by simp
  then show "store16 (words_at t n f m) (t + of_nat (2 * n)) (f n) c = words_at t (Suc n) f m c"
    using eq [of "2 * n"] eq [of "Suc (2 * n)"] assms
    by (auto simp: store16_def words_at_def Let_def less_Suc_eq simp del: of_nat_mult of_nat_Suc)
qed

lemma words_at_append:
  assumes "512 + 2 * n \<le> 4294967296"
  shows "words_at (t + 512) n (\<lambda>i. f (256 + i)) (words_at t 256 f m) = words_at t (256 + n) f m"
proof (rule ext)
  fix c
  let ?k = "unat (c - t)"
  have e: "c - (t + 512) = (c - t) - 512" by simp
  show "words_at (t + 512) n (\<lambda>i. f (256 + i)) (words_at t 256 f m) c = words_at t (256 + n) f m c"
  proof (cases "512 \<le> ?k")
    case True
    then have "unat (c - (t + 512)) = ?k - 512" unfolding e using unat_sub_nowrap [of 512 "c - t"] by simp
    moreover have "even (?k - 512) = even ?k" "256 + (?k - 512) div 2 = ?k div 2" using True by presburger+
    ultimately show ?thesis using True by (auto simp: words_at_def Let_def)
  next
    case False
    have "(c - t) - 512 = of_nat (?k + 4294967296 - 512)"
      using False by (simp add: of_nat_diff)
    then have "unat (c - (t + 512)) = ?k + 4294967296 - 512"
      unfolding e using False by (simp only: unat_of_nat_small)
    then show ?thesis using False assms by (auto simp: words_at_def Let_def)
  qed
qed

lemma load16_words_at:
  assumes "i < n" "2 * n \<le> 4294967296"
  shows "load16 (words_at t n f m) (t + of_nat (2 * i)) = f i"
proof -
  have "words_at t n f m (t + of_nat (2 * i)) = ucast (f i)"
    "words_at t n f m (t + of_nat (2 * i) + 1) = ucast (drop_bit 8 (f i))"
    using assms unat_of_nat_small [of "2 * i"] unat_of_nat_small [of "Suc (2 * i)"]
    by (simp_all add: words_at_def Let_def add.commute)
  then show ?thesis by (auto simp: load16_def bit_simps intro!: bit_word_eqI)
qed

subsection \<open>A transfer\<close>

text \<open>The registers, and then the command.\<close>

lemma registers_written:
  assumes "ata_disk disk dev"
  shows "\<not> ata_busy dev io \<Longrightarrow> \<forall>(p, v) \<in> set ws. p \<noteq> 0x1F7 \<Longrightarrow>
    \<not> ata_busy dev (io @ map (\<lambda>(p, v). Out8 p v) ws)
    \<and> ata_after dev (io @ map (\<lambda>(p, v). Out8 p v) ws) = fold ata_access (map (\<lambda>(p, v). Out8 p v) ws) (ata_after dev io)
    \<and> protocol dev io (io @ map (\<lambda>(p, v). Out8 p v) ws)"
proof (induction ws rule: rev_induct)
  case Nil
  then show ?case by (simp add: protocol.nothing)
next
  case (snoc w ws)
  obtain p v where w: "w = (p, v)" by fastforce
  let ?io = "io @ map (\<lambda>(p, v). Out8 p v) ws"
  have io: "\<not> ata_busy dev ?io" "ata_after dev ?io = fold ata_access (map (\<lambda>(p, v). Out8 p v) ws) (ata_after dev io)"
    "protocol dev io ?io" using snoc by auto
  have "p \<noteq> 0x1F7" using snoc.prems(2) by (simp add: w)
  then have "\<not> ata_busy dev (?io @ [Out8 p v])" by (intro ata_disk_step(3) [OF assms io(1)]) simp
  moreover have "protocol dev io (?io @ [Out8 p v])" using io(1,3) by (intro access) simp_all
  ultimately show ?case using ata_disk_step(4) [OF assms io(1), of "Out8 p v"] io(2) by (simp add: w)
qed

lemma sector_number:
  "unat (ucast LBA :: u8) + 2 ^ 8 * unat (ucast (drop_bit 8 LBA) :: u8) + 2 ^ 16 * unat (ucast (drop_bit 16 LBA) :: u8)
    + 2 ^ 24 * (unat (ucast (0xE0 OR (drop_bit 24 LBA AND 0xF)) :: u8) mod 16) = unat (LBA :: u32) mod 2 ^ 28"
proof -
  have b: "unat (ucast v :: u8) = unat v mod 256" for v :: u32
    by (simp add: unsigned_ucast_eq take_bit_eq_mod)
  have d: "unat (drop_bit k LBA) = unat LBA div 2 ^ k" for k
    by (simp only: unsigned_drop_bit_eq) (simp add: drop_bit_eq_div take_bit_nat_eq_self)
  have "(0xE0 OR (drop_bit 24 LBA AND 0xF)) AND 0xF = drop_bit 24 LBA AND 0xF"
    by (simp add: bit.conj_disj_distrib2)
  moreover have f: "(0xF :: u32) = mask 4" by (simp add: mask_eq_exp_minus_1)
  ultimately have "take_bit 4 (0xE0 OR (drop_bit 24 LBA AND 0xF)) = take_bit 4 (drop_bit 24 LBA)"
    by (simp only: take_bit_eq_mask)
  then have "unat (take_bit 4 (0xE0 OR (drop_bit 24 LBA AND 0xF))) = unat (take_bit 4 (drop_bit 24 LBA))" by simp
  then have h: "unat (0xE0 OR (drop_bit 24 LBA AND 0xF)) mod 16 = unat LBA div 2 ^ 24 mod 16"
    unfolding unsigned_take_bit_eq unfolding take_bit_eq_mod d by simp
  have "unat (ucast (0xE0 OR (drop_bit 24 LBA AND 0xF)) :: u8) mod 16 = unat LBA div 2 ^ 24 mod 16"
    unfolding b using h by (simp add: mod_mod_cancel)
  moreover have "x mod 256 + 2 ^ 8 * (x div 2 ^ 8 mod 256) + 2 ^ 16 * (x div 2 ^ 16 mod 256) + 2 ^ 24 * (x div 2 ^ 24 mod 16)
     = x mod 2 ^ 28" for x :: nat
    using mod_mult2_eq [of x "2 ^ 24" 16] mod_mult2_eq [of x "2 ^ 16" 256] mod_mult2_eq [of x "2 ^ 8" 256] by simp
  ultimately show ?thesis by (simp add: b d)
qed

lemma drive_selected: "(ucast (0xE0 OR (drop_bit 24 LBA AND 0xF)) :: u8) AND 0xF0 = 0xE0" for LBA :: u32
proof -
  have "(ucast (0xE0 OR (drop_bit 24 LBA AND 0xF)) :: u8) = 0xE0 OR (ucast (drop_bit 24 LBA) AND 0xF)"
    by (simp add: unsigned_or_eq unsigned_and_eq)
  then show ?thesis by (simp add: bit.conj_disj_distrib2 and.assoc)
qed

text \<open>What the six writes make of an idle disk.\<close>

lemma command_sent:
  assumes disk: "ata_disk disk dev" and io: "\<not> ata_busy dev io" "ata_job (ata_after dev io) = Idle"
  shows "ata_job (ata_after dev (send_command LBA n 0x20 io))
      = data_in (unat LBA mod 2 ^ 28) (256 * (if n = 0 then 256 else unat n)) 0"
    and "protocol dev io (send_command LBA n 0x20 io)"
proof -
  let ?ws = "[(0x1F6, ucast (0xE0 OR (drop_bit 24 LBA AND 0xF))), (0x1F2, n), (0x1F3, ucast LBA),
    (0x1F4, ucast (drop_bit 8 LBA)), (0x1F5, ucast (drop_bit 16 LBA))] :: (u16 \<times> u8) list"
  let ?io = "io @ map (\<lambda>(p, v). Out8 p v) ?ws"
  have r: "\<not> ata_busy dev ?io" "ata_after dev ?io = fold ata_access (map (\<lambda>(p, v). Out8 p v) ?ws) (ata_after dev io)"
    "protocol dev io ?io" using registers_written [OF disk io(1), of ?ws] by simp_all
  have s: "send_command LBA n 0x20 io = ?io @ [Out8 0x1F7 0x20]" by (simp add: send_command_def outb_def Let_def)
  show "protocol dev io (send_command LBA n 0x20 io)" unfolding s by (rule access [OF r(3)]) (use r(1) in simp)
  define d where "d = ata_after dev ?io"
  have d: "ata_job d = Idle" "ata_drive d = ucast (0xE0 OR (drop_bit 24 LBA AND 0xF))" "ata_count d = n"
    "ata_low d = ucast LBA" "ata_mid d = ucast (drop_bit 8 LBA)" "ata_high d = ucast (drop_bit 16 LBA)"
    unfolding d_def r(2) by (simp_all add: io(2))
  have "ata_after dev (?io @ [Out8 0x1F7 0x20]) = ata_access (Out8 0x1F7 0x20) d"
    unfolding d_def by (rule ata_disk_step(4) [OF disk r(1)])
  moreover have "ata_sector d = unat LBA mod 2 ^ 28" unfolding ata_sector_def d(2,4-6) by (rule sector_number)
  ultimately show "ata_job (ata_after dev (send_command LBA n 0x20 io))
      = data_in (unat LBA mod 2 ^ 28) (256 * (if n = 0 then 256 else unat n)) 0"
    unfolding s by (simp add: d(1-3) ata_start_def drive_selected ata_total_def)
qed

lemma read_word_step:
  assumes disk: "ata_disk disk dev" and io: "\<not> ata_busy dev io" "ata_job (ata_after dev io) = Data_In S t (w + i)"
    and i: "2 * Suc i \<le> 4294967296" and m: "m = words_at target i (\<lambda>j. disk (256 * S + w + j)) m0"
  shows "\<exists>io'. read_word dev target i (io, m) = (io', words_at target (Suc i) (\<lambda>j. disk (256 * S + w + j)) m0)
    \<and> ata_job (ata_after dev io') = data_in S t (w + Suc i) \<and> (Suc (w + i) mod 256 \<noteq> 0 \<longrightarrow> \<not> ata_busy dev io')
    \<and> protocol dev io io'"
proof -
  let ?ev = "In16 0x1F0 (disk (256 * S + (w + i)))"
  have drq: "ata_drq dev io" using ata_disk_step(1) [OF disk io(1)] io(2) by simp
  have "ucast (dev io 0x1F0) = disk (256 * S + (w + i))" by (rule ata_disk_step(2) [OF disk io(1) drq io(2)])
  then have "read_word dev target i (io, m) = (io @ [?ev], store16 m (target + of_nat (2 * i)) (disk (256 * S + (w + i))))"
    by (simp add: read_word_def inw_def Let_def)
  moreover have "protocol dev io (io @ [?ev])" using io(1) drq by (intro protocol_one) simp
  moreover have "ata_job (ata_after dev (io @ [?ev])) = data_in S t (w + Suc i)"
    using ata_disk_step(4) [OF disk io(1), of ?ev] io(2) by simp
  moreover have "\<not> ata_busy dev (io @ [?ev])" if "Suc (w + i) mod 256 \<noteq> 0"
    by (rule ata_disk_step(3) [OF disk io(1)]) (use io(2) that in simp)
  ultimately show ?thesis
    using words_at_Suc [OF i, of target "\<lambda>j. disk (256 * S + w + j)" m0] m by (simp add: add.assoc del: of_nat_mult)
qed

lemma read_words:
  assumes disk: "ata_disk disk dev" and io: "\<not> ata_busy dev io" "ata_job (ata_after dev io) = data_in S t w"
    and w: "w mod 256 = 0" "w + 256 \<le> t"
  shows "n \<le> 256 \<Longrightarrow> \<exists>io'. fold (read_word dev target) [0..<n] (io, m) = (io', words_at target n (\<lambda>j. disk (256 * S + w + j)) m)
    \<and> ata_job (ata_after dev io') = data_in S t (w + n) \<and> (n < 256 \<longrightarrow> \<not> ata_busy dev io') \<and> protocol dev io io'"
proof (induction n)
  case 0
  then show ?case using io by (simp add: protocol.nothing)
next
  case (Suc n)
  then obtain io' where io': "fold (read_word dev target) [0..<n] (io, m) = (io', words_at target n (\<lambda>j. disk (256 * S + w + j)) m)"
    "ata_job (ata_after dev io') = data_in S t (w + n)" "\<not> ata_busy dev io'" "protocol dev io io'" by auto
  have job: "ata_job (ata_after dev io') = Data_In S t (w + n)" using io'(2) w(2) Suc.prems by (simp add: data_in_def)
  have "2 * Suc n \<le> 4294967296" using Suc.prems by simp
  from read_word_step [OF disk io'(3) job this refl, of target m] obtain io2 where
    "read_word dev target n (io', words_at target n (\<lambda>j. disk (256 * S + w + j)) m) = (io2, words_at target (Suc n) (\<lambda>j. disk (256 * S + w + j)) m)"
    "ata_job (ata_after dev io2) = data_in S t (w + Suc n)" "Suc (w + n) mod 256 \<noteq> 0 \<longrightarrow> \<not> ata_busy dev io2" "protocol dev io' io2"
    by blast
  moreover have "Suc (w + n) mod 256 \<noteq> 0" if "Suc n < 256"
  proof -
    have "Suc (w + n) mod 256 = (w mod 256 + Suc n) mod 256" using mod_add_left_eq [of w 256 "Suc n"] by simp
    then show ?thesis using w(1) that by simp
  qed
  ultimately show ?case using io'(1,4) protocol_trans by auto
qed

lemma read_loop_reads:
  assumes disk: "ata_disk disk dev"
  shows "ata_job (ata_after dev io) = data_in S t w \<Longrightarrow> w mod 256 = 0 \<Longrightarrow> w + 256 * n \<le> t \<Longrightarrow> 512 * n \<le> 4294967296 \<Longrightarrow>
    \<exists>io'. read_loop dev n target (io, m) = Some (io', words_at target (256 * n) (\<lambda>j. disk (256 * S + w + j)) m)
      \<and> ata_job (ata_after dev io') = data_in S t (w + 256 * n) \<and> protocol dev io io'"
proof (induction n arbitrary: io w target m)
  case 0
  then show ?case by (simp add: protocol.nothing)
next
  case (Suc n)
  obtain io1 where io1: "ATA_wait_BSY dev io = Some io1" "\<not> ata_busy dev io1" "ata_after dev io1 = ata_after dev io" "protocol dev io io1"
    by (rule wait_idle [OF disk])
  obtain io2 where io2: "ATA_wait_DRQ dev io1 = Some io2" "\<not> ata_busy dev io2" "ata_after dev io2 = ata_after dev io1" "protocol dev io1 io2"
    by (rule wait_request [OF disk io1(2)])
  have "ata_job (ata_after dev io2) = data_in S t w" using io1(3) io2(3) Suc.prems(1) by simp
  then obtain io' where io': "fold (read_word dev target) [0..<256] (io2, m) = (io', words_at target 256 (\<lambda>j. disk (256 * S + w + j)) m)"
    "ata_job (ata_after dev io') = data_in S t (w + 256)" "protocol dev io2 io'"
    using read_words [OF disk io2(2) _ Suc.prems(2), of S t 256 target m] Suc.prems(3) by auto
  have "(w + 256) mod 256 = 0" "w + 256 + 256 * n \<le> t" "512 * n \<le> 4294967296" using Suc.prems by simp_all
  from Suc.IH [OF io'(2) this, of "target + 512" "words_at target 256 (\<lambda>j. disk (256 * S + w + j)) m"]
  obtain io3 where io3: "read_loop dev n (target + 512) (io', words_at target 256 (\<lambda>j. disk (256 * S + w + j)) m)
      = Some (io3, words_at (target + 512) (256 * n) (\<lambda>j. disk (256 * S + (w + 256) + j)) (words_at target 256 (\<lambda>j. disk (256 * S + w + j)) m))"
    "ata_job (ata_after dev io3) = data_in S t (w + 256 + 256 * n)" "protocol dev io' io3" by blast
  have "words_at (target + 512) (256 * n) (\<lambda>j. disk (256 * S + (w + 256) + j)) (words_at target 256 (\<lambda>j. disk (256 * S + w + j)) m)
    = words_at target (256 * Suc n) (\<lambda>j. disk (256 * S + w + j)) m"
    using words_at_append [of "256 * n" target "\<lambda>j. disk (256 * S + w + j)" m] Suc.prems by (simp add: ac_simps)
  moreover have "protocol dev io io3" using io1(4) io2(4) io'(3) io3(3) protocol_trans by blast
  ultimately show ?case using io1(1) io2(1) io'(1) io3(1,2) by (simp add: ac_simps)
qed

subsection \<open>Writing\<close>

text \<open>The words that go to the data port.\<close>

fun data_out :: "port_event \<Rightarrow> u32 list" where
  "data_out (Out32 port v) = (if port = 0x1F0 then [v] else [])"
| "data_out _ = []"

definition data_written :: "ports \<Rightarrow> u32 list" where "data_written io = concat (map data_out io)"

definition buffer_words :: "mem \<Rightarrow> u32 \<Rightarrow> u32 list" where
  "buffer_words m bytes = map (\<lambda>i. load32 m (bytes + 4 * of_nat i)) [0..<256]"

lemma data_written_append [simp]: "data_written (io @ io') = data_written io @ data_written io'"
  by (simp add: data_written_def)

lemma data_written_words:
  "data_written (fold (\<lambda>i. outl 0x1F0 (load32 m (bytes + 4 * of_nat i))) is io)
    = data_written io @ map (\<lambda>i. load32 m (bytes + 4 * of_nat i)) is"
  by (induction "is" arbitrary: io) (simp_all add: outl_def data_written_def)

lemma data_written_polls [simp]: "data_written (polls dev n io) = data_written io"
  by (induction n arbitrary: io) (simp_all add: data_written_def)

lemma write_loop_repeats:
  assumes "becomes_ready dev"
  shows "\<exists>io'. write_loop dev m bytes n io = Some io'
    \<and> data_written io' = data_written io @ concat (replicate n (buffer_words m bytes))"
proof (induction n arbitrary: io)
  case (Suc n)
  obtain j k where "ATA_wait_BSY dev io = Some (polls dev j io)"
    "ATA_wait_DRQ dev (polls dev j io) = Some (polls dev k (polls dev j io))"
    by (rule waits_return [OF assms])
  then show ?case
    using Suc.IH [of "fold (\<lambda>i. outl 0x1F0 (load32 m (bytes + 4 * of_nat i))) [0..<256] (polls dev k (polls dev j io))"]
    by (auto simp: data_written_words buffer_words_def)
qed simp

subsection \<open>Properties\<close>

text \<open>C17: From a disk that obeys \<open>ata_disk\<close> and has no transfer in progress \<open>read_sectors_ATA_PIO\<close> returns,
  and the memory from the target address on then holds the words of the disk from the addressed sector on, 256
  for each sector; nothing else in memory changes. Only the low 28 bits of the sector number count. No register but
  the status is accessed while the disk is busy, and the data register is read only when the disk asks for it.
  Afterwards the disk has nothing left to send, but for the count 0, which asks the disk for 256 sectors that
  the driver does not fetch.\<close>

theorem read_sectors_delivers_disk:
  assumes "ata_disk disk dev" "ata_job (ata_after dev io) = Idle"
  shows "\<exists>io' m'. read_sectors_ATA_PIO dev target LBA count (io, m) = Some (io', m')
    \<and> (\<forall>i < 256 * unat count. load16 m' (target + of_nat (2 * i)) = disk (256 * (unat LBA mod 2 ^ 28) + i))
    \<and> (\<forall>a. \<not> within target (512 * unat count) a \<longrightarrow> m' a = m a)
    \<and> protocol dev io io'
    \<and> ata_job (ata_after dev io') = (if count = 0 then Data_In (unat LBA mod 2 ^ 28) 65536 0 else Idle)"
proof -
  let ?n = "unat count" and ?S = "unat LBA mod 2 ^ 28" and ?t = "256 * (if count = 0 then 256 else unat count)"
  let ?f = "\<lambda>j. disk (256 * ?S + 0 + j)"
  have n: "?n < 256" using unsigned_less [of count] by simp
  obtain io1 where io1: "ATA_wait_BSY dev io = Some io1" "\<not> ata_busy dev io1" "ata_after dev io1 = ata_after dev io" "protocol dev io io1"
    by (rule wait_idle [OF assms(1)])
  have idle: "ata_job (ata_after dev io1) = Idle" using io1(3) assms(2) by simp
  note sent = command_sent [OF assms(1) io1(2) idle, of LBA count]
  obtain io' where io': "read_loop dev ?n target (send_command LBA count 0x20 io1, m) = Some (io', words_at target (256 * ?n) ?f m)"
    "ata_job (ata_after dev io') = data_in ?S ?t (0 + 256 * ?n)" "protocol dev (send_command LBA count 0x20 io1) io'"
    using read_loop_reads [OF assms(1) sent(1), of ?n target m] n by (force split: if_splits)
  have "load16 (words_at target (256 * ?n) ?f m) (target + of_nat (2 * i)) = ?f i" if "i < 256 * ?n" for i
    by (rule load16_words_at [OF that]) (use n in simp)
  moreover have "words_at target (256 * ?n) ?f m a = m a" if "\<not> within target (512 * ?n) a" for a
    using that by (simp add: words_at_def Let_def within_def)
  moreover have "protocol dev io io'" using io1(4) sent(2) io'(3) protocol_trans by blast
  moreover have "data_in ?S ?t (0 + 256 * ?n) = (if count = 0 then Data_In ?S 65536 0 else Idle)"
    by (simp add: data_in_def)
  ultimately show ?thesis using io1(1) io'(1,2)
    by (intro exI [of _ io'] exI [of _ "words_at target (256 * ?n) ?f m"]) (simp add: read_sectors_ATA_PIO_def)
qed

text \<open>A disk that is busy for one poll after each command.\<close>

definition works :: "ports \<Rightarrow> bool" where
  "works io \<longleftrightarrow> (case rev io of Out8 port v # _ \<Rightarrow> port = 0x1F7 | _ \<Rightarrow> False)"

definition demo_disk :: device where
  "demo_disk io port =
     (if works io then 0x80
      else case ata_job (ata_rev works (rev io)) of
          Idle \<Rightarrow> if port = 0x1F7 then 0x50 else 0
        | Data_In l t k \<Rightarrow> if port = 0x1F7 then 0x58 else of_nat (256 * l + k)
        | Data_Out l t k \<Rightarrow> if port = 0x1F7 then 0x58 else 0)"

lemma demo_disk_obeys: "becomes_ready demo_disk" "ata_disk of_nat demo_disk" "ata_job (ata_after demo_disk []) = Idle"
proof -
  have busy: "ata_busy demo_disk = works"
    by (rule ext) (simp add: ata_busy_def demo_disk_def bit_numeral_rec split: ata_job.split)
  show r: "becomes_ready demo_disk"
  proof (unfold becomes_ready_def busy, intro allI conjI impI)
    fix io
    show "\<exists>n. \<not> works (polls demo_disk n io)" by (rule exI [of _ 1]) (simp add: works_def)
    show "bit (demo_disk io 0x1F7) 6" if "\<not> works io"
      using that by (simp add: demo_disk_def bit_numeral_rec split: ata_job.split)
  qed
  have "\<not> begins_work ev d \<Longrightarrow> \<not> works (io @ [ev])" for ev d io
    by (cases ev) (simp_all add: works_def)
  moreover have "(ucast (of_nat n :: u32) :: u16) = of_nat n" for n
    by (simp add: unsigned_of_nat word_of_nat_eq_iff)
  ultimately show "ata_disk of_nat demo_disk"
    unfolding ata_disk_def ata_after_def busy
    by (auto simp: r ata_drq_def demo_disk_def bit_numeral_rec split: ata_job.splits simp del: of_nat_add of_nat_mult)
  show "ata_job (ata_after demo_disk []) = Idle" by (simp add: ata_after_def)
qed

theorem read_sectors_delivers_disk_witness:
  "\<exists>io' m'. read_sectors_ATA_PIO demo_disk 0x1000 7 1 ([], \<lambda>_. 0) = Some (io', m') \<and> load16 m' 0x1002 = 1793"
proof -
  from read_sectors_delivers_disk [OF demo_disk_obeys(2,3), of "0x1000" 7 1 "\<lambda>_. 0"]
  obtain io' m' where r: "read_sectors_ATA_PIO demo_disk 0x1000 7 1 ([], \<lambda>_. 0) = Some (io', m')"
    "\<forall>i < 256. load16 m' (0x1000 + of_nat (2 * i)) = of_nat (256 * 7 + i)" by auto
  have "load16 m' 0x1002 = 1793" using r(2) [rule_format, of 1] by simp
  then show ?thesis using r(1) by blast
qed

text \<open>C40: \<open>write_sectors_ATA_PIO\<close> sends the same 256 double words, the first kilobyte of the buffer, for
  every sector: it sends twice the bytes of a sector, and never more than the first kilobyte of the data.\<close>

theorem write_sectors_repeats_first_kilobyte:
  assumes "becomes_ready dev"
  shows "\<exists>io'. write_sectors_ATA_PIO dev m LBA count bytes io = Some io'
    \<and> data_written io' = data_written io @ concat (replicate (unat count) (buffer_words m bytes))"
proof -
  obtain k n where k: "ATA_wait_BSY dev io = Some (polls dev k io)"
    "ATA_wait_DRQ dev (polls dev k io) = Some (polls dev n (polls dev k io))" by (rule waits_return [OF assms])
  have "data_written (send_command LBA count 0x30 (polls dev k io)) = data_written io"
    using data_written_polls [of dev k io] by (simp add: send_command_def outb_def Let_def data_written_def)
  then show ?thesis
    using write_loop_repeats [OF assms, of m bytes "unat count" "send_command LBA count 0x30 (polls dev k io)"] k(1)
    by (simp add: write_sectors_ATA_PIO_def)
qed

theorem write_sectors_repeats_first_kilobyte_witness:
  "\<exists>io'. write_sectors_ATA_PIO demo_disk (\<lambda>_. 0) 7 2 0x1000 [] = Some io' \<and> length (data_written io') = 512"
proof -
  from write_sectors_repeats_first_kilobyte [OF demo_disk_obeys(1), of "\<lambda>_. 0" 7 2 "0x1000" "[]"]
  obtain io' where "write_sectors_ATA_PIO demo_disk (\<lambda>_. 0) 7 2 0x1000 [] = Some io'"
    "data_written io' = concat (replicate 2 (buffer_words (\<lambda>_. 0) 0x1000))" by (auto simp: data_written_def)
  moreover have "length (concat (replicate 2 (buffer_words (\<lambda>_. 0) 0x1000))) = 512"
    by (simp add: length_concat buffer_words_def sum_list_replicate)
  ultimately show ?thesis by auto
qed

end
