(* ===== verification/Rtc.thy ===== *)
theory Rtc
  imports Port_Io Machine_Memory
begin

text \<open>
  The real-time clock of \<open>kernel/drivers/rtc.c\<close>: a register is read by writing its number to the
  index port and reading the data port. \<open>struct tm\<close> is six words in memory.
\<close>

subsection \<open>The code\<close>

definition rtc_get_year :: "device \<Rightarrow> ports \<Rightarrow> u8 \<times> ports" where
  "rtc_get_year dev io = inb dev 0x71 (outb 0x70 0x09 io)"

definition rtc_get_month :: "device \<Rightarrow> ports \<Rightarrow> u8 \<times> ports" where
  "rtc_get_month dev io = inb dev 0x71 (outb 0x70 0x08 io)"

definition rtc_get_day :: "device \<Rightarrow> ports \<Rightarrow> u8 \<times> ports" where
  "rtc_get_day dev io = inb dev 0x71 (outb 0x70 0x07 io)"

definition rtc_get_weekday :: "device \<Rightarrow> ports \<Rightarrow> u8 \<times> ports" where
  "rtc_get_weekday dev io = inb dev 0x71 (outb 0x70 0x06 io)"

definition rtc_get_hour :: "device \<Rightarrow> ports \<Rightarrow> u8 \<times> ports" where
  "rtc_get_hour dev io = inb dev 0x71 (outb 0x70 0x04 io)"

definition rtc_get_minute :: "device \<Rightarrow> ports \<Rightarrow> u8 \<times> ports" where
  "rtc_get_minute dev io = inb dev 0x71 (outb 0x70 0x02 io)"

definition rtc_get_second :: "device \<Rightarrow> ports \<Rightarrow> u8 \<times> ports" where
  "rtc_get_second dev io = inb dev 0x71 (outb 0x70 0x00 io)"

definition tm_year :: "u32 \<Rightarrow> u32" where "tm_year tm = tm"
definition tm_month :: "u32 \<Rightarrow> u32" where "tm_month tm = tm + 4"
definition tm_day :: "u32 \<Rightarrow> u32" where "tm_day tm = tm + 8"
definition tm_hour :: "u32 \<Rightarrow> u32" where "tm_hour tm = tm + 12"
definition tm_minute :: "u32 \<Rightarrow> u32" where "tm_minute tm = tm + 16"
definition tm_second :: "u32 \<Rightarrow> u32" where "tm_second tm = tm + 20"

definition rtc_get_time :: "device \<Rightarrow> u32 \<Rightarrow> ports \<times> mem \<Rightarrow> ports \<times> mem" where
  "rtc_get_time dev tm = (\<lambda>(io, m).
     let (v, io) = rtc_get_year dev io; m = store32 m (tm_year tm) (ucast v);
         (v, io) = rtc_get_month dev io; m = store32 m (tm_month tm) (ucast v);
         (v, io) = rtc_get_day dev io; m = store32 m (tm_day tm) (ucast v);
         (v, io) = rtc_get_hour dev io; m = store32 m (tm_hour tm) (ucast v);
         (v, io) = rtc_get_minute dev io; m = store32 m (tm_minute tm) (ucast v);
         (v, io) = rtc_get_second dev io; m = store32 m (tm_second tm) (ucast v)
     in (io, m))"

definition rtc_init :: "device \<Rightarrow> u32 \<Rightarrow> ports \<times> mem \<Rightarrow> ports \<times> mem" where
  "rtc_init dev kernel_time st = rtc_get_time dev kernel_time st"

subsection \<open>The clock it talks to\<close>

text \<open>The register selected by the last write to the index port, and a clock with given registers.\<close>

fun cmos_event :: "port_event \<Rightarrow> u8 \<Rightarrow> u8" where
  "cmos_event (Out8 port v) r = (if port = 0x70 then v else r)"
| "cmos_event _ r = r"

definition cmos_index :: "ports \<Rightarrow> u8" where "cmos_index io = fold cmos_event io 0"

definition cmos_device :: "(u8 \<Rightarrow> u8) \<Rightarrow> device \<Rightarrow> bool" where
  "cmos_device regs dev \<longleftrightarrow> (\<forall>io. ucast (dev io 0x71) = regs (cmos_index io))"

lemma rtc_register:
  "cmos_device regs dev \<Longrightarrow> fst (inb dev 0x71 (outb 0x70 r io)) = regs r"
  by (simp add: inb_def outb_def Let_def cmos_device_def cmos_index_def)

lemma rtc_time_fields:
  assumes "cmos_device regs dev"
  shows "let m' = snd (rtc_get_time dev tm (io, m)) in
    load32 m' (tm_year tm) = ucast (regs 9) \<and> load32 m' (tm_month tm) = ucast (regs 8)
    \<and> load32 m' (tm_day tm) = ucast (regs 7) \<and> load32 m' (tm_hour tm) = ucast (regs 4)
    \<and> load32 m' (tm_minute tm) = ucast (regs 2) \<and> load32 m' (tm_second tm) = ucast (regs 0)
    \<and> (\<forall>a. \<not> within tm 24 a \<longrightarrow> m' a = m a)"
proof -
  note r = rtc_register [OF assms]
  let ?m' = "store32 (store32 (store32 (store32 (store32 (store32 m tm (ucast (regs 9))) (tm + 4) (ucast (regs 8)))
    (tm + 8) (ucast (regs 7))) (tm + 12) (ucast (regs 4))) (tm + 16) (ucast (regs 2))) (tm + 20) (ucast (regs 0))"
  have m': "snd (rtc_get_time dev tm (io, m)) = ?m'"
    by (simp add: rtc_get_time_def rtc_get_year_def rtc_get_month_def rtc_get_day_def rtc_get_hour_def
      rtc_get_minute_def rtc_get_second_def Let_def split_beta r tm_year_def tm_month_def tm_day_def
      tm_hour_def tm_minute_def tm_second_def)
  have "?m' a = m a" if "\<not> within tm 24 a" for a
  proof -
    have "\<not> within (tm + of_nat k) 4 a" if "k \<le> 20" for k
    proof
      assume "within (tm + of_nat k) 4 a"
      then have "within tm (k + 4) a" using that within_split [of k 4 tm a] by simp
      from within_mono [OF this, of 24] show False using \<open>\<not> within tm 24 a\<close> that by simp
    qed
    from this [of 0] this [of 4] this [of 8] this [of 12] this [of 16] this [of 20]
    show ?thesis by (simp add: store32_other)
  qed
  then show ?thesis
    unfolding m' Let_def tm_year_def tm_month_def tm_day_def tm_hour_def tm_minute_def tm_second_def
    by (simp add: load32_store32_same load32_store32_apart apart_same_base apart_def)
qed

subsection \<open>Properties\<close>

text \<open>\<open>rtc_get_time\<close> fills \<open>struct tm\<close> with the clock's year, month, day, hour, minute and second
  registers, each in its field, and writes nothing else.\<close>

theorem rtc_get_time_reads_clock:
  assumes "cmos_device regs dev"
  shows "let m' = snd (rtc_get_time dev tm (io, m)) in
    load32 m' (tm_year tm) = ucast (regs 9) \<and> load32 m' (tm_month tm) = ucast (regs 8)
    \<and> load32 m' (tm_day tm) = ucast (regs 7) \<and> load32 m' (tm_hour tm) = ucast (regs 4)
    \<and> load32 m' (tm_minute tm) = ucast (regs 2) \<and> load32 m' (tm_second tm) = ucast (regs 0)
    \<and> (\<forall>a. \<not> within tm 24 a \<longrightarrow> m' a = m a)"
  using assms by (rule rtc_time_fields)

theorem rtc_get_time_reads_clock_witness:
  "load32 (snd (rtc_get_time (\<lambda>io port. ucast (cmos_index io)) 0x1000 ([], m))) (tm_hour 0x1000) = 4"
proof -
  have "cmos_device (\<lambda>r. r) (\<lambda>io port. ucast (cmos_index io))"
    by (auto simp: cmos_device_def bit_simps intro!: bit_word_eqI)
  from rtc_get_time_reads_clock [OF this, of "0x1000" "[]" m] show ?thesis by (simp add: Let_def)
qed

end
