(* ===== verification/Shell.thy ===== *)
theory Shell
  imports Kernel_Heap Libc_String Rtc
begin

text \<open>
  The command interpreter of \<open>kernel/shell/shell.c\<close>: a state machine of two modes over the lines of
  the keyboard. The addresses of the string literals and of the locals, the stack pointer and the words
  a variadic call finds on the stack are the compiler's choice and so parameters.
\<close>

subsection \<open>The code\<close>

definition COMMAND_MODE :: u32 where "COMMAND_MODE = 0"
definition CALCULATOR_MODE :: u32 where "CALCULATOR_MODE = 1"

record shell_link =
  lit :: "string \<Rightarrow> u32"
  tm_local :: u32
  get_stack_pointer :: u32
  stack_words :: "u32 list"

type_synonym shell_state = "(ports \<times> u32) \<times> kstate"

definition check_command :: "mem \<Rightarrow> u32 \<Rightarrow> u32 \<Rightarrow> bool option" where
  "check_command m cmd txt = map_option (\<lambda>c. c = 0) (strcmp m cmd txt)"

function check_short_from :: "mem \<Rightarrow> u32 \<Rightarrow> u32 \<Rightarrow> nat \<Rightarrow> nat \<Rightarrow> nat" where
  "check_short_from m cmd txt len i =
     (if load8 m (cmd + of_nat i) = load8 m (txt + of_nat i) \<and> i < len
      then check_short_from m cmd txt len (Suc i) else i)"
  by pat_completeness auto
termination by (relation "measure (\<lambda>(m, cmd, txt, len, i). len - i)") auto

declare check_short_from.simps [simp del]

definition check_short_command :: "mem \<Rightarrow> u32 \<Rightarrow> u32 \<Rightarrow> nat \<Rightarrow> bool" where
  "check_short_command m cmd txt len = (check_short_from m cmd txt len 0 = len)"

text \<open>A call of \<open>printf\<close> whose format is a string in memory.\<close>

definition printf_at :: "u32 list \<Rightarrow> u32 \<Rightarrow> kstate \<Rightarrow> kstate option" where
  "printf_at va msg s = map_option (\<lambda>n.
     printf_s (map (\<lambda>b. char_of (unat b)) (bytes (memory s) msg (unat n))) va s) (strlen (memory s) msg)"

definition help_text :: "kstate \<Rightarrow> kstate" where
  "help_text s = fold (\<lambda>t. printf_s t [])
    [''This is the HackOS help panel!\<newline>Currently implemented commands:\<newline>'',
     CHR 0x09 # ''- clear: Clears the console\<newline>'',
     CHR 0x09 # ''- page: Allocates 4096 bytes of page-aligned memory (kmalloc test)\<newline>'',
     CHR 0x09 # ''- calc: Enters calculator mode, which is currently not functioning\<newline>'',
     CHR 0x09 # ''- print <arg>: Prints <arg> to the console\<newline>'',
     CHR 0x09 # ''- print <var>: Prints <val> to the console, if it'' @ CHR 0x27 # ''s a kernel variable\<newline>'',
     CHR 0x09 # ''- shutdown: Halts the CPU, causing the computer to shut down\<newline>'',
     CHR 0x09 # ''- help: displays this menu''] s"

definition print_time :: "device \<Rightarrow> shell_link \<Rightarrow> string \<Rightarrow> (u32 \<Rightarrow> u32) list \<Rightarrow> ports \<times> kstate \<Rightarrow> ports \<times> kstate" where
  "print_time dev lk fmt parts = (\<lambda>(io, s).
     let (io, m) = rtc_get_time dev (tm_local lk) (io, memory s); s = s\<lparr>memory := m\<rparr>
     in (io, printf_s fmt (map (\<lambda>f. load32 m (f (tm_local lk))) parts) s))"

definition print_command :: "device \<Rightarrow> shell_link \<Rightarrow> u32 \<Rightarrow> u32 \<Rightarrow> ports \<times> kstate \<Rightarrow> (ports \<times> kstate) option" where
  "print_command dev lk tick msg = (\<lambda>(io, s).
     if check_short_command (memory s) msg (lit lk ''time'') 4 then
       Some (print_time dev lk ''Time: %x:%x:%x'' [tm_hour, tm_minute, tm_second] (io, s))
     else if check_short_command (memory s) msg (lit lk ''date'') 4 then
       Some (print_time dev lk ''Date: 20%x.%x.%x'' [tm_year, tm_month, tm_day] (io, s))
     else if check_short_command (memory s) msg (lit lk ''tick'') 4 then
       Some (io, printf_s ''Time elapsed since startup: %d'' [tick] s)
     else if check_short_command (memory s) msg (lit lk ''stack'') 5 then
       Some (io, printf_s ''Top of the stack: %x'' [get_stack_pointer lk] s)
     else map_option (Pair io) (printf_at (stack_words lk) msg s))"

definition command_mode :: "nat \<Rightarrow> device \<Rightarrow> shell_link \<Rightarrow> u32 \<Rightarrow> u32 \<Rightarrow> shell_state \<Rightarrow> shell_state option" where
  "command_mode fuel dev lk tick input = (\<lambda>((io, st), s).
     Option.bind (check_command (memory s) input (lit lk ''help'')) (\<lambda>c. if c then Some ((io, st), help_text s) else
     Option.bind (check_command (memory s) input (lit lk ''page'')) (\<lambda>c. if c then
       Option.bind (kmalloc_int fuel 1000 1 True s) (\<lambda>(page, phys_addr, s).
         Some ((io, COMMAND_MODE), printf_s ''Page: %x, physical addr: %x'' [page, phys_addr] s)) else
     Option.bind (check_command (memory s) input (lit lk ''clear'')) (\<lambda>c. if c then
       Some ((io, COMMAND_MODE), printf_s (''Type '' @ CHR 0x27 # ''shutdown'' @ CHR 0x27 # '' to halt the CPU'') []
         (s\<lparr>console := console s @ [Clear_Screen]\<rparr>)) else
     Option.bind (check_command (memory s) input (lit lk ''calc'')) (\<lambda>c. if c then
       Some ((io, CALCULATOR_MODE), printf_s (''Entering calculator mode!\<newline>Type '' @ CHR 0x27 # ''quit'' @ CHR 0x27 #
         '' to return to command mode!'') [] s) else
     if check_short_command (memory s) input (lit lk ''print'') 5 then
       map_option (\<lambda>(io, s). ((io, COMMAND_MODE), s)) (print_command dev lk tick (input + 6) (io, s))
     else Some ((io, COMMAND_MODE), printf_s ''You said: %s'' [input] s))))))"

definition not_supported :: "string \<Rightarrow> kstate \<Rightarrow> kstate" where
  "not_supported f = printf_s (''Sorry, the '' @ CHR 0x27 # f @ CHR 0x27 # '' function is not yet supported!'') []"

definition calculator_mode :: "nat \<Rightarrow> shell_link \<Rightarrow> u32 \<Rightarrow> shell_state \<Rightarrow> shell_state option" where
  "calculator_mode fuel lk input = (\<lambda>((io, st), s).
     Option.bind (check_command (memory s) input (lit lk ''quit'')) (\<lambda>c.
       if c then Some ((io, COMMAND_MODE), printf_s ''Exiting calculator mode.'' [] s)
       else map_option (\<lambda>s. ((io, CALCULATOR_MODE), s))
         (if check_short_command (memory s) input (lit lk ''sin'') 3 then Some (not_supported ''sin'' s)
          else if check_short_command (memory s) input (lit lk ''cos'') 3 then Some (not_supported ''cos'' s)
          else if check_short_command (memory s) input (lit lk ''tan'') 3 then Some (not_supported ''tan'' s)
          else if check_short_command (memory s) input (lit lk ''cotan'') 5 then Some (not_supported ''cotan'' s)
          else map_option (\<lambda>(com, cnt, s).
            fold (\<lambda>i s. printf_s ''%s '' [load32 (memory s) (com + 4 * of_nat i)] s) [0..<nat (sint cnt)]
              (printf_s ''You said: \<newline>'' [] s)) (split (kmalloc fuel) input 0x20 s))))"

definition shell_command :: "nat \<Rightarrow> device \<Rightarrow> shell_link \<Rightarrow> u32 \<Rightarrow> u32 \<Rightarrow> shell_state \<Rightarrow> shell_state option" where
  "shell_command fuel dev lk tick input = (\<lambda>((io, st), s).
     map_option (\<lambda>(u, s). (u, printf_s ''\<newline>> '' [] s))
       (if st = COMMAND_MODE then command_mode fuel dev lk tick input ((io, st), s)
        else if st = CALCULATOR_MODE then calculator_mode fuel lk input ((io, st), s)
        else Some ((io, st), s)))"

subsection \<open>Recognising commands\<close>

definition str :: "string \<Rightarrow> u8 list" where "str t = map of_char t"

definition shell_literals :: "string list" where
  "shell_literals = [''help'', ''page'', ''clear'', ''calc'', ''print'', ''time'', ''date'', ''tick'', ''stack'',
     ''quit'', ''sin'', ''cos'', ''tan'', ''cotan'']"

definition literals_ok :: "shell_link \<Rightarrow> mem \<Rightarrow> bool" where
  "literals_ok lk m \<longleftrightarrow> (\<forall>t \<in> set shell_literals. cstr m (lit lk t) (str t))"

lemma length_str [simp]: "length (str t) = length t"
  by (simp add: str_def)

lemma check_command_iff:
  "cstr m p xs \<Longrightarrow> literals_ok lk m \<Longrightarrow> t \<in> set shell_literals \<Longrightarrow> check_command m p (lit lk t) = Some (xs = str t)"
  using strcmp_zero [of m p xs "lit lk t" "str t"] by (auto simp: check_command_def literals_ok_def)

lemma check_short_from_iff:
  "i \<le> n \<Longrightarrow> check_short_from m p q n i = n \<longleftrightarrow> (\<forall>j. i \<le> j \<longrightarrow> j < n \<longrightarrow> load8 m (p + of_nat j) = load8 m (q + of_nat j))"
proof (induction "n - i" arbitrary: i)
  case 0
  then show ?case by (subst check_short_from.simps) auto
next
  case (Suc k)
  have IH: "check_short_from m p q n (Suc i) = n \<longleftrightarrow> (\<forall>j. Suc i \<le> j \<longrightarrow> j < n \<longrightarrow> load8 m (p + of_nat j) = load8 m (q + of_nat j))"
    using Suc.hyps(2) by (intro Suc.hyps(1)) auto
  have "i < n" using Suc.hyps(2) by simp
  then have "(\<forall>j. i \<le> j \<longrightarrow> j < n \<longrightarrow> P j) \<longleftrightarrow> P i \<and> (\<forall>j. Suc i \<le> j \<longrightarrow> j < n \<longrightarrow> P j)" for P
    by (metis Suc_leD Suc_leI le_neq_implies_less order_refl)
  note split = this [of "\<lambda>j. load8 m (p + of_nat j) = load8 m (q + of_nat j)"]
  show ?case unfolding split using IH \<open>i < n\<close> by (subst check_short_from.simps) auto
qed

lemma check_short_command_iff:
  assumes "cstr m p xs" "literals_ok lk m" "t \<in> set shell_literals" "length t = n"
  shows "check_short_command m p (lit lk t) n \<longleftrightarrow> take n xs = str t"
proof -
  have "check_short_command m p (lit lk t) (length t) \<longleftrightarrow> take (length t) xs = str t"
  proof -
    have t: "cstr m (lit lk t) (str t)" using assms(2,3) by (simp add: literals_ok_def)
    have eq: "check_short_command m p (lit lk t) (length t) \<longleftrightarrow> bytes m p (length t) = str t"
    proof -
      have "check_short_command m p (lit lk t) (length t) \<longleftrightarrow> bytes m p (length t) = bytes m (lit lk t) (length t)"
        unfolding check_short_command_def check_short_from_iff [of 0, simplified] by (auto simp: bytes_def)
      then show ?thesis using cstr_bytes [OF t] by simp
    qed
    show ?thesis
    proof (cases "length t \<le> length xs")
      case True
      have "bytes m p (length t) = take (length t) (bytes m p (length xs))" by (simp add: take_bytes [OF True])
      then show ?thesis using eq cstr_bytes [OF assms(1)] by simp
    next
      case False
      then have "bytes m p (length t) ! length xs = 0" using cstr_nth(3) [OF assms(1)] by simp
      then have "bytes m p (length t) \<noteq> str t" using t False by (metis cstr_def length_str not_le_imp_less nth_mem)
      moreover have "take (length t) xs \<noteq> str t" using False by (metis length_str length_take min.cobounded1 min_def)
      ultimately show ?thesis using eq by simp
    qed
  qed
  then show ?thesis using assms(4) by simp
qed

subsection \<open>What the shell answers\<close>

definition print_reply :: "(u8 \<Rightarrow> u8) \<Rightarrow> shell_link \<Rightarrow> u32 \<Rightarrow> u8 list \<Rightarrow> console_event" where
  "print_reply regs lk tick ys =
     (if take 4 ys = str ''time'' then Printf ''Time: %x:%x:%x'' [ucast (regs 4), ucast (regs 2), ucast (regs 0)]
      else if take 4 ys = str ''date'' then Printf ''Date: 20%x.%x.%x'' [ucast (regs 9), ucast (regs 8), ucast (regs 7)]
      else if take 4 ys = str ''tick'' then Printf ''Time elapsed since startup: %d'' [tick]
      else if take 5 ys = str ''stack'' then Printf ''Top of the stack: %x'' [get_stack_pointer lk]
      else Printf (map (\<lambda>b. char_of (unat b)) ys) (stack_words lk))"

definition next_mode :: "u32 \<Rightarrow> u8 list \<Rightarrow> u32" where
  "next_mode st xs = (if st = COMMAND_MODE \<and> xs = str ''calc'' then CALCULATOR_MODE
     else if st = CALCULATOR_MODE \<and> xs = str ''quit'' then COMMAND_MODE else st)"

lemma print_time_clock:
  assumes "cmos_device regs dev"
  shows "\<exists>io' m'. print_time dev lk fmt [tm_hour, tm_minute, tm_second] (io, s)
      = (io', printf_s fmt [ucast (regs 4), ucast (regs 2), ucast (regs 0)] (s\<lparr>memory := m'\<rparr>))"
    and "\<exists>io' m'. print_time dev lk fmt [tm_year, tm_month, tm_day] (io, s)
      = (io', printf_s fmt [ucast (regs 9), ucast (regs 8), ucast (regs 7)] (s\<lparr>memory := m'\<rparr>))"
  using rtc_time_fields [OF assms, of "tm_local lk" io "memory s"]
  by (auto simp: print_time_def Let_def split_beta)

lemma print_command_replies:
  assumes clock: "cmos_device regs dev" and msg: "cstr (memory s) msg ys" "literals_ok lk (memory s)"
  shows "\<exists>io' s'. print_command dev lk tick msg (io, s) = Some (io', s') \<and> console s' = console s @ [print_reply regs lk tick ys]"
proof -
  have lits: "{''time'', ''date'', ''tick'', ''stack''} \<subseteq> set shell_literals" by (simp add: shell_literals_def)
  then have c: "check_short_command (memory s) msg (lit lk ''time'') 4 \<longleftrightarrow> take 4 ys = str ''time''"
    "check_short_command (memory s) msg (lit lk ''date'') 4 \<longleftrightarrow> take 4 ys = str ''date''"
    "check_short_command (memory s) msg (lit lk ''tick'') 4 \<longleftrightarrow> take 4 ys = str ''tick''"
    "check_short_command (memory s) msg (lit lk ''stack'') 5 \<longleftrightarrow> take 5 ys = str ''stack''"
    by (simp_all add: check_short_command_iff [OF msg])
  have "length ys < 2147483647" using msg(1) by (simp add: cstr_def)
  then have "printf_at (stack_words lk) msg s = Some (printf_s (map (\<lambda>b. char_of (unat b)) ys) (stack_words lk) s)"
    by (simp add: printf_at_def strlen_cstr [OF msg(1)] unat_of_nat_small cstr_bytes [OF msg(1)])
  then show ?thesis
    using print_time_clock(1) [OF clock, of lk "''Time: %x:%x:%x''" io s]
      print_time_clock(2) [OF clock, of lk "''Date: 20%x.%x.%x''" io s]
    by (auto simp: print_command_def c print_reply_def printf_s_def)
qed

text \<open>The panel that \<open>help\<close> shows, and what the command mode answers to every line but \<open>page\<close>; \<open>ys\<close> is the string
  behind \<open>"print "\<close>.\<close>

definition help_panel :: "console_event list" where
  "help_panel =
     [Printf ''This is the HackOS help panel!\<newline>Currently implemented commands:\<newline>'' [],
      Printf (CHR 0x09 # ''- clear: Clears the console\<newline>'') [],
      Printf (CHR 0x09 # ''- page: Allocates 4096 bytes of page-aligned memory (kmalloc test)\<newline>'') [],
      Printf (CHR 0x09 # ''- calc: Enters calculator mode, which is currently not functioning\<newline>'') [],
      Printf (CHR 0x09 # ''- print <arg>: Prints <arg> to the console\<newline>'') [],
      Printf (CHR 0x09 # ''- print <var>: Prints <val> to the console, if it'' @ CHR 0x27 # ''s a kernel variable\<newline>'') [],
      Printf (CHR 0x09 # ''- shutdown: Halts the CPU, causing the computer to shut down\<newline>'') [],
      Printf (CHR 0x09 # ''- help: displays this menu'') []]"

definition command_reply :: "(u8 \<Rightarrow> u8) \<Rightarrow> shell_link \<Rightarrow> u32 \<Rightarrow> u32 \<Rightarrow> u8 list \<Rightarrow> u8 list \<Rightarrow> console_event list" where
  "command_reply regs lk tick input xs ys =
     (if xs = str ''help'' then help_panel
      else if xs = str ''clear'' then
        [Clear_Screen, Printf (''Type '' @ CHR 0x27 # ''shutdown'' @ CHR 0x27 # '' to halt the CPU'') []]
      else if xs = str ''calc'' then
        [Printf (''Entering calculator mode!\<newline>Type '' @ CHR 0x27 # ''quit'' @ CHR 0x27 # '' to return to command mode!'') []]
      else if take 5 xs = str ''print'' then [print_reply regs lk tick ys]
      else [Printf ''You said: %s'' [input]])"

text \<open>The function that a line of the calculator mode asks for.\<close>

definition asked_function :: "u8 list \<Rightarrow> string option" where
  "asked_function xs =
     (if take 3 xs = str ''sin'' then Some ''sin'' else if take 3 xs = str ''cos'' then Some ''cos''
      else if take 3 xs = str ''tan'' then Some ''tan'' else if take 5 xs = str ''cotan'' then Some ''cotan'' else None)"

definition calculator_reply :: "u8 list \<Rightarrow> console_event list" where
  "calculator_reply xs =
     (if xs = str ''quit'' then [Printf ''Exiting calculator mode.'' []]
      else case asked_function xs of
        None \<Rightarrow> []
      | Some f \<Rightarrow> [Printf (''Sorry, the '' @ CHR 0x27 # f @ CHR 0x27 # '' function is not yet supported!'') []])"

definition shell_reply :: "(u8 \<Rightarrow> u8) \<Rightarrow> shell_link \<Rightarrow> u32 \<Rightarrow> u32 \<Rightarrow> u32 \<Rightarrow> u8 list \<Rightarrow> u8 list \<Rightarrow> console_event list" where
  "shell_reply regs lk tick input st xs ys =
     (if st = COMMAND_MODE then command_reply regs lk tick input xs ys
      else if st = CALCULATOR_MODE then calculator_reply xs else [])"

text \<open>
  The two kinds of line that allocate, \<open>page\<close> and a line of the calculator mode that is none of its words: the
  console after them is described from what \<open>kmalloc_int\<close> and \<open>split\<close> give, the latter with one pointer for
  each space of the line. For all other lines it is the console before and the reply.
\<close>

definition allocates :: "u32 \<Rightarrow> u8 list \<Rightarrow> bool" where
  "allocates st xs \<longleftrightarrow> st = COMMAND_MODE \<and> xs = str ''page''
     \<or> st = CALCULATOR_MODE \<and> xs \<noteq> str ''quit'' \<and> asked_function xs = None"

definition page_output :: "nat \<Rightarrow> kstate \<Rightarrow> console_event list option" where
  "page_output fuel s = map_option (\<lambda>(page, phys_addr, s1). console s1 @ [Printf ''Page: %x, physical addr: %x'' [page, phys_addr]])
     (kmalloc_int fuel 1000 1 True s)"

definition words_output :: "nat \<Rightarrow> u32 \<Rightarrow> nat \<Rightarrow> kstate \<Rightarrow> console_event list option" where
  "words_output fuel input spaces s = map_option (\<lambda>(com, cnt, s1). console s1 @ Printf ''You said: \<newline>'' []
       # map (\<lambda>i. Printf ''%s '' [load32 (memory s1) (com + 4 * of_nat i)]) [0..<spaces])
     (split (kmalloc fuel) input 0x20 s)"

definition line_output :: "nat \<Rightarrow> (u8 \<Rightarrow> u8) \<Rightarrow> shell_link \<Rightarrow> u32 \<Rightarrow> u32 \<Rightarrow> u32 \<Rightarrow> u8 list \<Rightarrow> u8 list \<Rightarrow> kstate \<Rightarrow>
    console_event list option" where
  "line_output fuel regs lk tick input st xs ys s =
     (if \<not> allocates st xs then Some (console s @ shell_reply regs lk tick input st xs ys)
      else if st = COMMAND_MODE then page_output fuel s
      else words_output fuel input (count_list xs 0x20) s)"

lemma command_mode_replies:
  assumes clock: "cmos_device regs dev" and input: "cstr (memory s) input xs" "literals_ok lk (memory s)"
    and arg: "take 5 xs = str ''print'' \<Longrightarrow> cstr (memory s) (input + 6) ys" and small: "xs \<noteq> str ''page''"
  shows "\<exists>io' s'. command_mode fuel dev lk tick input ((io, COMMAND_MODE), s) = Some ((io', next_mode COMMAND_MODE xs), s')
    \<and> console s' = console s @ command_reply regs lk tick input xs ys"
proof -
  have lits: "{''help'', ''page'', ''clear'', ''calc'', ''print''} \<subseteq> set shell_literals" by (simp add: shell_literals_def)
  have c: "check_command (memory s) input (lit lk t) = Some (xs = str t)" if "t \<in> {''help'', ''page'', ''clear'', ''calc''}" for t
    using that lits by (intro check_command_iff [OF input]) auto
  have p: "check_short_command (memory s) input (lit lk ''print'') 5 \<longleftrightarrow> take 5 xs = str ''print''"
    using lits by (intro check_short_command_iff [OF input]) simp_all
  have d: "str ''help'' \<noteq> str ''calc''" "str ''clear'' \<noteq> str ''calc''" "str ''clear'' \<noteq> str ''help''" "COMMAND_MODE \<noteq> CALCULATOR_MODE"
    by (simp_all add: str_def COMMAND_MODE_def CALCULATOR_MODE_def)
  note defs = command_mode_def c next_mode_def command_reply_def printf_s_def
  consider (is_help) "xs = str ''help''" | (is_clear) "xs = str ''clear''" | (is_calc) "xs = str ''calc''"
    | (is_print) "xs \<notin> str ` {''help'', ''clear'', ''calc''}" "take 5 xs = str ''print''"
    | (is_other) "xs \<notin> str ` {''help'', ''clear'', ''calc''}" "take 5 xs \<noteq> str ''print''" by blast
  then show ?thesis
  proof cases
    case is_help
    have "console (help_text s) = console s @ help_panel" by (simp add: help_text_def help_panel_def printf_s_def)
    then show ?thesis using is_help d by (simp add: defs)
  next
    case is_print
    from print_command_replies [OF clock arg [OF is_print(2)] input(2)]
    obtain io' s' where "print_command dev lk tick (input + 6) (io, s) = Some (io', s')"
      "console s' = console s @ [print_reply regs lk tick ys]" by blast
    then show ?thesis using is_print small d by (auto simp: defs p)
  qed (use small d p in \<open>auto simp: defs\<close>)
qed

lemma page_replies:
  assumes input: "cstr (memory s) input (str ''page'')" "literals_ok lk (memory s)"
  shows "map_option (\<lambda>(u, s'). (u, console s')) (command_mode fuel dev lk tick input ((io, COMMAND_MODE), s))
    = map_option (Pair (io, COMMAND_MODE)) (page_output fuel s)"
proof -
  have lits: "{''help'', ''page''} \<subseteq> set shell_literals" by (simp add: shell_literals_def)
  have c: "check_command (memory s) input (lit lk t) = Some (str ''page'' = str t)" if "t \<in> {''help'', ''page''}" for t
    using that lits by (intro check_command_iff [OF input]) auto
  have "str ''page'' \<noteq> str ''help''" by (simp add: str_def)
  then show ?thesis
    by (cases "kmalloc_int fuel 1000 1 True s") (auto simp: command_mode_def c page_output_def printf_s_def)
qed

text \<open>\<open>split\<close> counts the delimiters of the line.\<close>

lemma split_count_counts:
  assumes "cstr m p xs"
  shows "i \<le> length xs \<Longrightarrow> split_count m p delim (of_nat (length xs)) (of_nat i) cnt = cnt + of_nat (count_list (drop i xs) delim)"
proof (induction "length xs - i" arbitrary: i cnt)
  case 0
  then show ?case by (subst split_count.simps) simp
next
  case (Suc k)
  have l: "length xs < 2147483648" using assms by (simp add: cstr_def)
  have i: "i < length xs" using Suc.hyps(2) by simp
  then have "sint (of_nat i :: u32) < sint (of_nat (length xs) :: u32)"
    using l by (simp add: sint_of_nat)
  moreover have "load8 m (p + of_nat i) = xs ! i" using cstr_nth(1) [OF assms i] .
  moreover have "drop i xs = xs ! i # drop (Suc i) xs" using i by (simp add: Cons_nth_drop_Suc)
  moreover have "split_count m p delim (of_nat (length xs)) (of_nat (Suc i)) cnt' = cnt' + of_nat (count_list (drop (Suc i) xs) delim)" for cnt'
    using Suc.hyps(2) by (intro Suc.hyps(1)) simp_all
  ultimately show ?case by (subst split_count.simps) (simp add: add.commute)
qed

lemma split_counts:
  assumes "cstr (memory s) p xs" "split mk p delim s = Some (ptr, cnt, s')"
  shows "nat (sint cnt) = count_list xs delim"
proof -
  have "cnt = of_nat (count_list xs delim)"
    using assms(2) split_count_counts [OF assms(1), of 0 delim 0] by (auto simp: split_def strlen_cstr [OF assms(1)] Let_def bind_eq_Some_conv)
  moreover have "count_list xs delim < 2147483648" using count_le_length [of xs delim] assms(1) by (simp add: cstr_def)
  ultimately show ?thesis by (simp add: sint_of_nat)
qed

lemma console_words:
  "console (fold (\<lambda>i s. printf_s f [load32 (memory s) (g i)] s) is s) = console s @ map (\<lambda>i. Printf f [load32 (memory s) (g i)]) is"
  by (induction "is" arbitrary: s) (simp_all add: printf_s_def)

lemma calculator_mode_replies:
  assumes input: "cstr (memory s) input xs" "literals_ok lk (memory s)"
  shows "map_option (\<lambda>(u, s'). (u, console s')) (calculator_mode fuel lk input ((io, CALCULATOR_MODE), s))
    = map_option (Pair (io, next_mode CALCULATOR_MODE xs)) (if allocates CALCULATOR_MODE xs then words_output fuel input (count_list xs 0x20) s
        else Some (console s @ calculator_reply xs))"
proof -
  have lits: "{''quit'', ''sin'', ''cos'', ''tan'', ''cotan''} \<subseteq> set shell_literals" by (simp add: shell_literals_def)
  have c: "check_command (memory s) input (lit lk ''quit'') = Some (xs = str ''quit'')"
    using lits by (intro check_command_iff [OF input]) auto
  have p: "check_short_command (memory s) input (lit lk ''sin'') 3 \<longleftrightarrow> take 3 xs = str ''sin''"
    "check_short_command (memory s) input (lit lk ''cos'') 3 \<longleftrightarrow> take 3 xs = str ''cos''"
    "check_short_command (memory s) input (lit lk ''tan'') 3 \<longleftrightarrow> take 3 xs = str ''tan''"
    "check_short_command (memory s) input (lit lk ''cotan'') 5 \<longleftrightarrow> take 5 xs = str ''cotan''"
    using lits by (simp_all add: check_short_command_iff [OF input])
  have d: "COMMAND_MODE \<noteq> CALCULATOR_MODE" by (simp add: COMMAND_MODE_def CALCULATOR_MODE_def)
  note defs = calculator_mode_def c p next_mode_def not_supported_def printf_s_def calculator_reply_def asked_function_def allocates_def
  show ?thesis
  proof (cases "allocates CALCULATOR_MODE xs")
    case False
    then show ?thesis using d by (auto simp: defs split: if_splits)
  next
    case True
    show ?thesis
    proof (cases "split (kmalloc fuel) input 0x20 s")
      case None
      then show ?thesis using True d by (auto simp: defs words_output_def split: if_splits)
    next
      case (Some r)
      obtain com cnt s1 where r: "r = (com, cnt, s1)" by (cases r)
      have "nat (sint cnt) = count_list xs 0x20" using split_counts [OF input(1)] Some r by blast
      then show ?thesis using True d Some
        by (auto simp: r calculator_mode_def c p next_mode_def asked_function_def allocates_def words_output_def console_words
          printf_s_def [of _ "[]"] split: if_splits)
    qed
  qed
qed

lemma shell_command_outputs:
  assumes "cmos_device regs dev" "cstr (memory s) input xs" "literals_ok lk (memory s)"
    and arg: "st = COMMAND_MODE \<and> take 5 xs = str ''print'' \<longrightarrow> cstr (memory s) (input + 6) ys"
  shows "case line_output fuel regs lk tick input st xs ys s of
      None \<Rightarrow> shell_command fuel dev lk tick input ((io, st), s) = None
    | Some out \<Rightarrow> \<exists>io' s'. shell_command fuel dev lk tick input ((io, st), s) = Some ((io', next_mode st xs), s')
        \<and> console s' = out @ [Printf ''\<newline>> '' []]"
proof -
  have d: "COMMAND_MODE \<noteq> CALCULATOR_MODE" by (simp add: COMMAND_MODE_def CALCULATOR_MODE_def)
  consider (page) "st = COMMAND_MODE" "xs = str ''page''" | (command) "st = COMMAND_MODE" "xs \<noteq> str ''page''"
    | (calculator) "st = CALCULATOR_MODE" | (neither) "st \<noteq> COMMAND_MODE" "st \<noteq> CALCULATOR_MODE" by blast
  then show ?thesis
  proof cases
    case page
    then have n: "allocates st xs" "next_mode st xs = COMMAND_MODE" using d by (simp_all add: allocates_def next_mode_def str_def)
    show ?thesis using page_replies [OF assms(2) [unfolded page(2)] assms(3), of fuel dev tick io] page n
      by (auto simp: line_output_def shell_command_def printf_s_def split: option.splits)
  next
    case command
    then have n: "\<not> allocates st xs" using d by (simp add: allocates_def)
    show ?thesis using command_mode_replies [OF assms(1-3) arg [rule_format] command(2), of fuel tick io] command n
      by (auto simp: line_output_def shell_reply_def shell_command_def printf_s_def)
  next
    case calculator
    show ?thesis using calculator_mode_replies [OF assms(2,3), of fuel io] calculator d
      by (auto simp: line_output_def shell_reply_def shell_command_def printf_s_def split: option.splits if_splits)
  next
    case neither
    then show ?thesis by (simp add: line_output_def allocates_def shell_reply_def shell_command_def next_mode_def printf_s_def)
  qed
qed

text \<open>The lines whose answer needs neither memory nor what lies behind the line.\<close>

definition needs_no_memory :: "u32 \<Rightarrow> u8 list \<Rightarrow> bool" where
  "needs_no_memory st xs \<longleftrightarrow>
     st = COMMAND_MODE \<and> xs \<noteq> str ''page'' \<and> (take 5 xs = str ''print'' \<longrightarrow> 6 \<le> length xs)
     \<or> st = CALCULATOR_MODE \<and> (xs = str ''quit'' \<or> take 3 xs \<in> {str ''sin'', str ''cos'', str ''tan''} \<or> take 5 xs = str ''cotan'')"

lemma shell_command_replies:
  assumes "cmos_device regs dev" "cstr (memory s) input xs" "literals_ok lk (memory s)" "needs_no_memory st xs"
  shows "\<exists>io' s'. shell_command fuel dev lk tick input ((io, st), s) = Some ((io', next_mode st xs), s')
    \<and> console s' = console s @ shell_reply regs lk tick input st xs (drop 6 xs) @ [Printf ''\<newline>> '' []]"
proof -
  have d: "COMMAND_MODE \<noteq> CALCULATOR_MODE" by (simp add: COMMAND_MODE_def CALCULATOR_MODE_def)
  have n: "\<not> allocates st xs" using assms(4) d by (auto simp: needs_no_memory_def allocates_def asked_function_def)
  have "cstr (memory s) (input + 6) (drop 6 xs)" if "st = COMMAND_MODE \<and> take 5 xs = str ''print''"
  proof -
    have six: "length (take 6 xs) = 6" using assms(4) that d by (auto simp: needs_no_memory_def)
    have "cstr (memory s) (input + of_nat (length (take 6 xs))) (drop 6 xs)"
      by (rule cstr_append) (simp add: assms(2))
    then show ?thesis unfolding six by simp
  qed
  then show ?thesis
    using shell_command_outputs [OF assms(1-3), of st "drop 6 xs" fuel tick io] n by (simp add: line_output_def)
qed

subsection \<open>Properties\<close>

text \<open>C25: The answer of the shell to a line, in full. It is a machine of two modes: \<open>calc\<close> leads from the command mode
  to the calculator mode, \<open>quit\<close> back, every other line stays. After the line the console has exactly the reply and
  the prompt: the eight lines of the help panel, the cleared screen with its hint, the clock, the tick, the stack or
  the argument of \<open>print\<close> (as the format of \<open>printf\<close>; behind a bare \<open>print\<close> the argument is the string
  after the terminator), the echo of an unknown line, the excuse for a function of the calculator. The two kinds of line
  that allocate return exactly when their allocation does: \<open>page\<close> then prints the two addresses, any other line of the
  calculator mode one pointer from the table of \<open>split\<close> for each of its spaces.\<close>

theorem shell_answers_and_changes_mode:
  assumes "cmos_device regs dev" "cstr (memory s) input xs" "literals_ok lk (memory s)"
    and "st = COMMAND_MODE \<and> take 5 xs = str ''print'' \<longrightarrow> cstr (memory s) (input + 6) ys"
  shows "case line_output fuel regs lk tick input st xs ys s of
      None \<Rightarrow> shell_command fuel dev lk tick input ((io, st), s) = None
    | Some out \<Rightarrow> \<exists>io' s'. shell_command fuel dev lk tick input ((io, st), s) = Some ((io', next_mode st xs), s')
        \<and> console s' = out @ [Printf ''\<newline>> '' []]"
  using assms by (rule shell_command_outputs)

text \<open>A memory with some literals, each on its own sixteen bytes.\<close>

definition table_link :: "string list \<Rightarrow> shell_link" where
  "table_link ts = \<lparr>lit = (\<lambda>t. 0x1000 + 16 * of_nat (length (takeWhile (\<lambda>u. u \<noteq> t) ts))),
     tm_local = 0x3000, get_stack_pointer = 0, stack_words = []\<rparr>"

definition table_memory :: "string list \<Rightarrow> mem" where
  "table_memory ts = put_bytes 0x1000 (concat (map (\<lambda>t. str t @ replicate (16 - length t) 0) ts)) (\<lambda>_. 0)"

lemma drop_blocks: "(\<forall>b \<in> set bs. length b = n) \<Longrightarrow> k \<le> length bs \<Longrightarrow> drop (n * k) (concat bs) = concat (drop k bs)"
proof (induction bs arbitrary: k)
  case (Cons b bs)
  then show ?case by (cases k) simp_all
qed simp

lemma length_blocks: "(\<forall>b \<in> set bs. length b = n) \<Longrightarrow> length (concat bs) = n * length bs"
  by (induction bs) simp_all

lemma table_literal:
  assumes t: "t \<in> set ts" and short: "\<forall>t \<in> set ts. length t < 16 \<and> 0 \<notin> set (str t)" and n: "length ts \<le> 256"
  shows "cstr (table_memory ts) (lit (table_link ts) t) (str t)"
proof -
  let ?bs = "map (\<lambda>t. str t @ replicate (16 - length t) 0) ts"
  let ?k = "length (takeWhile (\<lambda>u. u \<noteq> t) ts)"
  have l: "\<forall>b \<in> set ?bs. length b = 16" using short by auto
  have len: "length (concat ?bs) = 16 * length ts" using length_blocks [OF l] by simp
  have k: "?k < length ts" "ts ! ?k = t"
  proof -
    show "?k < length ts" using t
      by (metis (mono_tags, lifting) length_takeWhile_le le_neq_implies_less set_takeWhileD takeWhile_eq_take take_all_iff order_refl)
    then show "ts ! ?k = t" using nth_length_takeWhile [of "\<lambda>u. u \<noteq> t" ts] by simp
  qed
  have m: "bytes (table_memory ts) 0x1000 (16 * length ts) = concat ?bs"
    unfolding table_memory_def
    by (rule nth_equalityI) (use n in \<open>simp_all add: len load8_def put_bytes_def within_add_of_nat unat_of_nat_small\<close>)
  have "drop ?k ?bs = ?bs ! ?k # drop (Suc ?k) ?bs"
    using k(1) by (intro Cons_nth_drop_Suc [symmetric]) simp
  moreover have e: "?bs ! ?k = str t @ replicate (16 - length t) 0" using k by simp
  ultimately have "drop (16 * ?k) (concat ?bs) = (str t @ replicate (16 - length t) 0) @ concat (drop (Suc ?k) ?bs)"
    using drop_blocks [OF l, of ?k] k(1) by simp
  moreover have "Suc (length t) - length t = 1" "length t < 16" using short t by auto
  ultimately have "take (Suc (length t)) (drop (16 * ?k) (concat ?bs)) = str t @ take 1 (replicate (16 - length t) 0)"
    by simp
  moreover have "take 1 (replicate (16 - length t) (0 :: u8)) = [0]" using short t by (cases "16 - length t") auto
  moreover have "bytes (table_memory ts) (0x1000 + of_nat (16 * ?k)) (Suc (length t))
      = take (Suc (length t)) (drop (16 * ?k) (bytes (table_memory ts) 0x1000 (16 * length ts)))"
  proof -
    have "16 * ?k + 16 \<le> 16 * length ts" using k(1) by simp
    then show ?thesis using short t by (auto intro!: nth_equalityI simp: add.assoc simp del: bytes_Suc)
  qed
  ultimately have "bytes (table_memory ts) (0x1000 + of_nat (16 * ?k)) (Suc (length (str t))) = str t @ [0]"
    unfolding m by simp
  then show "cstr (table_memory ts) (lit (table_link ts) t) (str t)"
    unfolding cstr_def using short t by (simp add: table_link_def less_trans [of _ 16])
qed

definition demo_literals :: shell_link where "demo_literals = table_link shell_literals"
definition demo_literal_memory :: mem where "demo_literal_memory = table_memory shell_literals"

lemma demo_literals_ok: "literals_ok demo_literals demo_literal_memory"
proof -
  have "\<forall>t \<in> set shell_literals. length t < 16 \<and> 0 \<notin> set (str t)" "length shell_literals \<le> 256"
    by (simp_all add: shell_literals_def str_def)
  then show ?thesis unfolding literals_ok_def demo_literals_def demo_literal_memory_def using table_literal by blast
qed

definition demo_shell_state :: kstate where
  "demo_shell_state = \<lparr>memory = demo_literal_memory, console = [], free_mem_addr = 0, kheap = 0, kernel_directory = 0,
     current_directory = 0, frames = 0, nframes = 0\<rparr>"

theorem shell_answers_and_changes_mode_witness:
  "(\<exists>io' s'. shell_command 0 (\<lambda>io port. ucast (cmos_index io)) demo_literals 7 (lit demo_literals ''help'') (([], 0), demo_shell_state)
      = Some ((io', 0), s') \<and> console s' = help_panel @ [Printf ''\<newline>> '' []])
   \<and> (\<exists>io' s'. shell_command 0 (\<lambda>io port. ucast (cmos_index io)) demo_literals 7 (lit demo_literals ''tan'') (([], 1), demo_shell_state)
      = Some ((io', 1), s') \<and> console s' = [Printf (''Sorry, the '' @ CHR 0x27 # ''tan'' @ CHR 0x27 # '' function is not yet supported!'') [],
          Printf ''\<newline>> '' []])"
proof
  have clock: "cmos_device (\<lambda>r. r) (\<lambda>io port. ucast (cmos_index io))"
    by (auto simp: cmos_device_def bit_simps intro!: bit_word_eqI)
  have lits: "literals_ok demo_literals (memory demo_shell_state)" using demo_literals_ok by (simp add: demo_shell_state_def)
  then have line: "cstr (memory demo_shell_state) (lit demo_literals t) (str t)" if "t \<in> set shell_literals" for t
    using that by (simp add: literals_ok_def)
  have h: "next_mode 0 (str ''help'') = 0" "line_output 0 (\<lambda>r. r) demo_literals 7 (lit demo_literals ''help'') 0 (str ''help'') [] demo_shell_state
      = Some help_panel" "take 5 (str ''help'') \<noteq> str ''print''"
    by (simp_all add: next_mode_def line_output_def allocates_def shell_reply_def command_reply_def COMMAND_MODE_def CALCULATOR_MODE_def
      str_def demo_shell_state_def)
  show "\<exists>io' s'. shell_command 0 (\<lambda>io port. ucast (cmos_index io)) demo_literals 7 (lit demo_literals ''help'') (([], 0), demo_shell_state)
      = Some ((io', 0), s') \<and> console s' = help_panel @ [Printf ''\<newline>> '' []]"
    using shell_answers_and_changes_mode [OF clock line lits, of "''help''" 0 "[]" 0 7 "[]"] h by (simp add: shell_literals_def)
  have t: "next_mode 1 (str ''tan'') = 1" "line_output 0 (\<lambda>r. r) demo_literals 7 (lit demo_literals ''tan'') 1 (str ''tan'') [] demo_shell_state
      = Some [Printf (''Sorry, the '' @ CHR 0x27 # ''tan'' @ CHR 0x27 # '' function is not yet supported!'') []]"
    by (simp_all add: next_mode_def line_output_def allocates_def shell_reply_def calculator_reply_def asked_function_def COMMAND_MODE_def
      CALCULATOR_MODE_def str_def demo_shell_state_def)
  show "\<exists>io' s'. shell_command 0 (\<lambda>io port. ucast (cmos_index io)) demo_literals 7 (lit demo_literals ''tan'') (([], 1), demo_shell_state)
      = Some ((io', 1), s') \<and> console s' = [Printf (''Sorry, the '' @ CHR 0x27 # ''tan'' @ CHR 0x27 # '' function is not yet supported!'') [],
          Printf ''\<newline>> '' []]"
    using shell_answers_and_changes_mode [OF clock line lits, of "''tan''" 1 "[]" 0 7 "[]"] t by (simp add: shell_literals_def COMMAND_MODE_def)
qed

end
