(* ===== verification/Keyboard.thy ===== *)
theory Keyboard
  imports Interrupts Libc_String Libc_Memory
begin

text \<open>
  The keyboard driver of \<open>kernel/drivers/keyboard.c\<close>, as compiled for the United States layout: a
  line of at most 255 characters, edited key by key in the static \<open>key_buffer\<close> and handed to
  \<open>user_input\<close> on Enter or when it is full. The address of the buffer and the bytes that follow
  \<open>sc_ascii\<close> in the kernel image are the linker's choice and so parameters, as is \<open>user_input\<close>,
  which \<open>Kernel_Main\<close> supplies.
\<close>

subsection \<open>The code\<close>

definition BACKSPACE :: u8 where "BACKSPACE = 0x0E"
definition ENTER :: u8 where "ENTER = 0x1C"
definition SCANCODE_MAX :: u8 where "SCANCODE_MAX = 57"
definition RELEASED :: u8 where "RELEASED = 0x80"
definition KEY_BUFFER_SIZE :: u32 where "KEY_BUFFER_SIZE = 255"

definition sc_name :: "string list" where
  "sc_name = [''ERROR'', ''Esc'',
     ''1'', ''2'', ''3'', ''4'', ''5'', ''6'', ''7'', ''8'', ''9'', ''0'',
     ''-'', ''='', ''Backspace'', ''Tab'',
     ''Q'', ''W'', ''E'', ''R'', ''T'', ''Y'', ''U'', ''I'', ''O'', ''P'', ''['', '']'', ''Enter'', ''Lctrl'',
     ''A'', ''S'', ''D'', ''F'', ''G'', ''H'', ''J'', ''K'', ''L'', '';'', [CHR 0x27], [CHR 0x60], ''LShift'', [CHR 0x5C],
     ''Z'', ''X'', ''C'', ''V'', ''B'', ''N'', ''M'', '','', ''.'', ''/'',
     ''RShift'', ''Keypad *'', ''LAlt'', ''Spacebar'',
     ''F1'', ''F2'', ''F3'', ''F4'', ''F5'', ''F6'', ''F7'', ''F8'', ''F9'', ''F10'',
     ''Numlock'', ''Scroll_lock'', ''Home'', ''Up'', ''Page_Up'', ''-'',
     ''Left'', ''Empty'', ''Right'', ''+'', ''End'', ''Down'', ''Page_Down'', ''Insert'', ''Delete'']"

definition sc_ascii :: "u8 list" where
  "sc_ascii = map of_char (''??'' @ ''1234567890'' @ ''-=??'' @ ''QWERTYUIOP[]??''
     @ ''ASDFGHJKL;'' @ [CHR 0x27, CHR 0x60, CHR ''?'', CHR 0x5C] @ ''ZXCVBNM,./''
     @ ''??? '' @ ''??????????'' @ ''?????-'' @ ''???+?????'')"

text \<open>What \<open>sc_ascii[i]\<close> reads; \<open>after\<close> are the bytes behind the table.\<close>

definition sc_ascii_at :: "(nat \<Rightarrow> u8) \<Rightarrow> nat \<Rightarrow> u8" where
  "sc_ascii_at after i = (if i < length sc_ascii then sc_ascii ! i else after (i - length sc_ascii))"

text \<open>A pointer from behind the end of \<open>sc_name\<close> gives no defined result.\<close>

definition get_index_of_control_key :: "nat \<Rightarrow> int option" where
  "get_index_of_control_key scancode =
     (if scancode < length sc_name then
        (let scanname = sc_name ! scancode
         in Some (if scanname = ''Lctrl'' then 1
                  else if scanname = ''LShift'' then 0
                  else if scanname = ''RShift'' then 0
                  else if scanname = ''LAlt'' then 3
                  else - 1))
      else None)"

text \<open>The state \<open>'u\<close> belongs to \<open>user_input\<close>.\<close>

type_synonym 'u input_handler = "u32 \<Rightarrow> 'u \<times> kstate \<Rightarrow> ('u \<times> kstate) option"

definition submit_line :: "'u input_handler \<Rightarrow> u32 \<Rightarrow> 'u \<times> kstate \<Rightarrow> ('u \<times> kstate) option" where
  "submit_line user key_buffer = (\<lambda>(u, s). user key_buffer (u, printf_s ''\<newline>'' [] s))"

text \<open>What a key other than Backspace and Enter does once there is room in the buffer.\<close>

definition press_key :: "(nat \<Rightarrow> u8) \<Rightarrow> u32 \<Rightarrow> u8 \<Rightarrow> u32 \<times> kstate \<Rightarrow> (u32 \<times> kstate) option" where
  "press_key after key_buffer scancode = (\<lambda>(control_keys, s).
     let letter = sc_ascii_at after (unat scancode);
         idx = unat (if scancode AND RELEASED \<noteq> 0 then scancode - RELEASED else scancode)
     in if sc_ascii_at after idx = 0x3F then
          Option.bind (get_index_of_control_key idx) (\<lambda>bitshift.
            if bitshift < 0 then Some (control_keys, s)
            else if scancode AND RELEASED \<noteq> 0
            then Some (control_keys AND NOT (push_bit (nat bitshift) 1), s)
            else Some (control_keys OR push_bit (nat bitshift) 1, s))
        else if scancode \<le> SCANCODE_MAX then
          (let letter = (if control_keys AND 1 = 0 \<and> letter \<ge> 0x41 \<and> letter \<le> 0x5A
                         then letter + 32 else letter)
           in map_option (\<lambda>m. (control_keys, printf_s [char_of (unat letter)] [] (s\<lparr>memory := m\<rparr>)))
                (append key_buffer letter (memory s)))
        else Some (control_keys, s))"

definition keyboard_scancode :: "(nat \<Rightarrow> u8) \<Rightarrow> 'u input_handler \<Rightarrow> u32 \<Rightarrow> u8 \<Rightarrow> u32 \<times> 'u \<times> kstate \<Rightarrow>
    (u32 \<times> 'u \<times> kstate) option" where
  "keyboard_scancode after user key_buffer scancode = (\<lambda>(control_keys, u, s).
     if scancode = BACKSPACE then
       Option.bind (strlen (memory s) key_buffer) (\<lambda>len.
         if len = 0 then Some (control_keys, u, s)
         else Option.bind (backspace key_buffer (memory s)) (\<lambda>m.
           Some (control_keys, u, s\<lparr>memory := m, console := console s @ [Printf_Backspace]\<rparr>)))
     else if scancode = ENTER then
       Option.bind (submit_line user key_buffer (u, s)) (\<lambda>(u, s).
         Some (control_keys, u, upd_mem (\<lambda>m. snd (memset key_buffer 0 (KEY_BUFFER_SIZE + 1) m)) s))
     else
       Option.bind (strlen (memory s) key_buffer) (\<lambda>len.
       Option.bind (if len = 255
                    then map_option (\<lambda>(u, s). (u, upd_mem (\<lambda>m. store8 m key_buffer 0) s))
                           (submit_line user key_buffer (u, s))
                    else Some (u, s)) (\<lambda>(u, s).
         map_option (\<lambda>(ck, s). (ck, u, s)) (press_key after key_buffer scancode (control_keys, s)))))"

text \<open>The interrupt: the port accesses are part of the state that \<open>user_input\<close> may use.\<close>

definition keyboard_callback :: "device \<Rightarrow> (nat \<Rightarrow> u8) \<Rightarrow> (ports \<times> 'u) input_handler \<Rightarrow> u32 \<Rightarrow>
    u32 \<times> (ports \<times> 'u) \<times> kstate \<Rightarrow> (u32 \<times> (ports \<times> 'u) \<times> kstate) option" where
  "keyboard_callback dev after user key_buffer = (\<lambda>(control_keys, (io, u), s).
     let (scancode, io) = inb dev 0x60 io
     in keyboard_scancode after user key_buffer scancode (control_keys, (io, u), s))"

partial_function (option) drain_controller :: "device \<Rightarrow> ports \<Rightarrow> ports option" where
  "drain_controller dev io =
     (let (status, io) = inb dev 0x64 io
      in if status AND 1 \<noteq> 0 then (let (_, io) = inb dev 0x60 io in drain_controller dev io) else Some io)"

definition init_keyboard :: "device \<Rightarrow> 's isr_t \<Rightarrow> 's isr_t option list \<times> ports \<Rightarrow>
    ('s isr_t option list \<times> ports) option" where
  "init_keyboard dev cb = (\<lambda>(hs, io).
     Option.bind (drain_controller dev io) (\<lambda>io.
       let io = outb 0x64 0xAE io;
           io = outb 0x64 0x20 io;
           (config, io) = inb dev 0x60 io;
           status = (config OR 1) AND NOT 0x10;
           io = outb 0x64 0x60 io;
           io = outb 0x60 status io;
           io = outb 0x60 0xF4 io
       in Some (register_interrupt_handler 33 cb hs, io)))"

subsection \<open>The line editor it implements\<close>

text \<open>Which bit of \<open>control_keys\<close> a key controls, by its number in scan code set 1: control, the shifts, alt.\<close>

definition control_bit :: "nat \<Rightarrow> nat option" where
  "control_bit i = (if i = 29 then Some 1 else if i = 42 \<or> i = 54 then Some 0 else if i = 56 then Some 3 else None)"

definition is_typing :: "u8 \<Rightarrow> bool" where
  "is_typing k \<longleftrightarrow> k \<le> 57 \<and> sc_ascii ! unat k \<noteq> 0x3F"

definition typed :: "u8 \<Rightarrow> u32 \<Rightarrow> u8" where
  "typed k ck = (let c = sc_ascii ! unat k
     in if \<not> bit ck 0 \<and> c \<ge> 0x41 \<and> c \<le> 0x5A then c + 32 else c)"

definition edit_submits :: "u8 \<Rightarrow> u8 list \<Rightarrow> bool" where
  "edit_submits k xs \<longleftrightarrow> k = ENTER \<or> k \<noteq> BACKSPACE \<and> length xs = 255"

definition edit_line :: "u8 \<Rightarrow> u32 \<Rightarrow> u8 list \<Rightarrow> u8 list" where
  "edit_line k ck xs =
     (if k = BACKSPACE then butlast xs
      else (if edit_submits k xs then [] else xs) @ (if is_typing k then [typed k ck] else []))"

definition edit_control :: "u8 \<Rightarrow> u32 \<Rightarrow> u32" where
  "edit_control k ck = (case control_bit (unat (k AND 0x7F)) of None \<Rightarrow> ck
     | Some b \<Rightarrow> if bit k 7 then unset_bit b ck else set_bit b ck)"

definition edit_echo :: "u8 \<Rightarrow> u32 \<Rightarrow> u8 list \<Rightarrow> console_event list" where
  "edit_echo k ck xs = (if k = BACKSPACE then (if xs = [] then [] else [Printf_Backspace])
     else if is_typing k then [Printf [char_of (unat (typed k ck))] []] else [])"

subsection \<open>The tables\<close>

lemma table_lengths: "length sc_ascii = 83" "length sc_name = 83"
  by (simp_all add: sc_ascii_def sc_name_def)

lemma control_table:
  assumes "i < 83" "sc_ascii ! i = 0x3F"
  shows "get_index_of_control_key i = Some (case control_bit i of None \<Rightarrow> - 1 | Some b \<Rightarrow> int b)"
proof -
  have "list_all (\<lambda>i. get_index_of_control_key i = Some (case control_bit i of None \<Rightarrow> - 1 | Some b \<Rightarrow> int b)) [0..<83]"
    by code_simp
  then show ?thesis using assms by (simp add: list_all_iff)
qed

lemma sc_ascii_bytes: "sc_ascii =
  [0x3F, 0x3F, 0x31, 0x32, 0x33, 0x34, 0x35, 0x36, 0x37, 0x38, 0x39, 0x30, 0x2D, 0x3D, 0x3F, 0x3F,
   0x51, 0x57, 0x45, 0x52, 0x54, 0x59, 0x55, 0x49, 0x4F, 0x50, 0x5B, 0x5D, 0x3F, 0x3F, 0x41, 0x53,
   0x44, 0x46, 0x47, 0x48, 0x4A, 0x4B, 0x4C, 0x3B, 0x27, 0x60, 0x3F, 0x5C, 0x5A, 0x58, 0x43, 0x56,
   0x42, 0x4E, 0x4D, 0x2C, 0x2E, 0x2F, 0x3F, 0x3F, 0x3F, 0x20, 0x3F, 0x3F, 0x3F, 0x3F, 0x3F, 0x3F,
   0x3F, 0x3F, 0x3F, 0x3F, 0x3F, 0x3F, 0x3F, 0x3F, 0x3F, 0x2D, 0x3F, 0x3F, 0x3F, 0x2B, 0x3F, 0x3F,
   0x3F, 0x3F, 0x3F]"
  by (simp add: sc_ascii_def)

lemma control_keys_print_nothing:
  assumes "i < 83" "sc_ascii ! i \<noteq> 0x3F"
  shows "control_bit i = None" "sc_ascii ! i \<noteq> 0" "sc_ascii ! i \<le> 0x60"
proof -
  have "list_all (\<lambda>i. sc_ascii ! i \<noteq> 0x3F \<longrightarrow> control_bit i = None \<and> sc_ascii ! i \<noteq> 0 \<and> sc_ascii ! i \<le> 0x60) [0..<83]"
    unfolding sc_ascii_bytes by code_simp
  then show "control_bit i = None" "sc_ascii ! i \<noteq> 0" "sc_ascii ! i \<le> 0x60"
    using assms by (simp_all add: list_all_iff)
qed

subsection \<open>One key\<close>

lemma released: "k AND RELEASED \<noteq> 0 \<longleftrightarrow> bit k 7" "bit (k::u8) 7 \<longleftrightarrow> 128 \<le> unat k"
proof -
  have r: "RELEASED = 2 ^ 7" by (simp add: RELEASED_def)
  show "k AND RELEASED \<noteq> 0 \<longleftrightarrow> bit k 7" by (simp only: r and_exp_eq_0_iff_not_bit not_not)
  have "unat k < 256" using unsigned_less [of k] by simp
  then have "unat k div 128 = (if 128 \<le> unat k then 1 else 0)" by (auto simp: div_if)
  moreover have "bit (unat k) 7 \<longleftrightarrow> odd (unat k div 2 ^ 7)" by (rule bit_iff_odd)
  moreover have "bit (unat k) 7 \<longleftrightarrow> bit k 7" by (simp add: bit_unsigned_iff)
  ultimately show "bit k 7 \<longleftrightarrow> 128 \<le> unat k" by simp
qed

lemma key_number: "unat (if k AND RELEASED \<noteq> 0 then k - RELEASED else k) = unat (k AND 0x7F)"
proof -
  have u: "unat k < 256" using unsigned_less [of k] by simp
  have m: "(0x7F :: u8) = mask 7" by (simp add: mask_eq_exp_minus_1)
  have "unat (k AND 0x7F) = unat k mod 128"
    by (simp only: m take_bit_eq_mask [symmetric] unsigned_take_bit_eq) (simp add: take_bit_eq_mod)
  moreover have "unat (k - RELEASED) = unat k - 128" if "128 \<le> unat k"
    using that by (simp add: RELEASED_def unat_sub word_le_nat_alt)
  ultimately show ?thesis using u by (auto simp: released mod_if)
qed

lemma press_key_cases:
  assumes "sc_ascii_at after (unat (k AND 0x7F)) = c"
  shows "c = 0x3F \<Longrightarrow> get_index_of_control_key (unat (k AND 0x7F)) = Some b \<Longrightarrow> press_key after kb k (ck, s) =
      Some (if b < 0 then ck else if bit k 7 then ck AND NOT (push_bit (nat b) 1) else ck OR push_bit (nat b) 1, s)"
    and "c \<noteq> 0x3F \<Longrightarrow> \<not> k \<le> 57 \<Longrightarrow> press_key after kb k (ck, s) = Some (ck, s)"
    and "c \<noteq> 0x3F \<Longrightarrow> k \<le> 57 \<Longrightarrow> unat k = unat (k AND 0x7F) \<Longrightarrow> c = sc_ascii ! unat k \<Longrightarrow> press_key after kb k (ck, s) =
      map_option (\<lambda>m. (ck, printf_s [char_of (unat (typed k ck))] [] (s\<lparr>memory := m\<rparr>))) (append kb (typed k ck) (memory s))"
proof -
  have one: "ck AND 1 = 0 \<longleftrightarrow> \<not> bit ck 0" by (simp add: and_one_eq bit_0 even_iff_mod_2_eq_zero)
  note eq = press_key_def Let_def prod.case key_number and eq' = released(1) assms SCANCODE_MAX_def
  show "c = 0x3F \<Longrightarrow> get_index_of_control_key (unat (k AND 0x7F)) = Some b \<Longrightarrow> press_key after kb k (ck, s) =
      Some (if b < 0 then ck else if bit k 7 then ck AND NOT (push_bit (nat b) 1) else ck OR push_bit (nat b) 1, s)"
    unfolding eq unfolding eq' by simp
  show "c \<noteq> 0x3F \<Longrightarrow> \<not> k \<le> 57 \<Longrightarrow> press_key after kb k (ck, s) = Some (ck, s)"
    unfolding eq unfolding eq' by simp
  show "c \<noteq> 0x3F \<Longrightarrow> k \<le> 57 \<Longrightarrow> unat k = unat (k AND 0x7F) \<Longrightarrow> c = sc_ascii ! unat k \<Longrightarrow> press_key after kb k (ck, s) =
      map_option (\<lambda>m. (ck, printf_s [char_of (unat (typed k ck))] [] (s\<lparr>memory := m\<rparr>))) (append kb (typed k ck) (memory s))"
    unfolding eq typed_def unfolding eq' by (simp only: if_False if_True assms one)
qed

text \<open>The bytes of the buffer.\<close>

abbreviation in_buffer :: "u32 \<Rightarrow> u32 \<Rightarrow> bool" where "in_buffer kb a \<equiv> within kb 256 a"

lemma append_in_buffer:
  assumes "cstr m kb xs" "length xs < 255" "n \<noteq> 0"
  shows "\<exists>m'. append kb n m = Some m' \<and> cstr m' kb (xs @ [n]) \<and> (\<forall>a. \<not> in_buffer kb a \<longrightarrow> m' a = m a)"
proof -
  obtain m' where m': "append kb n m = Some m'" "cstr m' kb (xs @ [n])"
    using append_cstr [OF assms(1,3)] assms(2) by auto
  have "m' = store8 (store8 m (kb + of_nat (length xs)) n) (kb + of_nat (Suc (length xs))) 0"
    using m'(1) by (simp add: append_def strlen_cstr [OF assms(1)] add.commute)
  moreover have "in_buffer kb (kb + of_nat (length xs))" "in_buffer kb (kb + of_nat (Suc (length xs)))"
    using assms(2) by (intro within_add_of_nat; simp)+
  ultimately have "\<forall>a. \<not> in_buffer kb a \<longrightarrow> m' a = m a" by (auto simp: store8_def)
  then show ?thesis using m' by blast
qed

lemma backspace_in_buffer:
  assumes "cstr m kb xs" "length xs \<le> 255" "xs \<noteq> []"
  shows "\<exists>m'. backspace kb m = Some m' \<and> cstr m' kb (butlast xs) \<and> (\<forall>a. \<not> in_buffer kb a \<longrightarrow> m' a = m a)"
proof -
  obtain m' where m': "backspace kb m = Some m'" "cstr m' kb (butlast xs)"
    using backspace_cstr [OF assms(1,3)] by auto
  have "of_nat (length xs) - 1 = (of_nat (length xs - 1) :: u32)" using assms(3) by (cases xs) simp_all
  then have "m' = store8 m (kb + of_nat (length xs - 1)) 0"
    using m'(1) by (simp add: backspace_def strlen_cstr [OF assms(1)])
  moreover have "in_buffer kb (kb + of_nat (length xs - 1))"
    using assms(2) by (intro within_add_of_nat) auto
  ultimately have "\<forall>a. \<not> in_buffer kb a \<longrightarrow> m' a = m a" by (auto simp: store8_def)
  then show ?thesis using m' by blast
qed

lemma typed_nonzero: "unat k < 83 \<Longrightarrow> is_typing k \<Longrightarrow> typed k ck \<noteq> 0"
  using control_keys_print_nothing [of "unat k"]
  by (auto simp: typed_def is_typing_def Let_def) (auto simp: word_le_nat_alt unat_arith_simps)

lemma press_key_edits:
  assumes "cstr (memory s) kb xs" "length xs < 255" and k: "unat (k AND 0x7F) < 83" "k \<noteq> ENTER" "k \<noteq> BACKSPACE"
  shows "\<exists>s'. press_key after kb k (ck, s) = Some (edit_control k ck, s')
    \<and> cstr (memory s') kb (xs @ (if is_typing k then [typed k ck] else []))
    \<and> console s' = console s @ (if is_typing k then [Printf [char_of (unat (typed k ck))] []] else [])
    \<and> (\<forall>a. \<not> in_buffer kb a \<longrightarrow> memory s' a = memory s a)"
proof -
  let ?i = "unat (k AND 0x7F)"
  have at: "sc_ascii_at after ?i = sc_ascii ! ?i" using k(1) by (simp add: sc_ascii_at_def table_lengths)
  show ?thesis
  proof (cases "sc_ascii ! ?i = 0x3F")
    case True
    have "\<not> is_typing k"
    proof
      assume t: "is_typing k"
      then have "unat k < 128" by (simp add: is_typing_def word_le_nat_alt)
      then have "?i = unat k" using key_number [of k] released [of k] by simp
      then show False using t True by (simp add: is_typing_def)
    qed
    moreover have "press_key after kb k (ck, s) = Some (edit_control k ck, s)"
      using press_key_cases(1) [OF at True control_table [OF k(1) True]]
      by (simp add: edit_control_def unset_bit_eq_and_not set_bit_eq_or split: option.splits)
    ultimately show ?thesis using assms(1) by auto
  next
    case False
    have c: "edit_control k ck = ck" using control_keys_print_nothing(1) [OF k(1) False] by (simp add: edit_control_def)
    show ?thesis
    proof (cases "k \<le> 57")
      case True
      then have u: "unat k < 83" "?i = unat k"
        using key_number [of k] released [of k] by (simp_all add: word_le_nat_alt)
      have t: "is_typing k" using True False u by (simp add: is_typing_def)
      have "press_key after kb k (ck, s)
        = map_option (\<lambda>m. (ck, printf_s [char_of (unat (typed k ck))] [] (s\<lparr>memory := m\<rparr>))) (append kb (typed k ck) (memory s))"
        using u by (intro press_key_cases(3) [OF at False True]) simp_all
      then show ?thesis
        using append_in_buffer [OF assms(1,2) typed_nonzero [OF u(1) t, of ck]] t c
        by (auto simp: printf_s_def)
    next
      case f: False
      then have "\<not> is_typing k" by (simp add: is_typing_def)
      moreover have "press_key after kb k (ck, s) = Some (ck, s)"
        by (rule press_key_cases(2) [OF at False f])
      ultimately show ?thesis using assms(1) c by auto
    qed
  qed
qed

subsection \<open>Typing, Enter, and any code\<close>

lemma typing_key:
  assumes "is_typing k"
  shows "unat (k AND 0x7F) < 83" "k \<noteq> ENTER" "k \<noteq> BACKSPACE" "edit_control k ck = ck"
proof -
  have k: "unat k \<le> 57" using assms by (simp add: is_typing_def word_le_nat_alt)
  then have n: "unat (k AND 0x7F) = unat k" using key_number [of k] released [of k] by simp
  then show "unat (k AND 0x7F) < 83" using k by simp
  show "k \<noteq> ENTER" "k \<noteq> BACKSPACE" using assms by (auto simp: is_typing_def sc_ascii_bytes ENTER_def BACKSPACE_def)
  have "control_bit (unat k) = None" using control_keys_print_nothing(1) [of "unat k"] assms k by (simp add: is_typing_def)
  then show "edit_control k ck = ck" by (simp add: edit_control_def n)
qed

lemma keyboard_types:
  assumes "cstr (memory s) kb xs" "length xs < 255" "is_typing k"
  shows "\<exists>s'. keyboard_scancode after user kb k (ck, u, s) = Some (ck, u, s') \<and> cstr (memory s') kb (xs @ [typed k ck])
    \<and> console s' = console s @ [Printf [char_of (unat (typed k ck))] []] \<and> (\<forall>a. \<not> in_buffer kb a \<longrightarrow> memory s' a = memory s a)"
proof -
  note k = typing_key [OF assms(3)]
  have "(of_nat (length xs) :: u32) \<noteq> 255" using word_add_of_nat_inject [of "length xs" 255 0] assms(2) by auto
  then show ?thesis
    using press_key_edits [where after = after and ck = ck, OF assms(1,2) k(1-3)] assms(3) k strlen_cstr [OF assms(1)]
    by (auto simp: keyboard_scancode_def)
qed

lemma keyboard_enters:
  assumes "user kb (u, printf_s ''\<newline>'' [] s) = Some (u', s1)"
  shows "\<exists>s'. keyboard_scancode after user kb ENTER (ck, u, s) = Some (ck, u', s') \<and> cstr (memory s') kb [] \<and> console s' = console s1"
proof -
  have "load8 (fill_bytes kb 256 0 (memory s1)) kb = 0" by (simp add: fill_bytes_def load8_def within_def)
  then show ?thesis using assms
    by (auto simp: keyboard_scancode_def submit_line_def memset_zero_fills cstr_Nil KEY_BUFFER_SIZE_def ENTER_def BACKSPACE_def)
qed

text \<open>Whatever code arrives and whatever the handler of lines does, the buffer holds a line afterwards.\<close>

lemma press_key_keeps_line:
  assumes "press_key after kb k (ck, s) = Some (ck', s')" "cstr (memory s) kb xs" "length xs < 255" "k \<noteq> ENTER" "k \<noteq> BACKSPACE"
  shows "\<exists>ys. cstr (memory s') kb ys \<and> length ys \<le> 255"
proof (cases "unat (k AND 0x7F) < 83")
  case True
  from press_key_edits [where after = after and ck = ck, OF assms(2,3) True assms(4,5)] obtain ys where
    "cstr (memory s') kb ys" "length ys \<le> Suc (length xs)" using assms(1) by fastforce
  then show ?thesis using assms(3) by (intro exI [of _ ys]) simp
next
  case False
  have "\<not> k \<le> 57"
  proof
    assume "k \<le> 57"
    then have "unat k \<le> 57" by (simp add: word_le_nat_alt)
    then show False using False key_number [of k] released [of k] by simp
  qed
  then have "s' = s" using assms(1)
    by (auto simp: press_key_def Let_def SCANCODE_MAX_def bind_eq_Some_conv split: if_splits)
  then show ?thesis using assms(2,3) by (intro exI [of _ xs]) simp
qed

lemma keyboard_keeps_line:
  assumes run: "keyboard_scancode after user kb k (ck, u, s) = Some (ck', u', s')" and line: "cstr (memory s) kb xs" "length xs \<le> 255"
  shows "\<exists>ys. cstr (memory s') kb ys \<and> length ys \<le> 255"
proof -
  have len: "strlen (memory s) kb = Some (of_nat (length xs))" by (rule strlen_cstr [OF line(1)])
  consider (erase) "k = BACKSPACE" | (enter) "k = ENTER" | (press) "k \<noteq> BACKSPACE" "k \<noteq> ENTER" by blast
  then show ?thesis
  proof cases
    case erase
    show ?thesis
    proof (cases "xs = []")
      case True
      then have "s' = s" using run len erase by (simp add: keyboard_scancode_def)
      then show ?thesis using line by blast
    next
      case False
      have "(of_nat (length xs) :: u32) \<noteq> 0" using False line(2) word_add_of_nat_inject [of "length xs" 0 0] by simp
      moreover obtain m' where "backspace kb (memory s) = Some m'" "cstr m' kb (butlast xs)"
        using backspace_in_buffer [OF line False] by blast
      ultimately have "memory s' = m'" using run len erase by (auto simp: keyboard_scancode_def)
      then show ?thesis using \<open>cstr m' kb (butlast xs)\<close> line(2) by (intro exI [of _ "butlast xs"]) simp
    qed
  next
    case enter
    have b: "ENTER \<noteq> BACKSPACE" by (simp add: ENTER_def BACKSPACE_def)
    obtain u1 s1 where "user kb (u, printf_s ''\<newline>'' [] s) = Some (u1, s1)"
      using run enter b by (auto simp: keyboard_scancode_def submit_line_def bind_eq_Some_conv)
    from keyboard_enters [of user kb u s u1 s1 after ck, OF this] show ?thesis using run enter by fastforce
  next
    case press
    have eq: "(of_nat (length xs) :: u32) = 255 \<longleftrightarrow> length xs = 255"
      using word_add_of_nat_inject [of "length xs" 255 0] line(2) by simp
    show ?thesis
    proof (cases "length xs = 255")
      case True
      then obtain u1 s1 where p: "press_key after kb k (ck, upd_mem (\<lambda>m. store8 m kb 0) s1) = Some (ck', s')"
        using run press len eq by (auto simp: keyboard_scancode_def submit_line_def bind_eq_Some_conv)
      have "cstr (memory (upd_mem (\<lambda>m. store8 m kb 0) s1)) kb []" by (simp add: cstr_Nil load8_store8)
      then show ?thesis using press_key_keeps_line [OF p _ _ press(2,1)] by simp
    next
      case False
      then have p: "press_key after kb k (ck, s) = Some (ck', s')" using run press len eq by (auto simp: keyboard_scancode_def)
      show ?thesis using press_key_keeps_line [OF p line(1) _ press(2,1)] False line(2) by simp
    qed
  qed
qed

subsection \<open>Draining the controller\<close>

text \<open>One round of the loop of \<open>init_keyboard\<close>, and the accesses after \<open>n\<close> rounds.\<close>

definition drain_round :: "device \<Rightarrow> ports \<Rightarrow> ports" where
  "drain_round dev io = snd (inb dev 0x60 (snd (inb dev 0x64 io)))"

definition controller_full :: "device \<Rightarrow> ports \<Rightarrow> bool" where
  "controller_full dev io \<longleftrightarrow> fst (inb dev 0x64 io) AND 1 \<noteq> 0"

lemma drain_controller_step:
  "drain_controller dev io = (if controller_full dev io then drain_controller dev (drain_round dev io)
     else Some (snd (inb dev 0x64 io)))"
  by (subst drain_controller.simps) (simp add: drain_round_def controller_full_def split_beta Let_def)

lemma drain_controller_ends:
  "\<not> controller_full dev ((drain_round dev ^^ n) io) \<Longrightarrow> drain_controller dev io \<noteq> None"
proof (induction n arbitrary: io)
  case (Suc n)
  then show ?case by (subst drain_controller_step) (simp add: funpow_swap1)
qed (subst drain_controller_step, simp)

lemma drain_controller_ended:
  "drain_controller dev io = Some io' \<Longrightarrow> \<exists>n. \<not> controller_full dev ((drain_round dev ^^ n) io)
     \<and> io' = snd (inb dev 0x64 ((drain_round dev ^^ n) io))"
proof (rule drain_controller.raw_induct [of "\<lambda>dev io io'. \<exists>n. \<not> controller_full dev ((drain_round dev ^^ n) io)
     \<and> io' = snd (inb dev 0x64 ((drain_round dev ^^ n) io))"])
  fix drain dev io io'
  assume IH: "\<And>dev io io'. drain dev io = Some io' \<Longrightarrow> \<exists>n. \<not> controller_full dev ((drain_round dev ^^ n) io)
     \<and> io' = snd (inb dev 0x64 ((drain_round dev ^^ n) io))"
    and body: "(let (status, io) = inb dev 0x64 io
      in if status AND 1 \<noteq> 0 then (let (_, io) = inb dev 0x60 io in drain dev io) else Some io) = Some io'"
  show "\<exists>n. \<not> controller_full dev ((drain_round dev ^^ n) io) \<and> io' = snd (inb dev 0x64 ((drain_round dev ^^ n) io))"
  proof (cases "controller_full dev io")
    case True
    then have "drain dev (drain_round dev io) = Some io'"
      using body by (simp add: drain_round_def controller_full_def split_beta Let_def)
    then obtain n where "\<not> controller_full dev ((drain_round dev ^^ n) (drain_round dev io))"
      "io' = snd (inb dev 0x64 ((drain_round dev ^^ n) (drain_round dev io)))" using IH by blast
    then show ?thesis by (intro exI [of _ "Suc n"]) (simp add: funpow_swap1)
  next
    case False
    then show ?thesis
      using body by (intro exI [of _ 0]) (simp add: controller_full_def split_beta Let_def)
  qed
qed

text \<open>The keys one by one: Backspace, Enter, and the others before a full and a line that is not full.\<close>

lemma backspace_key_erases:
  assumes "cstr (memory s) kb xs" "length xs \<le> 255" "k = BACKSPACE"
  shows "\<exists>s'. keyboard_scancode after user kb k (ck, u, s) = Some (edit_control k ck, u, s')
    \<and> cstr (memory s') kb (edit_line k ck xs) \<and> \<not> edit_submits k xs
    \<and> (\<forall>a. \<not> in_buffer kb a \<longrightarrow> memory s' a = memory s a) \<and> console s' = console s @ edit_echo k ck xs"
proof -
  have len: "strlen (memory s) kb = Some (of_nat (length xs))" by (rule strlen_cstr [OF assms(1)])
  have c: "edit_control k ck = ck" by (simp add: assms(3) edit_control_def control_bit_def BACKSPACE_def)
  note defs = keyboard_scancode_def edit_line_def edit_submits_def edit_echo_def ENTER_def BACKSPACE_def
  show ?thesis
  proof (cases "xs = []")
    case True
    then show ?thesis using assms len c by (auto simp: defs)
  next
    case False
    have l: "(of_nat (length xs) :: u32) \<noteq> 0"
      using False assms(2) word_add_of_nat_inject [of "length xs" 0 0] by simp
    obtain m' where "backspace kb (memory s) = Some m'" "cstr m' kb (butlast xs)"
      "\<forall>a. \<not> in_buffer kb a \<longrightarrow> m' a = memory s a"
      using backspace_in_buffer [OF assms(1,2) False] by blast
    then show ?thesis using len l c assms(3) False by (auto simp: defs)
  qed
qed

lemma enter_key_submits:
  assumes "cstr (memory s) kb xs" "k = ENTER"
    and u1: "user kb (u, printf_s ''\<newline>'' [] s) = Some (u1, s1)"
  shows "\<exists>s'. keyboard_scancode after user kb k (ck, u, s) = Some (edit_control k ck, u1, s')
    \<and> cstr (memory s') kb (edit_line k ck xs) \<and> edit_submits k xs"
proof -
  have c: "edit_control k ck = ck" by (simp add: assms(2) edit_control_def control_bit_def ENTER_def)
  have e: "edit_line k ck xs = []" "edit_submits k xs" "k \<noteq> BACKSPACE"
    by (simp_all add: assms(2) edit_line_def edit_submits_def is_typing_def sc_ascii_bytes ENTER_def BACKSPACE_def)
  have "load8 (fill_bytes kb 256 0 (memory s1)) kb = 0" by (simp add: fill_bytes_def load8_def within_def)
  then show ?thesis using u1 c e assms(2)
    by (auto simp: keyboard_scancode_def submit_line_def memset_zero_fills cstr_Nil KEY_BUFFER_SIZE_def)
qed

lemma full_line_submits:
  assumes "cstr (memory s) kb xs" "length xs = 255" "unat (k AND 0x7F) < 83" "k \<noteq> BACKSPACE" "k \<noteq> ENTER"
    and u1: "user kb (u, printf_s ''\<newline>'' [] s) = Some (u1, s1)"
  shows "\<exists>s'. keyboard_scancode after user kb k (ck, u, s) = Some (edit_control k ck, u1, s')
    \<and> cstr (memory s') kb (edit_line k ck xs) \<and> edit_submits k xs"
proof -
  let ?s = "upd_mem (\<lambda>m. store8 m kb 0) s1"
  have "cstr (memory ?s) kb []" by (simp add: cstr_Nil load8_store8)
  from press_key_edits [where s = ?s and after = after and ck = ck, OF this _ assms(3,5,4)]
  obtain s' where "press_key after kb k (ck, ?s) = Some (edit_control k ck, s')"
    "cstr (memory s') kb (if is_typing k then [typed k ck] else [])" by auto
  then show ?thesis using strlen_cstr [OF assms(1)] assms(2,4,5) u1
    by (auto simp: keyboard_scancode_def edit_line_def edit_submits_def submit_line_def)
qed

lemma other_key_edits:
  assumes "cstr (memory s) kb xs" "length xs < 255" "unat (k AND 0x7F) < 83" "k \<noteq> BACKSPACE" "k \<noteq> ENTER"
  shows "\<exists>s'. keyboard_scancode after user kb k (ck, u, s) = Some (edit_control k ck, u, s')
    \<and> cstr (memory s') kb (edit_line k ck xs) \<and> \<not> edit_submits k xs
    \<and> (\<forall>a. \<not> in_buffer kb a \<longrightarrow> memory s' a = memory s a) \<and> console s' = console s @ edit_echo k ck xs"
proof -
  have "(of_nat (length xs) :: u32) = 255 \<longleftrightarrow> length xs = 255"
    using word_add_of_nat_inject [of "length xs" 255 0] assms(2) by simp
  then show ?thesis
    using press_key_edits [where after = after and ck = ck, OF assms(1-3,5,4)] strlen_cstr [OF assms(1)] assms(2,4,5)
    by (auto simp: keyboard_scancode_def edit_line_def edit_submits_def edit_echo_def)
qed

subsection \<open>Properties\<close>

text \<open>C4: Every key press and release whose code has its low seven bits below 83 does to \<open>key_buffer\<close> what a line editor does to a line of at most
  255 characters: Backspace removes the last character, Enter hands the line to \<open>user_input\<close> and
  empties it, a full line is handed over before the next key, a typing key adds its character in
  the case shift selects; the modifier keys set and clear their bit. The buffer never overflows, nothing
  outside it is written unless a line is handed over, and the echo is the character typed.\<close>

theorem keyboard_refines_line_editor:
  assumes "cstr (memory s) kb xs" "length xs \<le> 255" "unat (k AND 0x7F) < 83"
    and user: "\<And>s. cstr (memory s) kb xs \<Longrightarrow> \<exists>u' s'. user kb (u, s) = Some (u', s')"
  shows "\<exists>u' s'. keyboard_scancode after user kb k (ck, u, s) = Some (edit_control k ck, u', s')
    \<and> cstr (memory s') kb (edit_line k ck xs) \<and> length (edit_line k ck xs) \<le> 255
    \<and> (if edit_submits k xs then \<exists>s1 s2. cstr (memory s1) kb xs \<and> user kb (u, s1) = Some (u', s2)
       else u' = u \<and> (\<forall>a. \<not> in_buffer kb a \<longrightarrow> memory s' a = memory s a)
         \<and> console s' = console s @ edit_echo k ck xs)"
proof -
  obtain u1 s1 where u1: "user kb (u, printf_s ''\<newline>'' [] s) = Some (u1, s1)"
    using user [of "printf_s ''\<newline>'' [] s"] assms(1) by (auto simp: printf_s_def)
  have printed: "cstr (memory (printf_s ''\<newline>'' [] s)) kb xs" using assms(1) by (simp add: printf_s_def)
  have len: "length (edit_line k ck xs) \<le> 255" using assms(2) by (auto simp: edit_line_def edit_submits_def)
  consider "k = BACKSPACE" | "k = ENTER" | "k \<noteq> BACKSPACE" "k \<noteq> ENTER" "length xs = 255"
    | "k \<noteq> BACKSPACE" "k \<noteq> ENTER" "length xs < 255" using assms(2) by linarith
  then show ?thesis
  proof cases
    case 1
    then show ?thesis using backspace_key_erases [OF assms(1,2)] len by fastforce
  next
    case 2
    show ?thesis using enter_key_submits [where user = user and kb = kb and u = u, OF assms(1) 2 u1] u1 printed len by fastforce
  next
    case 3
    show ?thesis using full_line_submits [where user = user and kb = kb and u = u, OF assms(1) 3(3) assms(3) 3(1,2) u1] u1 printed len by fastforce
  next
    case 4
    show ?thesis using other_key_edits [OF assms(1) 4(3) assms(3) 4(1,2)] len by fastforce
  qed
qed

theorem keyboard_refines_line_editor_witness:
  "\<exists>s u' s'. keyboard_scancode (\<lambda>_. 0) (\<lambda>_ st. Some st) 0x1000 0x1E (0, (), s) = Some (0, u', s') \<and> cstr (memory s') 0x1000 [0x61]"
proof -
  let ?s = "\<lparr>memory = \<lambda>_. 0, console = [], free_mem_addr = 0, kheap = 0, kernel_directory = 0,
    current_directory = 0, frames = 0, nframes = 0\<rparr> :: kstate"
  have "unat ((0x1E :: u8) AND 0x7F) < 83" "edit_control 0x1E 0 = 0" "edit_line 0x1E 0 [] = [0x61]"
    by (simp_all add: edit_control_def control_bit_def edit_line_def edit_submits_def is_typing_def typed_def
      sc_ascii_bytes ENTER_def BACKSPACE_def)
  then show ?thesis
    using keyboard_refines_line_editor [of ?s "0x1000" "[]" "0x1E" "\<lambda>_ st. Some st" "()" "\<lambda>_. 0" 0]
    by (auto simp: cstr_Nil load8_def)
qed

text \<open>C29: \<open>init_keyboard\<close> returns exactly when the controller runs empty: when after some number of
  reads of the data port its status says that no byte is left. Then it has registered the callback
  for vector 33 and enabled the keyboard's interrupt, with the clock of the keyboard on, in the configuration it read.\<close>

theorem init_keyboard_returns_when_drained:
  "(\<exists>n. \<not> controller_full dev ((drain_round dev ^^ n) io)) = (init_keyboard dev cb (hs, io) \<noteq> None)
   \<and> (init_keyboard dev cb (hs, io) = Some (hs', io') \<longrightarrow>
        hs' = hs[33 := Some cb]
        \<and> (\<exists>n config. let drained = snd (inb dev 0x64 ((drain_round dev ^^ n) io)) in
             io' = drained @ [Out8 0x64 0xAE, Out8 0x64 0x20, In8 0x60 config, Out8 0x64 0x60,
               Out8 0x60 ((config OR 1) AND NOT 0x10), Out8 0x60 0xF4]))"
proof (intro conjI impI)
  show "(\<exists>n. \<not> controller_full dev ((drain_round dev ^^ n) io)) = (init_keyboard dev cb (hs, io) \<noteq> None)"
  proof
    assume "\<exists>n. \<not> controller_full dev ((drain_round dev ^^ n) io)"
    then have "drain_controller dev io \<noteq> None" using drain_controller_ends by blast
    then show "init_keyboard dev cb (hs, io) \<noteq> None" by (auto simp: init_keyboard_def Let_def split_beta)
  next
    assume "init_keyboard dev cb (hs, io) \<noteq> None"
    then have "drain_controller dev io \<noteq> None" by (auto simp: init_keyboard_def bind_eq_Some_conv)
    then show "\<exists>n. \<not> controller_full dev ((drain_round dev ^^ n) io)" using drain_controller_ended by blast
  qed
next
  assume run: "init_keyboard dev cb (hs, io) = Some (hs', io')"
  then obtain d where d: "drain_controller dev io = Some d" by (auto simp: init_keyboard_def bind_eq_Some_conv)
  show "hs' = hs[33 := Some cb]"
    using run by (simp add: init_keyboard_def d Let_def split_beta register_interrupt_handler_def)
  show "\<exists>n config. let drained = snd (inb dev 0x64 ((drain_round dev ^^ n) io)) in
     io' = drained @ [Out8 0x64 0xAE, Out8 0x64 0x20, In8 0x60 config, Out8 0x64 0x60,
       Out8 0x60 ((config OR 1) AND NOT 0x10), Out8 0x60 0xF4]"
    using run drain_controller_ended [OF d]
    by (auto simp: init_keyboard_def d Let_def split_beta outb_def inb_def)
qed

theorem init_keyboard_returns_when_drained_witness:
  "init_keyboard (\<lambda>_ _. 0) (\<lambda>r s. s :: ports \<times> unit) (replicate 256 None, []) \<noteq> None"
proof -
  have "\<exists>n. \<not> controller_full (\<lambda>_ _. 0) ((drain_round (\<lambda>_ _. 0) ^^ n) [])"
    by (intro exI [of _ 0]) (simp add: controller_full_def inb_def)
  then show ?thesis
    using init_keyboard_returns_when_drained [of "\<lambda>_ _. 0" "[]" "\<lambda>r s. s :: ports \<times> unit" "replicate 256 None"] by blast
qed

end
