(* ===== verification/Mouse.thy ===== *)
theory Mouse
  imports Interrupts Screen
begin

text \<open>
  The mouse driver of \<open>kernel/drivers/mouse.c\<close>: a packet of three bytes is collected over three
  interrupts; a movement takes the cursor, a cell of the text screen with its two colours exchanged,
  to another cell. \<open>int8_t\<close> values are bytes read with \<open>sint\<close>.
\<close>

subsection \<open>The code\<close>

record mouse =
  m_offset :: u8
  m_buffer :: "u8 list"
  m_buttons :: u8
  mouse_x :: u8
  mouse_y :: u8
  button_state :: "u8 list"
  m_div :: u32

definition video_cell :: "u8 \<Rightarrow> u8 \<Rightarrow> u32" where
  "video_cell x y = 0xB8000 + of_int (2 * (80 * sint y + sint x))"

definition exchange_colours :: "u16 \<Rightarrow> u16" where
  "exchange_colours orig = (drop_bit 4 (orig AND 0xF000)) OR (push_bit 4 (orig AND 0x0F00)) OR (orig AND 0x00FF)"

definition flip_cell :: "u8 \<Rightarrow> u8 \<Rightarrow> mem \<Rightarrow> mem" where
  "flip_cell x y m = (let orig = load16 m (video_cell x y) in store16 m (video_cell x y) (exchange_colours orig))"

definition clamp8 :: "int \<Rightarrow> u8 \<Rightarrow> u8" where
  "clamp8 upper v = (let v = (if sint v < 0 then 0 else v) in if sint v > upper then of_int upper else v)"

definition move_mouse :: "mouse \<times> mem \<Rightarrow> mouse \<times> mem" where
  "move_mouse = (\<lambda>(ms, m).
     let m = flip_cell (mouse_x ms) (mouse_y ms) m;
         x = clamp8 79 (mouse_x ms + m_buffer ms ! 1);
         y = clamp8 24 (mouse_y ms - m_buffer ms ! 2)
     in (ms\<lparr>mouse_x := x, mouse_y := y\<rparr>, flip_cell x y m))"

definition update_buttons :: "mouse \<Rightarrow> mouse" where
  "update_buttons ms =
     (let b = m_buffer ms ! 0;
          states = fold (\<lambda>i st. if b AND push_bit i 1 \<noteq> m_buttons ms AND push_bit i 1
                                then st[i := m_buttons ms AND push_bit i 1] else st) [0..<3] (button_state ms)
      in ms\<lparr>button_state := states, m_buttons := b\<rparr>)"

text \<open>\<open>buffer[offset]\<close> with an offset behind the array has no defined result.\<close>

definition mouse_callback :: "device \<Rightarrow> ports \<times> mouse \<times> mem \<Rightarrow> (ports \<times> mouse \<times> mem) option" where
  "mouse_callback dev = (\<lambda>(io, ms, m).
     let (status, io) = inb dev 0x64 io
     in if status AND 0x20 = 0 then Some (io, ms, m)
        else if unat (m_offset ms) < length (m_buffer ms) then
          (let (byte, io) = inb dev 0x60 io;
               ms = ms\<lparr>m_buffer := (m_buffer ms)[unat (m_offset ms) := byte]\<rparr>;
               ms = ms\<lparr>m_offset := (m_offset ms + 1) mod 3\<rparr>
           in if m_offset ms = 0 then
                (let (ms, m) = (if m_buffer ms ! 1 \<noteq> 0 \<or> m_buffer ms ! 2 \<noteq> 0 then move_mouse (ms, m) else (ms, m))
                 in Some (io, update_buttons ms, m))
              else Some (io, ms, m))
        else None)"

definition init_mouse :: "device \<Rightarrow> 's isr_t \<Rightarrow> u32 \<Rightarrow> 's isr_t option list \<times> ports \<times> mouse \<Rightarrow>
    's isr_t option list \<times> ports \<times> mouse" where
  "init_mouse dev cb movement_divider = (\<lambda>(hs, io, ms).
     let ms = ms\<lparr>m_div := movement_divider, m_offset := 0, m_buttons := 0, mouse_y := 39, mouse_x := 12,
                 button_state := replicate 3 0\<rparr>;
         io = outb 0x64 0xA8 io;
         io = outb 0x64 0x20 io;
         (config, io) = inb dev 0x60 io;
         status = config OR 2;
         io = outb 0x64 0x60 io;
         io = outb 0x60 status io;
         io = outb 0x64 0xD4 io;
         io = outb 0x60 0xF4 io;
         (_, io) = inb dev 0x60 io
     in (register_interrupt_handler 44 cb hs, io, ms))"

definition get_mouse_x :: "mouse \<Rightarrow> u8" where "get_mouse_x ms = mouse_x ms"
definition get_mouse_y :: "mouse \<Rightarrow> u8" where "get_mouse_y ms = mouse_y ms"

text \<open>For \<open>i >= 3\<close> the function returns without a value.\<close>

definition get_mouse_button :: "u8 \<Rightarrow> mouse \<Rightarrow> u8 option" where
  "get_mouse_button i ms = (if i \<ge> 3 then None else Some (button_state ms ! unat i))"

subsection \<open>The cursor\<close>

text \<open>Well-typed static data; the position is on the screen once the mouse has moved.\<close>

definition mouse_ok :: "mouse \<Rightarrow> bool" where
  "mouse_ok ms \<longleftrightarrow> m_offset ms < 3 \<and> length (m_buffer ms) = 3 \<and> length (button_state ms) = 3"

definition on_screen :: "u8 \<Rightarrow> u8 \<Rightarrow> bool" where
  "on_screen x y \<longleftrightarrow> 0 \<le> sint x \<and> sint x \<le> 79 \<and> 0 \<le> sint y \<and> sint y \<le> 24"

lemma colour_masks: "(0xF000 :: u16) = push_bit 12 (mask 4)" "(0x0F00 :: u16) = push_bit 8 (mask 4)" "(0x00FF :: u16) = mask 8"
  by (simp_all add: mask_eq_exp_minus_1 push_bit_eq_mult)

lemma bit_exchange_colours:
  "n < 16 \<Longrightarrow> bit (exchange_colours c) n \<longleftrightarrow> (if n < 8 then bit c n else if n < 12 then bit c (n + 4) else bit c (n - 4))"
  unfolding exchange_colours_def colour_masks by (auto simp: bit_simps add.commute)

lemma exchange_colours_twice: "exchange_colours (exchange_colours c) = c"
proof (rule bit_word_eqI)
  fix n assume "n < LENGTH(16)"
  then show "bit (exchange_colours (exchange_colours c)) n = bit c n"
    by (cases "n < 12") (auto simp: bit_exchange_colours less_diff_conv2)
qed

lemma flip_cell_twice: "flip_cell x y (flip_cell x y m) = m"
proof -
  have "store16 (store16 m a v) a w = store16 m a w" for a v w by (simp add: store16_def fun_upd_twist)
  then show ?thesis
    by (simp add: flip_cell_def Let_def load16_store16_same exchange_colours_twice store16_load16 fun_eq_iff store16_other)
qed

lemma sint_clamp8:
  assumes "0 \<le> up" "up \<le> 127"
  shows "sint (clamp8 up v) = max 0 (min up (sint v))"
proof -
  have "sint (of_int up :: u8) = up"
    using assms by (simp add: signed_of_int signed_take_bit_int_eq_self)
  then show ?thesis using assms by (auto simp: clamp8_def Let_def)
qed

text \<open>What the memory is with the cursor shown at a position over a memory without it.\<close>

definition cursor_over :: "mouse \<Rightarrow> mem \<Rightarrow> mem" where
  "cursor_over ms m0 = flip_cell (mouse_x ms) (mouse_y ms) m0"

lemma move_mouse_cursor:
  "move_mouse (ms, cursor_over ms m0) = (ms', m') \<Longrightarrow> m' = cursor_over ms' m0
     \<and> sint (mouse_x ms') = max 0 (min 79 (sint (mouse_x ms + m_buffer ms ! 1)))
     \<and> sint (mouse_y ms') = max 0 (min 24 (sint (mouse_y ms - m_buffer ms ! 2)))
     \<and> m_buffer ms' = m_buffer ms \<and> m_offset ms' = m_offset ms
     \<and> m_buttons ms' = m_buttons ms \<and> button_state ms' = button_state ms"
  by (auto simp: move_mouse_def cursor_over_def Let_def flip_cell_twice sint_clamp8)

lemma update_buttons_states:
  assumes "length (button_state ms) = 3" "i < 3"
  shows "button_state (update_buttons ms) ! i =
    (if bit (m_buffer ms ! 0) i = bit (m_buttons ms) i then button_state ms ! i else m_buttons ms AND push_bit i 1)"
proof -
  have pick: "x AND push_bit i 1 = (if bit x i then push_bit i 1 else 0)" for x :: u8 and i
    by (rule bit_word_eqI) (auto simp: bit_simps)
  have "push_bit i 1 \<noteq> (0 :: u8)" if "i < 8" for i
    using that by (simp add: push_bit_of_1)
  then have b: "(x AND push_bit i 1 \<noteq> y AND push_bit i 1) = (bit x i \<noteq> bit y i)" if "i < 8" for x y :: u8 and i
    using that unfolding pick by simp
  obtain p q r where "button_state ms = [p, q, r]"
    using assms(1) by (auto simp: numeral_3_eq_3 length_Suc_conv)
  moreover have "i = 0 \<or> i = 1 \<or> i = 2" using assms(2) by auto
  moreover have "[0..<3] = [0, 1, 2 :: nat]" by (simp add: upt_rec)
  ultimately show ?thesis by (elim disjE) (simp_all add: update_buttons_def Let_def b b [of 0, simplified] b [of 1, simplified] b [of 2, simplified])
qed

subsection \<open>Any interrupt\<close>

text \<open>The start position of \<open>init_mouse\<close> is in range, though below the screen's last row.\<close>

definition mouse_in_range :: "mouse \<Rightarrow> bool" where
  "mouse_in_range ms \<longleftrightarrow> mouse_ok ms \<and> 0 \<le> sint (mouse_x ms) \<and> sint (mouse_x ms) \<le> 79
     \<and> 0 \<le> sint (mouse_y ms) \<and> sint (mouse_y ms) \<le> 39"

lemma flip_cell_other:
  assumes "0 \<le> sint x" "sint x \<le> 79" "0 \<le> sint y" "sint y \<le> 39" "\<not> within 0xB8000 0x2000 a"
  shows "flip_cell x y m a = m a"
proof -
  define k where "k = nat (2 * (80 * sint y + sint x))"
  have k: "k \<le> 6398" using assms(1-4) by (simp add: k_def)
  have "(of_int (2 * (80 * sint y + sint x)) :: u32) = of_nat k"
    unfolding k_def by (rule of_nat_nat [symmetric]) (use assms(1-4) in simp)
  then have "video_cell x y = 0xB8000 + of_nat k" by (simp only: video_cell_def)
  moreover have "\<not> within (0xB8000 + of_nat k) 2 a"
    using within_split [of k 2 "0xB8000" a] within_mono [of "0xB8000" "k + 2" a "0x2000"] assms(5) k by auto
  ultimately show ?thesis by (simp add: flip_cell_def store16_other Let_def)
qed

lemma move_mouse_range:
  assumes "mouse_in_range ms"
  shows "mouse_in_range (fst (move_mouse (ms, m)))" "\<not> within 0xB8000 0x2000 a \<Longrightarrow> snd (move_mouse (ms, m)) a = m a"
    "m_buffer (fst (move_mouse (ms, m))) = m_buffer ms" "m_offset (fst (move_mouse (ms, m))) = m_offset ms"
proof -
  show r: "mouse_in_range (fst (move_mouse (ms, m)))"
    using assms by (simp add: move_mouse_def mouse_in_range_def mouse_ok_def Let_def sint_clamp8)
  show "snd (move_mouse (ms, m)) a = m a" if "\<not> within 0xB8000 0x2000 a"
    using assms r that by (simp add: move_mouse_def mouse_in_range_def Let_def flip_cell_other)
  show "m_buffer (fst (move_mouse (ms, m))) = m_buffer ms" "m_offset (fst (move_mouse (ms, m))) = m_offset ms"
    by (simp_all add: move_mouse_def Let_def)
qed

lemma update_buttons_range: "mouse_in_range ms \<Longrightarrow> mouse_in_range (update_buttons ms)"
  by (simp add: update_buttons_def mouse_in_range_def mouse_ok_def Let_def upt_rec)

lemma mouse_callback_served:
  assumes "mouse_in_range ms"
  shows "\<exists>io' ms' m'. mouse_callback dev (io, ms, m) = Some (io', ms', m') \<and> mouse_in_range ms'
    \<and> (\<forall>a. \<not> within 0xB8000 0x2000 a \<longrightarrow> m' a = m a)"
proof -
  have l: "unat (m_offset ms) < length (m_buffer ms)" using assms by (simp add: mouse_in_range_def mouse_ok_def word_less_nat_alt)
  have "(v :: u8) mod 3 < 3" for v by (simp add: word_less_nat_alt unat_mod_distrib)
  then have r: "mouse_in_range (ms\<lparr>m_buffer := (m_buffer ms)[i := b], m_offset := v mod 3\<rparr>)" for i b v
    using assms by (simp add: mouse_in_range_def mouse_ok_def)
  have r0: "mouse_in_range (ms\<lparr>m_buffer := (m_buffer ms)[i := b], m_offset := 0\<rparr>)" for i b
    using assms by (simp add: mouse_in_range_def mouse_ok_def)
  note mv = move_mouse_range [OF r0]
  show ?thesis
    using l r assms update_buttons_range [OF r0] update_buttons_range [OF mv(1)] mv(2)
    by (simp add: mouse_callback_def Let_def split_beta)
qed

subsection \<open>Properties\<close>

text \<open>A whole packet: the three interrupts it takes, for a device with a byte ready each time.\<close>

definition mouse_packet :: "device \<Rightarrow> ports \<times> mouse \<times> mem \<Rightarrow> (ports \<times> mouse \<times> mem) option" where
  "mouse_packet dev st = Option.bind (mouse_callback dev st) (\<lambda>st. Option.bind (mouse_callback dev st) (mouse_callback dev))"

definition mouse_ready :: "device \<Rightarrow> ports \<Rightarrow> bool" where
  "mouse_ready dev io \<longleftrightarrow> fst (inb dev 0x64 io) AND 0x20 \<noteq> 0"

definition next_byte :: "device \<Rightarrow> ports \<Rightarrow> u8" where
  "next_byte dev io = fst (inb dev 0x60 (snd (inb dev 0x64 io)))"

definition after_byte :: "device \<Rightarrow> ports \<Rightarrow> ports" where
  "after_byte dev io = snd (inb dev 0x60 (snd (inb dev 0x64 io)))"

lemma mouse_callback_stores:
  assumes "mouse_ready dev io" "unat (m_offset ms) < 2" "length (m_buffer ms) = 3"
  shows "mouse_callback dev (io, ms, m) = Some (after_byte dev io,
    ms\<lparr>m_buffer := (m_buffer ms)[unat (m_offset ms) := next_byte dev io], m_offset := m_offset ms + 1\<rparr>, m)"
proof -
  have "m_offset ms = 0 \<or> m_offset ms = 1" using assms(2) by (auto simp: unat_arith_simps)
  then show ?thesis
    using assms(1,3) by (elim disjE) (simp_all add: mouse_callback_def mouse_ready_def next_byte_def after_byte_def Let_def split_beta)
qed

lemma mouse_callback_completes:
  assumes "mouse_ready dev io" "m_offset ms = 2" "length (m_buffer ms) = 3"
  shows "mouse_callback dev (io, ms, m) =
    (let ms = ms\<lparr>m_buffer := (m_buffer ms)[2 := next_byte dev io], m_offset := 0\<rparr>;
         (ms, m) = (if m_buffer ms ! 1 \<noteq> 0 \<or> m_buffer ms ! 2 \<noteq> 0 then move_mouse (ms, m) else (ms, m))
     in Some (after_byte dev io, update_buttons ms, m))"
  using assms by (simp add: mouse_callback_def mouse_ready_def next_byte_def after_byte_def Let_def split_beta)

text \<open>C26: From a packet boundary three interrupts consume three bytes and are back at a packet boundary.
  The position moves by the two deltas, taken modulo 256 as signed bytes, and is then on the screen;
  the memory is as if the cursor had been taken off its old cell and put on the new one: over
  whatever was below it. A button whose bit changed gets the \<^emph>\<open>previous\<close> packet's bit.\<close>

theorem mouse_packet_moves_cursor:
  assumes "mouse_ok ms" "m_offset ms = 0"
    and "mouse_ready dev io" "mouse_ready dev io1" "mouse_ready dev io2"
    and "io1 = after_byte dev io" "io2 = after_byte dev io1"
    and "dx = next_byte dev io1" "dy = next_byte dev io2" "dx \<noteq> 0 \<or> dy \<noteq> 0"
  shows "\<exists>ms'. mouse_packet dev (io, ms, cursor_over ms m0) = Some (after_byte dev io2, ms', cursor_over ms' m0)
    \<and> mouse_ok ms' \<and> m_offset ms' = 0 \<and> on_screen (mouse_x ms') (mouse_y ms')
    \<and> sint (mouse_x ms') = max 0 (min 79 (sint (mouse_x ms + dx)))
    \<and> sint (mouse_y ms') = max 0 (min 24 (sint (mouse_y ms - dy)))
    \<and> (\<forall>i<3. button_state ms' ! i = (if bit (next_byte dev io) i = bit (m_buttons ms) i then button_state ms ! i
         else m_buttons ms AND push_bit i 1))"
proof -
  let ?b = "next_byte dev io"
  have l: "length (m_buffer ms) = 3" "length (button_state ms) = 3" using assms(1) by (simp_all add: mouse_ok_def)
  obtain p q r where b: "m_buffer ms = [p, q, r]"
    using l(1) by (auto simp: numeral_3_eq_3 length_Suc_conv)
  let ?ms = "ms\<lparr>m_buffer := [?b, dx, dy], m_offset := 0\<rparr>"
  obtain ms1 m1 where mv: "move_mouse (?ms, cursor_over ms m0) = (ms1, m1)" by fastforce
  have "cursor_over ?ms m0 = cursor_over ms m0" by (simp add: cursor_over_def)
  note moved = move_mouse_cursor [of ?ms m0 ms1 m1, unfolded this, OF mv, simplified]
  have "mouse_packet dev (io, ms, cursor_over ms m0) = Some (after_byte dev io2, update_buttons ms1, m1)"
    using assms(2-) l mv
    by (simp add: mouse_packet_def mouse_callback_stores mouse_callback_completes b Let_def)
  moreover have "m1 = cursor_over (update_buttons ms1) m0"
    using moved by (simp add: cursor_over_def update_buttons_def Let_def)
  moreover have "mouse_ok (update_buttons ms1)"
    using moved l by (simp add: mouse_ok_def update_buttons_def Let_def upt_rec)
  ultimately show ?thesis
    using moved update_buttons_states [of ms1] l
    by (intro exI [of _ "update_buttons ms1"]) (simp add: on_screen_def update_buttons_def Let_def)
qed

theorem mouse_packet_moves_cursor_witness:
  "\<exists>io' ms' m'. mouse_packet (\<lambda>_ _. 0x21) ([], \<lparr>m_offset = 0, m_buffer = [0, 0, 0], m_buttons = 0, mouse_x = 10,
     mouse_y = 20, button_state = [0, 0, 0], m_div = 1\<rparr>, \<lambda>_. 0) = Some (io', ms', m') \<and> mouse_x ms' = 43 \<and> mouse_y ms' = 0"
proof -
  let ?m = "(\<lambda>_. 0) :: mem"
  let ?dev = "\<lambda>_ _. 0x21 :: u32"
  let ?ms = "\<lparr>m_offset = 0, m_buffer = [0, 0, 0], m_buttons = 0, mouse_x = 10, mouse_y = 20,
    button_state = [0, 0, 0], m_div = 1\<rparr>"
  have d: "mouse_ready ?dev io" "next_byte ?dev io = 0x21" for io
    by (simp_all add: mouse_ready_def next_byte_def inb_def Let_def)
  have m: "cursor_over ?ms (flip_cell 10 20 ?m) = ?m" by (simp add: cursor_over_def flip_cell_twice)
  have ok: "mouse_ok ?ms" "m_offset ?ms = 0" "(0x21 :: u8) \<noteq> 0 \<or> (0x21 :: u8) \<noteq> 0" by (simp_all add: mouse_ok_def)
  obtain ms' where r: "mouse_packet ?dev ([], ?ms, ?m) = Some (after_byte ?dev (after_byte ?dev (after_byte ?dev [])), ms',
      cursor_over ms' (flip_cell 10 20 ?m))"
    and p: "sint (mouse_x ms') = max 0 (min 79 (sint (mouse_x ?ms + 0x21)))" "sint (mouse_y ms') = max 0 (min 24 (sint (mouse_y ?ms - 0x21)))"
    using mouse_packet_moves_cursor [OF ok(1,2) d(1) d(1) d(1) refl refl d(2) [symmetric] d(2) [symmetric] ok(3),
      where ?m0.0 = "flip_cell 10 20 ?m", unfolded m] by blast
  have v: "v = of_int (sint v)" for v :: u8 by simp
  have "sint (mouse_x ms') = 43" "sint (mouse_y ms') = 0" unfolding p by simp_all
  then have "mouse_x ms' = of_int 43" "mouse_y ms' = of_int 0" using v [of "mouse_x ms'"] v [of "mouse_y ms'"] by (simp_all only:)
  with r show ?thesis by simp
qed

end
