(* ===== verification/Kernel_Main.thy ===== *)
theory Kernel_Main
  imports Tasking Initrd Shell Screen Keyboard Mouse
begin

text \<open>
  \<open>kernel/kernel.c\<close>, which puts the components together: the start of the kernel, the first process that
  lists the ramdisk, and what a line from the keyboard does; with \<open>irq_install\<close> of \<open>isr.c\<close> and
  \<open>load_kernel\<close> of the second stage loader. The callbacks are registered as arguments: which function
  a handler is does not matter to the code that registers it.
\<close>

subsection \<open>A line of input\<close>

definition shutdown_ports :: "ports \<Rightarrow> ports" where
  "shutdown_ports io = outw 0x4004 0x3400 (outw 0x0604 0x2000 (outw 0xB004 0x2000 io))"

text \<open>\<open>continue\<close> in a \<open>do\<close> loop goes to its condition.\<close>

partial_function (option) flush_irq1 :: "device \<Rightarrow> ports \<Rightarrow> ports option" where
  "flush_irq1 dev io =
     (let (temp, io) = inb dev 0x64 io;
          io = (if temp AND 1 \<noteq> 0 then snd (inb dev 0x60 io) else io)
      in if temp AND 2 \<noteq> 0 then flush_irq1 dev io else Some io)"

definition restart_ports :: "device \<Rightarrow> ports \<Rightarrow> ports" where
  "restart_ports dev io =
     (let io = outb 0x70 0x8F io; io = outb 0x71 0x00 io; io = outb 0x70 0x00 io;
          (v, io) = inb dev 0x92 io
      in outb 0x92 (v OR 1) io)"

definition user_input :: "nat \<Rightarrow> device \<Rightarrow> shell_link \<Rightarrow> u32 \<Rightarrow> (ports \<times> u32) input_handler" where
  "user_input fuel dev lk now input = (\<lambda>((io, st), s).
     Option.bind (strcmp (memory s) input (lit lk ''shutdown'')) (\<lambda>c.
       if c = 0 then
         (let s = printf_s ''Stopping the CPU. Bye!\<newline>'' [] s in Some ((shutdown_ports io, st), s))
       else Option.bind (strcmp (memory s) input (lit lk ''restart'')) (\<lambda>c.
         if c = 0 then
           (let s = printf_s ''Restarting the CPU. Bye!\<newline>'' [] s
            in map_option (\<lambda>io. ((restart_ports dev io, st), s)) (flush_irq1 dev io))
         else shell_command fuel dev lk now input ((io, st), s))))"

text \<open>The keyboard interrupt with the kernel's own \<open>user_input\<close>.\<close>

definition keyboard_interrupt :: "nat \<Rightarrow> device \<Rightarrow> shell_link \<Rightarrow> u32 \<Rightarrow> (nat \<Rightarrow> u8) \<Rightarrow> u32 \<Rightarrow>
    u32 \<times> (ports \<times> u32) \<times> kstate \<Rightarrow> (u32 \<times> (ports \<times> u32) \<times> kstate) option" where
  "keyboard_interrupt fuel dev lk now after key_buffer =
     keyboard_callback dev after (user_input fuel dev lk now) key_buffer"

subsection \<open>The first process\<close>

text \<open>\<open>buf\<close> is the address of the local array.\<close>

definition show_file :: "fs_code \<Rightarrow> u32 \<Rightarrow> u32 \<Rightarrow> kstate \<Rightarrow> kstate option" where
  "show_file c buf fsnode s =
     (if load32 (memory s) (node_flags fsnode) AND 0x7 = FS_DIRECTORY
      then Some (printf_s '': (directory)\<newline>'' [] s)
      else Option.bind (read_fs c fsnode 0 256 buf (snd (memset buf 0 256 (memory s)))) (\<lambda>(sz, m).
        Some (printf_s ('', contents: '' @ CHR 0x22 # ''%s'' @ CHR 0x22 # ''\<newline>'') [buf] (s\<lparr>memory := m\<rparr>))))"

text \<open>One round of the loop, for the entry that \<open>readdir_fs\<close> gave.\<close>

definition visit_entry :: "fs_code \<Rightarrow> u32 \<Rightarrow> u32 \<Rightarrow> u32 \<Rightarrow> kstate \<Rightarrow> kstate option" where
  "visit_entry c fs_root buf node s =
     (let s = printf_s ''Found file %s'' [node] s
      in Option.bind (finddir_fs c fs_root node (memory s)) (\<lambda>(fsnode, m). show_file c buf fsnode (s\<lparr>memory := m\<rparr>)))"

partial_function (option) traverse :: "fs_code \<Rightarrow> u32 \<Rightarrow> u32 \<Rightarrow> u32 \<Rightarrow> kstate \<Rightarrow> kstate option" where
  "traverse c fs_root buf i s =
     Option.bind (readdir_fs c fs_root i (memory s)) (\<lambda>(node, m).
       let s = s\<lparr>memory := m\<rparr> in
       if node \<noteq> 0 then Option.bind (visit_entry c fs_root buf node s) (traverse c fs_root buf (i + 1))
       else Some s)"

definition kernel_task :: "fs_code \<Rightarrow> u32 \<Rightarrow> u32 \<Rightarrow> task_state \<Rightarrow> (outcome \<times> task_state) option" where
  "kernel_task c fs_root buf = (\<lambda>(t, s).
     Option.bind (traverse c fs_root buf 0 (printf_s ''Traversing the initial ramdisk:\<newline>'' [] s)) (\<lambda>s.
       kill_current (t, printf_s (''Type '' @ CHR 0x27 # ''help'' @ CHR 0x27 # '' for help!\<newline>> '') [] s)))"

subsection \<open>Starting the kernel\<close>

text \<open>The callbacks, and the addresses of the stubs and tables.\<close>

record 's boot_link =
  cb_timer :: "'s isr_t"
  cb_mouse :: "'s isr_t"
  cb_keyboard :: "'s isr_t"
  cb_page_fault :: "'s isr_t"
  isr_stub :: "nat \<Rightarrow> u32"
  irq_stub :: "nat \<Rightarrow> u32"
  at_idt :: u32
  at_gdt :: u32
  at_start_time :: u32
  fn_header_less :: u32

text \<open>The state outside \<open>kstate\<close>.\<close>

record 's machine =
  m_ports :: ports
  m_handlers :: "'s isr_t option list"
  m_idt :: "idt_gate list"
  m_gdt :: "gdt_entry list"
  m_gdt_ptr :: table_ptr
  m_idt_ptr :: table_ptr
  m_mouse :: mouse
  m_tasking :: tasking
  m_cr3 :: u32
  m_curr_display :: u32
  m_display :: DISPLAY
  m_initrd :: initrd_vars
  fs_root :: u32

definition irq_install :: "device \<Rightarrow> 's boot_link \<Rightarrow> 's isr_t option list \<times> ports \<times> mouse \<Rightarrow>
    ('s isr_t option list \<times> ports \<times> mouse) option" where
  "irq_install dev bl = (\<lambda>(hs, io, ms).
     let (hs, io) = init_timer (cb_timer bl) 1000 (hs, io);
         (hs, io, ms) = init_mouse dev (cb_mouse bl) 10 (hs, io, ms)
     in map_option (\<lambda>(hs, io). (hs, io, ms)) (init_keyboard dev (cb_keyboard bl) (hs, io)))"

definition mods_addr :: "mem \<Rightarrow> u32 \<Rightarrow> u32" where "mods_addr m mboot_ptr = load32 m (mboot_ptr + 24)"

text \<open>What \<open>kernel_main\<close> prints before it installs anything.\<close>

definition print_welcome :: "device \<Rightarrow> 's boot_link \<Rightarrow> ports \<times> kstate \<Rightarrow> ports \<times> kstate" where
  "print_welcome dev bl = (\<lambda>(io, s).
     let s = s\<lparr>console := console s @ [Clear_Screen]\<rparr>;
         (io, m) = rtc_init dev (at_start_time bl) (io, memory s); s = s\<lparr>memory := m\<rparr>;
         s = printf_s ''Welcome to the HackOS!\<newline>'' [] s
     in (io, printf_s ''[%x:%x:%x]: Starting the initialisation!\<newline>''
          (map (\<lambda>f. load32 m (f (at_start_time bl))) [tm_hour, tm_minute, tm_second]) s))"

definition kernel_main :: "nat \<Rightarrow> device \<Rightarrow> 's boot_link \<Rightarrow> initrd_link \<Rightarrow> task_link \<Rightarrow> u32 \<Rightarrow> u32 \<Rightarrow> u32 \<Rightarrow> u32 \<Rightarrow>
    's machine \<times> kstate \<Rightarrow> (outcome \<times> 's machine \<times> kstate) option" where
  "kernel_main fuel dev bl rl tlk mboot_ptr initial_stack esp ebp = (\<lambda>(k, s).
     let initrd_location = load32 (memory s) (mods_addr (memory s) mboot_ptr);
         initrd_end = load32 (memory s) (mods_addr (memory s) mboot_ptr + 4);
         s = s\<lparr>free_mem_addr := initrd_end\<rparr>
     in Option.bind (init_display fuel s) (\<lambda>(disp, d, s).
     let (io, s) = print_welcome dev bl (m_ports k, s);
         (gdt, gp) = gdt_install (at_gdt bl) (m_gdt k);
         (idt, ip, io) = isr_install (isr_stub bl) (irq_stub bl) (at_idt bl) (m_idt k, io)
     in Option.bind (irq_install dev bl (m_handlers k, io, m_mouse k)) (\<lambda>(hs, io, ms).
        Option.bind (initialise_paging fuel (fn_header_less bl) (cb_page_fault bl) hs s) (\<lambda>(hs, cr3, s).
        Option.bind (initialise_initrd (kmalloc fuel) rl initrd_location s) (\<lambda>(root, v, s).
        Option.bind (initialise_tasking fuel tlk initial_stack esp ebp (m_tasking k, s)) (\<lambda>(out, t, s).
          Some (out, k\<lparr>m_ports := io, m_handlers := hs, m_idt := idt, m_gdt := gdt, m_gdt_ptr := gp,
            m_idt_ptr := ip, m_mouse := ms, m_tasking := t, m_cr3 := cr3, m_curr_display := disp, m_display := d,
            m_initrd := v, fs_root := root\<rparr>, s)))))))"

text \<open>\<open>load_kernel\<close>: what is left of the second stage loader prints and allocates.\<close>

definition load_kernel :: "nat \<Rightarrow> u32 \<Rightarrow> kstate \<Rightarrow> kstate option" where
  "load_kernel fuel fn_load_kernel s =
     (let s = s\<lparr>console := console s @ [Clear_Screen]\<rparr>;
          s = printf_s (''Welcome to my operating system.'' @ [CHR 0x0D, CHR 0x0A]) [] s;
          s = printf_s ''Memory address of load_kernel in: %x\<newline>'' [fn_load_kernel] s
      in map_option (\<lambda>(page, phy_addr, s). s) (kmalloc_int fuel 1000 1 True s))"

end
