(* ===== verification/Host_Output.thy ===== *)
theory Host_Output
  imports Kernel_Prelude
begin

text \<open>
  What the tools of \<open>src/tools\<close>, programs for the host, leave behind: their calls of \<open>printf\<close>, with the values
  of the arguments and the bytes of the strings, and an exit code.
\<close>

datatype host_arg = Int_Arg int | Bytes_Arg "u8 list"
datatype host_call = Host_Printf string "host_arg list"

text \<open>The exit code with the output, or no defined result.\<close>

type_synonym host_result = "(int \<times> host_call list) option"

text \<open>
  \<open>fread\<close> of \<open>n\<close> bytes into a block: what the file has left of them replaces the front of the block. The
  string that \<open>%s\<close> prints ends at the first zero; without one it has no defined end.
\<close>

definition fread_into :: "nat \<Rightarrow> u8 list \<Rightarrow> u8 list \<Rightarrow> u8 list \<times> u8 list" where
  "fread_into n stream blk = (let bs = take n stream in (bs @ drop (length bs) blk, drop n stream))"

definition c_text :: "u8 list \<Rightarrow> u8 list option" where
  "c_text bs = (if 0 \<in> set bs then Some (takeWhile (\<lambda>b. b \<noteq> 0) bs) else None)"

end
