(* ===== verification/Bindump.thy ===== *)
theory Bindump
  imports Host_Output
begin

text \<open>
  The dump tool \<open>tools/bindump/bindump.c\<close>, a program for the host. Its output is the list of its calls of
  \<open>printf\<close>; the file it opens is an argument. A write behind the end of an allocated block has no defined
  result, nor has the use of a stream that could not be opened.
\<close>

subsection \<open>The code\<close>

definition printable :: "u8 \<Rightarrow> u8" where
  "printable b = (if b = 0x0A \<or> b = 0x09 \<or> b = 0x0B \<or> b = 0x08 \<or> b = 0 then 0x2E else b)"

text \<open>A store into a block of bytes.\<close>

definition put_byte :: "nat \<Rightarrow> u8 \<Rightarrow> u8 list \<Rightarrow> u8 list option" where
  "put_byte i b blk = (if i < length blk then Some (blk[i := b]) else None)"

definition print_hex :: "u8 \<Rightarrow> host_call" where
  "print_hex b = Host_Printf ''%02x '' [Int_Arg (uint b)]"

definition print_binary :: "u8 \<Rightarrow> host_call" where
  "print_binary b = Host_Printf ''%c%c%c%c%c%c%c%c ''
     (map (\<lambda>k. Int_Arg (if b AND k \<noteq> 0 then 0x31 else 0x30)) [0x80, 0x40, 0x20, 0x10, 0x08, 0x04, 0x02, 0x01])"

text \<open>One line: the offset, the bytes, and the text built in a block of \<open>blk\<close> bytes that is terminated at 16.\<close>

definition dump_line :: "(u8 \<Rightarrow> host_call) \<Rightarrow> nat \<Rightarrow> u8 list \<Rightarrow> u8 list \<Rightarrow> nat \<Rightarrow> host_call list option" where
  "dump_line print_byte width blk buffer i =
     (let row = map (\<lambda>j. buffer ! (i * width + j)) [0..<width];
          ascii = fold (\<lambda>(j, b) blk. Option.bind blk (put_byte j (printable b))) (zip [0..<width] row) (Some blk)
      in map_option (\<lambda>ascii. Host_Printf ''%#08x: '' [Int_Arg (int (i * width))] # map print_byte row
             @ [Host_Printf (CHR 0x09 # ''%s\<newline>'') [Bytes_Arg ascii]])
           (Option.bind ascii (put_byte 16 0)))"

fun dump_lines :: "(nat \<Rightarrow> host_call list option) \<Rightarrow> nat list \<Rightarrow> host_call list option" where
  "dump_lines f [] = Some []"
| "dump_lines f (i # is) = Option.bind (f i) (\<lambda>l. map_option (\<lambda>ls. l @ ls) (dump_lines f is))"

definition greeting :: host_call where "greeting = Host_Printf ''Welcome to BinDump! The dumped file:\<newline>'' []"

definition usage_error :: host_call where
  "usage_error = Host_Printf (''ERROR: Please enter 2 valid arguments:\<newline>'' @ CHR 0x09 # ''-h: hexadecimal printage\<newline>'' @ CHR 0x09 #
     ''-b: binary printage\<newline>and the file name!\<newline>'') []"

definition mode_error :: "u8 list \<Rightarrow> host_call" where
  "mode_error mode = Host_Printf (''ERROR: The second argument must either be:\<newline>'' @ CHR 0x09 # ''-h: Hexadecimal printage\<newline>'' @ CHR 0x09 #
     ''-b: Binary printage\<newline>while you entered: %s\<newline>'') [Bytes_Arg mode]"

text \<open>\<open>args\<close> are the arguments behind the program's name, \<open>fs\<close> what \<open>fopen\<close> finds, \<open>junk\<close> what \<open>malloc\<close>
  returns for each line.\<close>

definition bindump :: "(u8 list \<Rightarrow> u8 list option) \<Rightarrow> (nat \<Rightarrow> u8 list) \<Rightarrow> u8 list list \<Rightarrow> host_result" where
  "bindump fs junk args =
     (case args of
        [mode, name] \<Rightarrow> Option.bind (fs name) (\<lambda>stream.
          let len = nat (sint (of_nat (length stream) AND 0xFFFFFFFC :: u32)); buffer = take len stream
          in if mode = map of_char ''-h'' then
               map_option (\<lambda>ls. (0, greeting # ls)) (dump_lines (dump_line print_hex 16 (junk 17) buffer) [0..<len div 16])
             else if mode = map of_char ''-b'' then
               map_option (\<lambda>ls. (0, greeting # ls)) (dump_lines (dump_line print_binary 6 (junk 7) buffer) [0..<len div 6])
             else Some (- 1, [greeting, mode_error mode]))
      | _ \<Rightarrow> Some (- 1, [greeting, usage_error]))"

end
