(* ===== verification/Initrd_Reader.thy ===== *)
theory Initrd_Reader
  imports Initrd_Properties Host_Output
begin

text \<open>
  The program that lists a ramdisk, \<open>tools/initrd_creator/init_rd_reader.c\<close>. Its counter and its array of
  headers are uninitialised locals and its blocks come from \<open>malloc\<close>, so their contents are arguments: \<open>blk i n\<close> is
  the block of \<open>n\<close> bytes for file \<open>i\<close>. Reading behind the array of headers, or behind a block that holds no zero
  byte, has no defined result.
\<close>

subsection \<open>The code\<close>

text \<open>The \<open>int\<close> at an offset of a block of bytes.\<close>

definition word_at :: "nat \<Rightarrow> u8 list \<Rightarrow> u32" where
  "word_at k bs = load32 (\<lambda>a. bs ! (k + unat a)) 0"

definition argc_error :: host_call where
  "argc_error = Host_Printf ''ERROR: argc unmatched! Please enter a valid filenaame for which we will read the contents!\<newline>'' []"

definition print_number :: "nat \<Rightarrow> host_call" where
  "print_number i = Host_Printf ''Printing data of file %d:\<newline>'' [Int_Arg (int i)]"

definition print_header :: "u8 \<Rightarrow> u8 list \<Rightarrow> u32 \<Rightarrow> u32 \<Rightarrow> host_call" where
  "print_header magic nm off len =
     Host_Printf (CHR 0x09 # ''magic number: 0x%08x\<newline>'' @ CHR 0x09 # ''name: %s\<newline>'' @ CHR 0x09 # ''offset: 0x%08x bytes\<newline>''
       @ CHR 0x09 # ''length: 0x%08x bytes\<newline>'') [Int_Arg (uint magic), Bytes_Arg nm, Int_Arg (uint off), Int_Arg (uint len)]"

definition print_contents :: "u8 list \<Rightarrow> host_call" where
  "print_contents t = Host_Printf ''%s\<newline>\<newline>'' [Bytes_Arg t]"

text \<open>The loop, for the indices that are left and what the file has left.\<close>

fun read_files :: "(nat \<Rightarrow> nat \<Rightarrow> u8 list) \<Rightarrow> u8 list \<Rightarrow> nat list \<Rightarrow> u8 list \<Rightarrow> host_call list option" where
  "read_files blk hs [] stream = Some []"
| "read_files blk hs (i # is) stream =
     (if i \<ge> 64 then None
      else Option.bind (c_text (drop (76 * i + 1) hs)) (\<lambda>nm.
        let off = word_at (76 * i + 68) hs; len = word_at (76 * i + 72) hs;
            (buff, stream) = fread_into (unat len) stream (blk i (unat len))
        in Option.bind (c_text buff) (\<lambda>t.
           map_option (\<lambda>out. [print_number i, print_header (hs ! (76 * i)) nm off len, print_contents t] @ out)
             (read_files blk hs is stream))))"

text \<open>\<open>main\<close> goes on after the complaint about \<open>argc\<close>; without an argument it opens a null pointer.\<close>

definition init_rd_reader :: "('p \<Rightarrow> u8 list option) \<Rightarrow> u8 list \<Rightarrow> u8 list \<Rightarrow> (nat \<Rightarrow> nat \<Rightarrow> u8 list) \<Rightarrow>
    'p list \<Rightarrow> host_result" where
  "init_rd_reader fs filec headers blk args =
     (case args of [] \<Rightarrow> None
      | path # rest \<Rightarrow> Option.bind (fs path) (\<lambda>rstream.
          let (filec, rstream) = fread_into 4 rstream filec;
              (headers, rstream) = fread_into (76 * 64) rstream headers
          in map_option (\<lambda>out. (0, (if rest = [] then [] else [argc_error]) @ out))
               (read_files blk headers [0..<nat (sint (word_at 0 filec))] rstream)))"

subsection \<open>Reading what the creator wrote\<close>

lemma word_at_le32: "piece k 4 hs = le32 v \<Longrightarrow> word_at k hs = v"
proof -
  assume p: "piece k 4 hs = le32 v"
  then have l: "k + 4 \<le> length hs" using length_le32 [of v] by (simp add: piece_def flip: p)
  have "bytes (\<lambda>a. hs ! (k + unat a)) 0 4 = piece k 4 hs"
    using l by (auto intro!: nth_equalityI simp: piece_def load8_def unat_of_nat_small)
  then show ?thesis unfolding word_at_def using p by (intro load32_le32) simp
qed

lemma c_text_piece:
  assumes "piece k (length nm + 1) bs = nm @ [0]" "0 \<notin> set nm"
  shows "c_text (drop k bs) = Some nm"
proof -
  have "drop k bs = nm @ 0 # drop (length nm + 1) (drop k bs)"
    using assms(1) append_take_drop_id [of "length nm + 1" "drop k bs"] by (simp add: piece_def)
  then show ?thesis using assms(2)
    by (metis (mono_tags, lifting) c_text_def in_set_conv_decomp takeWhile_append2 takeWhile.simps(2) append.right_neutral)
qed

lemma header_read:
  assumes "header_at hs i nm off len" "0 \<notin> set nm"
  shows "hs ! (76 * i) = MAGIC" "c_text (drop (76 * i + 1) hs) = Some nm" "word_at (76 * i + 68) hs = off" "word_at (76 * i + 72) hs = len"
proof -
  have "piece (76 * i) 1 hs = [MAGIC]" using assms(1) by (simp add: header_at_def)
  then show "hs ! (76 * i) = MAGIC" by (cases "drop (76 * i) hs") (auto simp: piece_def nth_via_drop)
  show "c_text (drop (76 * i + 1) hs) = Some nm" using assms by (intro c_text_piece) (simp_all add: header_at_def)
  show "word_at (76 * i + 68) hs = off" "word_at (76 * i + 72) hs = len"
    using assms(1) by (simp_all add: header_at_def word_at_le32)
qed

definition listing :: "nat \<Rightarrow> u8 list \<Rightarrow> u32 \<Rightarrow> u8 list \<Rightarrow> host_call list" where
  "listing i nm off d = [print_number i, print_header MAGIC nm off (of_nat (length d)),
     print_contents (takeWhile (\<lambda>b. b \<noteq> 0) d)]"

lemma read_files_list:
  assumes blk: "\<And>i n. length (blk i n) = n"
    and hd: "\<And>j. j < length ds \<Longrightarrow> i + j < 64 \<and> header_at hs (i + j) (nms ! j) (offs j) (of_nat (length (ds ! j)))
      \<and> 0 \<notin> set (nms ! j) \<and> length (ds ! j) < 4294967296"
    and n: "length nms = length ds"
  shows "read_files blk hs [i..<i + length ds] (concat ds)
    = (if \<forall>d \<in> set ds. 0 \<in> set d then Some (concat (map (\<lambda>j. listing (i + j) (nms ! j) (offs j) (ds ! j)) [0..<length ds]))
       else None)"
  using hd n
proof (induction ds arbitrary: i nms offs)
  case Nil
  then show ?case by simp
next
  case (Cons d ds)
  note h = Cons.prems(1) [of 0, simplified]
  note hr = header_read [of hs i "nms ! 0" "offs 0" "of_nat (length d)"]
  have rest: "read_files blk hs [Suc i..<Suc i + length ds] (concat ds)
      = (if \<forall>d \<in> set ds. 0 \<in> set d
         then Some (concat (map (\<lambda>j. listing (Suc i + j) (tl nms ! j) (offs (Suc j)) (ds ! j)) [0..<length ds])) else None)"
    using Cons.prems(1) [of "Suc j" for j] Cons.prems(2) by (intro Cons.IH) (auto simp: nth_tl)
  have "[i..<i + length (d # ds)] = i # [Suc i..<Suc i + length ds]" by (simp add: upt_rec)
  moreover have "fread_into (length d) (d @ concat ds) (blk i (length d)) = (d, concat ds)"
    using blk by (simp add: fread_into_def Let_def)
  moreover have "map (\<lambda>j. listing (i + j) (nms ! j) (offs j) ((d # ds) ! j)) [0..<length (d # ds)]
      = listing i (nms ! 0) (offs 0) d # map (\<lambda>j. listing (Suc i + j) (tl nms ! j) (offs (Suc j)) (ds ! j)) [0..<length ds]"
    using Cons.prems(2) by (auto simp: map_upt_Suc nth_tl simp del: upt_Suc)
  ultimately show ?case
    using h hr rest by (simp add: c_text_def unat_of_nat_small listing_def Let_def)
qed

subsection \<open>Properties\<close>

text \<open>C24: The reader lists what the creator wrote: for an image of some files it prints, for each file in the
  order of the command line, its number, the magic number, the name, the offset behind the headers and the files before
  it, the length, and the text of the file up to its first zero byte. It does so exactly when every file has a
  zero byte; otherwise it reads behind the block that holds a file, and there is no defined result.\<close>

theorem reader_lists_creator_image:
  assumes img: "init_rd_creator fs args junk = Inr img" "length junk = 76 * 64"
    and names: "\<forall>(p, nm) \<in> set args. 0 \<notin> set nm \<and> length nm < 64 \<and> length (the (fs p)) < 4294967296"
    and host: "rfs path = Some img" "length filec = 4" "length headers = 76 * 64" "\<And>i n. length (blk i n) = n"
  shows "init_rd_reader rfs filec headers blk [path] = (if \<forall>(p, nm) \<in> set args. 0 \<in> set (the (fs p))
    then Some (0, concat (map (\<lambda>j.
      listing j (snd (args ! j)) (4868 + of_nat (sum_list (map (\<lambda>(p, nm). length (the (fs p))) (take j args))))
        (the (fs (fst (args ! j))))) [0..<length args]))
    else None)"
proof -
  let ?ds = "map (\<lambda>(p, nm). the (fs p)) args"
  obtain hs where hs: "fill_headers fs args 0 4868 junk = Inr hs" and i: "img = le32 (of_nat (length args)) @ hs @ concat ?ds"
    using img(1) by (auto simp: init_rd_creator_def and_then_Inr Let_def)
  have "\<forall>(p, nm) \<in> set args. length nm < 64" using names by auto
  note r = fill_headers_result [OF hs this]
  have len: "length hs = 76 * 64" "length args \<le> 64" using r img(2) by auto
  have n: "word_at 0 (le32 (of_nat (length args))) = of_nat (length args)"
    by (rule word_at_le32) (simp add: piece_def)
  have s: "nat (sint (of_nat (length args) :: u32)) = length args" using len(2) by (simp add: sint_of_nat)
  have hd: "j < 64 \<and> header_at hs j (snd (args ! j)) (4868 + of_nat (sum_list (map (\<lambda>(p, nm). length (the (fs p))) (take j args))))
      (of_nat (length (?ds ! j))) \<and> 0 \<notin> set (snd (args ! j)) \<and> length (?ds ! j) < 4294967296" if j: "j < length args" for j
  proof -
    obtain p nm where pn: "args ! j = (p, nm)" by fastforce
    obtain d where "fs p = Some d" "header_at hs j nm (4868 + of_nat (sum_list (map (\<lambda>(p, nm). length (the (fs p))) (take j args)))) (of_nat (length d))"
      using r j pn by auto
    moreover have "(p, nm) \<in> set args" using j pn by (metis nth_mem)
    ultimately show ?thesis using names j len(2) pn by auto
  qed
  have "read_files blk hs [0..<0 + length ?ds] (concat ?ds) = (if \<forall>d \<in> set ?ds. 0 \<in> set d
      then Some (concat (map (\<lambda>j. listing (0 + j) (map snd args ! j)
        (4868 + of_nat (sum_list (map (\<lambda>(p, nm). length (the (fs p))) (take j args)))) (?ds ! j)) [0..<length ?ds])) else None)"
    by (rule read_files_list [OF host(4)]) (use hd in simp_all)
  moreover have "map (\<lambda>j. listing (0 + j) (map snd args ! j)
      (4868 + of_nat (sum_list (map (\<lambda>(p, nm). length (the (fs p))) (take j args)))) (?ds ! j)) [0..<length ?ds]
    = map (\<lambda>j. listing j (snd (args ! j)) (4868 + of_nat (sum_list (map (\<lambda>(p, nm). length (the (fs p))) (take j args))))
        (the (fs (fst (args ! j))))) [0..<length args]" by (simp add: case_prod_unfold)
  ultimately have body: "read_files blk hs [0..<length args] (concat ?ds) = (if \<forall>d \<in> set ?ds. 0 \<in> set d then Some (concat (map (\<lambda>j.
      listing j (snd (args ! j)) (4868 + of_nat (sum_list (map (\<lambda>(p, nm). length (the (fs p))) (take j args))))
        (the (fs (fst (args ! j))))) [0..<length args])) else None)" by (simp only: length_map add_0)
  have z: "(\<forall>d \<in> set ?ds. 0 \<in> set d) \<longleftrightarrow> (\<forall>(p, nm) \<in> set args. 0 \<in> set (the (fs p)))" by auto
  have "fread_into 4 img filec = (le32 (of_nat (length args)), hs @ concat ?ds)"
    "fread_into (76 * 64) (hs @ concat ?ds) headers = (hs, concat ?ds)"
    using host(2,3) len by (simp_all add: i fread_into_def Let_def)
  then show ?thesis using host(1) n s body unfolding z by (simp add: init_rd_reader_def)
qed

theorem reader_lists_creator_image_witness:
  "init_rd_reader (\<lambda>_ :: unit. Some demo_image) [1, 2, 3, 4] (replicate (76 * 64) 0) (\<lambda>i n. replicate n 0) [()] = None
    \<and> (\<exists>img. init_rd_creator (\<lambda>_. Some [0x68, 0x69, 0, 0x21]) [((), [0x61])] (replicate (76 * 64) 0) = Inr img
      \<and> init_rd_reader (\<lambda>_ :: unit. Some img) [1, 2, 3, 4] (replicate (76 * 64) 0) (\<lambda>i n. replicate n 0) [()]
        = Some (0, [print_number 0, print_header MAGIC [0x61] 4868 4, print_contents [0x68, 0x69]]))"
proof
  show "init_rd_reader (\<lambda>_ :: unit. Some demo_image) [1, 2, 3, 4] (replicate (76 * 64) 0) (\<lambda>i n. replicate n 0) [()] = None"
    using reader_lists_creator_image [OF demo_creator(1), of "\<lambda>_ :: unit. Some demo_image" "()" "[1, 2, 3, 4]" "replicate (76 * 64) 0"
        "\<lambda>i n. replicate n 0"]
    by (simp add: demo_args_def demo_files_def)
  obtain img where img: "init_rd_creator (\<lambda>_ :: unit. Some [0x68, 0x69, 0, 0x21]) [((), [0x61])] (replicate (76 * 64) 0) = Inr img"
    by (simp add: init_rd_creator_def put_at_def le32_def)
  show "\<exists>img. init_rd_creator (\<lambda>_ :: unit. Some [0x68, 0x69, 0, 0x21]) [((), [0x61])] (replicate (76 * 64) 0) = Inr img
      \<and> init_rd_reader (\<lambda>_ :: unit. Some img) [1, 2, 3, 4] (replicate (76 * 64) 0) (\<lambda>i n. replicate n 0) [()]
        = Some (0, [print_number 0, print_header MAGIC [0x61] 4868 4, print_contents [0x68, 0x69]])"
    using img reader_lists_creator_image [OF img, of "\<lambda>_ :: unit. Some img" "()" "[1, 2, 3, 4]" "replicate (76 * 64) 0"
        "\<lambda>i n. replicate n 0"]
    by (simp add: listing_def)
qed

end
