(* ===== verification/Kernel_Session.thy ===== *)
theory Kernel_Session
  imports Kernel_Main
begin

text \<open>
  The components at work together: a command typed on the keyboard up to its effect, and the interrupts of
  timer, keyboard and mouse in any order, as a step relation on the state they share.
\<close>

subsection \<open>Typing a command\<close>

text \<open>The interrupts for a sequence of scan codes.\<close>

fun press_keys :: "(u8 \<Rightarrow> 'a \<Rightarrow> 'a option) \<Rightarrow> u8 list \<Rightarrow> 'a \<Rightarrow> 'a option" where
  "press_keys key [] st = Some st"
| "press_keys key (k # ks) st = Option.bind (key k st) (press_keys key ks)"

lemma press_keys_append: "press_keys key (ks @ ls) st = Option.bind (press_keys key ks st) (press_keys key ls)"
  by (induction ks arbitrary: st) (auto split: bind_split)

definition echo_of :: "u8 \<Rightarrow> console_event" where "echo_of c = Printf [char_of (unat c)] []"

lemma typed_line:
  assumes "cstr (memory s) kb xs" "length xs + length ks \<le> 255" "\<forall>k \<in> set ks. is_typing k"
  shows "\<exists>s'. press_keys (keyboard_scancode after user kb) ks (ck, u, s) = Some (ck, u, s')
    \<and> cstr (memory s') kb (xs @ map (\<lambda>k. typed k ck) ks)
    \<and> console s' = console s @ map (\<lambda>k. echo_of (typed k ck)) ks \<and> (\<forall>a. \<not> in_buffer kb a \<longrightarrow> memory s' a = memory s a)"
  using assms
proof (induction ks arbitrary: xs s)
  case Nil
  then show ?case by simp
next
  case (Cons k ks)
  have "length xs < 255" "is_typing k" using Cons.prems by simp_all
  from keyboard_types [OF Cons.prems(1) this, of after user ck u] obtain s1 where
    s1: "keyboard_scancode after user kb k (ck, u, s) = Some (ck, u, s1)" "cstr (memory s1) kb (xs @ [typed k ck])"
      "console s1 = console s @ [echo_of (typed k ck)]" "\<forall>a. \<not> in_buffer kb a \<longrightarrow> memory s1 a = memory s a"
    by (auto simp: echo_of_def)
  from Cons.IH [OF s1(2)] Cons.prems(2,3) show ?case using s1 by auto
qed

text \<open>The literals of \<open>kernel.c\<close> and \<open>shell.c\<close>, outside the buffer.\<close>

definition command_literals :: "shell_link \<Rightarrow> u32 \<Rightarrow> mem \<Rightarrow> bool" where
  "command_literals lk kb m \<longleftrightarrow> (\<forall>t \<in> set (''shutdown'' # ''restart'' # shell_literals).
     cstr m (lit lk t) (str t) \<and> apart (lit lk t) (Suc (length t)) kb 256)"

lemma command_literals_frame:
  assumes "command_literals lk kb m" "\<And>a. \<not> in_buffer kb a \<Longrightarrow> m' a = m a"
  shows "command_literals lk kb m'"
  unfolding command_literals_def
proof (intro ballI conjI)
  fix t assume "t \<in> set (''shutdown'' # ''restart'' # shell_literals)"
  then have t: "cstr m (lit lk t) (str t)" "apart (lit lk t) (Suc (length t)) kb 256"
    using assms(1) unfolding command_literals_def by blast+
  then show "apart (lit lk t) (Suc (length t)) kb 256" by blast
  have "bytes m' (lit lk t) (Suc (length t)) = bytes m (lit lk t) (Suc (length t))"
  proof (rule bytes_cong)
    show "m' c = m c" if "within (lit lk t) (Suc (length t)) c" for c
      using apart_within [OF t(2) that] assms(2) by blast
    show "Suc (length t) \<le> 4294967296" using t(1) by (simp add: cstr_def)
  qed
  then show "cstr m' (lit lk t) (str t)" using t(1) by (simp add: cstr_def)
qed

lemma user_input_runs:
  assumes line: "cstr (memory s) kb xs" and lits: "command_literals lk kb (memory s)" and clock: "cmos_device regs dev"
    and small: "xs = str ''shutdown'' \<or> xs \<noteq> str ''restart'' \<and> needs_no_memory st xs"
  shows "\<exists>io' st' s' evs. user_input fuel dev lk now kb ((io, st), s) = Some ((io', st'), s') \<and> console s' = console s @ evs
    \<and> (if xs = str ''shutdown'' then io' = shutdown_ports io \<and> st' = st \<and> evs = [Printf ''Stopping the CPU. Bye!\<newline>'' []]
       else st' = next_mode st xs \<and> evs = shell_reply regs lk now kb st xs (drop 6 xs) @ [Printf ''\<newline>> '' []])"
proof -
  have l: "cstr (memory s) (lit lk ''shutdown'') (str ''shutdown'')" "cstr (memory s) (lit lk ''restart'') (str ''restart'')"
    "literals_ok lk (memory s)" using lits by (simp_all add: command_literals_def literals_ok_def)
  obtain c d where c: "strcmp (memory s) kb (lit lk ''shutdown'') = Some c" "c = 0 \<longleftrightarrow> xs = str ''shutdown''"
    and d: "strcmp (memory s) kb (lit lk ''restart'') = Some d" "d = 0 \<longleftrightarrow> xs = str ''restart''"
    using strcmp_zero [OF line l(1)] strcmp_zero [OF line l(2)] by auto
  show ?thesis
  proof (cases "xs = str ''shutdown''")
    case True
    then show ?thesis using c by (simp add: user_input_def printf_s_def)
  next
    case False
    then have "xs \<noteq> str ''restart''" "needs_no_memory st xs" using small by auto
    with shell_command_replies [OF clock line l(3), of st fuel now io] False c d show ?thesis
      by (fastforce simp: user_input_def)
  qed
qed

subsection \<open>Interrupts in any order\<close>

text \<open>What the handlers of the three interrupts work on.\<close>

record irq_state =
  q_keys :: u32
  q_mode :: u32
  q_ports :: ports
  q_mouse :: mouse
  q_tasking :: tasking
  q_kernel :: kstate

text \<open>
  One interrupt: a tick, which may switch to another process, a scan code, or a byte of the mouse. A handler
  that does not return makes no step.
\<close>

inductive interrupt_step :: "nat \<Rightarrow> device \<Rightarrow> shell_link \<Rightarrow> (nat \<Rightarrow> u8) \<Rightarrow> u32 \<Rightarrow> irq_state \<Rightarrow> irq_state \<Rightarrow> bool"
  for fuel :: nat and dev :: device and lk :: shell_link and after :: "nat \<Rightarrow> u8" and kb :: u32 where
  on_tick: "timer_callback (\<lambda>st. snd (schedule st)) (timer (q_tasking q), (q_tasking q, q_kernel q)) = (tm, t, s) \<Longrightarrow>
    interrupt_step fuel dev lk after kb q (q\<lparr>q_tasking := t\<lparr>timer := tm\<rparr>, q_kernel := s\<rparr>)"
| on_key: "keyboard_interrupt fuel dev lk (tick (timer (q_tasking q))) after kb (q_keys q, (q_ports q, q_mode q), q_kernel q)
      = Some (ck, (io, st), s) \<Longrightarrow>
    interrupt_step fuel dev lk after kb q (q\<lparr>q_keys := ck, q_ports := io, q_mode := st, q_kernel := s\<rparr>)"
| on_mouse: "mouse_callback dev (q_ports q, q_mouse q, memory (q_kernel q)) = Some (io, ms, m) \<Longrightarrow>
    interrupt_step fuel dev lk after kb q (q\<lparr>q_ports := io, q_mouse := ms, q_kernel := (q_kernel q)\<lparr>memory := m\<rparr>\<rparr>)"

definition interrupts_ok :: "u32 \<Rightarrow> irq_state \<Rightarrow> bool" where
  "interrupts_ok kb q \<longleftrightarrow> (\<exists>xs. cstr (memory (q_kernel q)) kb xs \<and> length xs \<le> 255) \<and> mouse_in_range (q_mouse q)"

lemma schedule_keeps_memory: "memory (snd (snd (schedule (t, s)))) = memory s"
  by (simp add: schedule_def exec_def Let_def)

lemma cstr_outside:
  assumes "cstr m kb xs" "length xs \<le> 255" "apart kb 256 b n" "\<And>a. \<not> within b n a \<Longrightarrow> m' a = m a"
  shows "cstr m' kb xs"
proof -
  have "bytes m' kb (Suc (length xs)) = bytes m kb (Suc (length xs))"
  proof (rule bytes_cong)
    show "m' c = m c" if "within kb (Suc (length xs)) c" for c
      using apart_within [OF assms(3) within_mono [OF that]] assms(2,4) by simp
  qed (use assms(2) in simp)
  then show ?thesis using assms(1) by (simp add: cstr_def)
qed

lemma interrupt_step_ok:
  assumes "interrupt_step fuel dev lk after kb q q'" "interrupts_ok kb q" "apart kb 256 0xB8000 0x2000"
  shows "interrupts_ok kb q'"
  using assms(1,2)
proof cases
  case (on_tick tm t s)
  then have "memory s = memory (q_kernel q)"
    using schedule_keeps_memory [of "q_tasking q" "q_kernel q"] by (auto simp: timer_callback_def Let_def split: if_splits)
  then show ?thesis using assms(2) on_tick(1) by (simp add: interrupts_ok_def)
next
  case (on_key ck io st s)
  obtain xs where xs: "cstr (memory (q_kernel q)) kb xs" "length xs \<le> 255" using assms(2) by (auto simp: interrupts_ok_def)
  obtain k io' where "keyboard_scancode after (user_input fuel dev lk (tick (timer (q_tasking q)))) kb k
      (q_keys q, (io', q_mode q), q_kernel q) = Some (ck, (io, st), s)"
    using on_key(2) by (auto simp: keyboard_interrupt_def keyboard_callback_def split_beta)
  then have "\<exists>ys. cstr (memory s) kb ys \<and> length ys \<le> 255" by (rule keyboard_keeps_line [OF _ xs])
  then show ?thesis using assms(2) on_key(1) by (simp add: interrupts_ok_def)
next
  case (on_mouse io ms m)
  obtain xs where xs: "cstr (memory (q_kernel q)) kb xs" "length xs \<le> 255" and r: "mouse_in_range (q_mouse q)"
    using assms(2) by (auto simp: interrupts_ok_def)
  have "mouse_in_range ms \<and> (\<forall>a. \<not> within 0xB8000 0x2000 a \<longrightarrow> m a = memory (q_kernel q) a)"
    using mouse_callback_served [OF r, of dev "q_ports q" "memory (q_kernel q)"] on_mouse(2) by auto
  moreover from this have "cstr m kb xs" using cstr_outside [OF xs assms(3)] by blast
  ultimately show ?thesis using xs(2) on_mouse(1) by (auto simp: interrupts_ok_def)
qed

subsection \<open>Properties\<close>

text \<open>C10: A command typed from an empty line: each key is echoed, Enter hands the typed text to the kernel, and the
  line is empty again. \<open>shutdown\<close> writes the three power-off values to their ports and nothing else; any other line
  that needs no memory (\<open>restart\<close> apart) gets exactly the reply of the shell, followed by the prompt, and changes the
  mode as the shell's state machine says.\<close>

theorem typed_command_is_executed:
  assumes "cstr (memory s) kb []" "length ks \<le> 255" "\<forall>k \<in> set ks. is_typing k" and line: "line = map (\<lambda>k. typed k ck) ks"
    and "command_literals lk kb (memory s)" "cmos_device regs dev"
    and "line = str ''shutdown'' \<or> line \<noteq> str ''restart'' \<and> needs_no_memory st line"
  shows "\<exists>io' st' s' evs. press_keys (keyboard_scancode after (user_input fuel dev lk now) kb) (ks @ [ENTER]) (ck, (io, st), s)
      = Some (ck, (io', st'), s')
    \<and> cstr (memory s') kb [] \<and> console s' = console s @ map echo_of line @ [Printf ''\<newline>'' []] @ evs
    \<and> (if line = str ''shutdown'' then
         io' = io @ [Out16 0xB004 0x2000, Out16 0x0604 0x2000, Out16 0x4004 0x3400]
         \<and> st' = st \<and> evs = [Printf ''Stopping the CPU. Bye!\<newline>'' []]
       else st' = next_mode st line \<and> evs = shell_reply regs lk now kb st line (drop 6 line) @ [Printf ''\<newline>> '' []])"
proof -
  let ?user = "user_input fuel dev lk now"
  from typed_line [OF assms(1) _ assms(3), of after ?user ck "(io, st)"] assms(2) obtain s1 where
    s1: "press_keys (keyboard_scancode after ?user kb) ks (ck, (io, st), s) = Some (ck, (io, st), s1)"
      "cstr (memory s1) kb line" "console s1 = console s @ map echo_of line" "\<forall>a. \<not> in_buffer kb a \<longrightarrow> memory s1 a = memory s a"
    by (auto simp: line o_def)
  let ?s1 = "printf_s ''\<newline>'' [] s1"
  have "command_literals lk kb (memory ?s1)" using command_literals_frame [OF assms(5)] s1(4) by (simp add: printf_s_def)
  moreover have "cstr (memory ?s1) kb line" using s1(2) by (simp add: printf_s_def)
  ultimately obtain io' st' s2 evs where u: "?user kb ((io, st), ?s1) = Some ((io', st'), s2)" "console s2 = console ?s1 @ evs"
    "if line = str ''shutdown'' then io' = shutdown_ports io \<and> st' = st \<and> evs = [Printf ''Stopping the CPU. Bye!\<newline>'' []]
       else st' = next_mode st line \<and> evs = shell_reply regs lk now kb st line (drop 6 line) @ [Printf ''\<newline>> '' []]"
    using user_input_runs [OF _ _ assms(6,7), of ?s1 kb lk fuel now io] by blast
  from keyboard_enters [of ?user kb "(io, st)" s1, OF u(1), of after ck] obtain s' where
    "keyboard_scancode after ?user kb ENTER (ck, (io, st), s1) = Some (ck, (io', st'), s')" "cstr (memory s') kb []" "console s' = console s2"
    by blast
  then show ?thesis using s1 u by (auto simp: press_keys_append printf_s_def shutdown_ports_def outw_def)
qed

definition session_literals :: "string list" where "session_literals = ''shutdown'' # ''restart'' # shell_literals"

definition session_state :: kstate where "session_state = early_state\<lparr>memory := table_memory session_literals\<rparr>"

lemma session_literals_ok:
  "command_literals (table_link session_literals) 0x8000 (memory session_state)" "cstr (memory session_state) 0x8000 []"
proof -
  have short: "\<forall>t \<in> set session_literals. length t < 16 \<and> 0 \<notin> set (str t)" "length session_literals = 16"
    by (simp_all add: session_literals_def shell_literals_def str_def)
  show "command_literals (table_link session_literals) 0x8000 (memory session_state)"
    unfolding command_literals_def session_literals_def [symmetric]
  proof (intro ballI conjI)
    fix t assume t: "t \<in> set session_literals"
    show "cstr (memory session_state) (lit (table_link session_literals) t) (str t)"
      using table_literal [OF t short(1)] short(2) by (simp add: session_state_def)
    define k where "k = length (takeWhile (\<lambda>u. u \<noteq> t) session_literals)"
    have k: "k \<le> 16" using length_takeWhile_le [of "\<lambda>u. u \<noteq> t" session_literals] short(2) by (simp add: k_def)
    have a: "lit (table_link session_literals) t = 0x1000 + of_nat (16 * k)" by (simp add: table_link_def k_def)
    have "unat (0x1000 + of_nat (16 * k) :: u32) = 0x1000 + 16 * k" using k by (subst unat_add_of_nat) simp_all
    moreover have "length t < 16" using short(1) t by blast
    ultimately show "apart (lit (table_link session_literals) t) (Suc (length t)) 0x8000 256"
      unfolding a by (intro apart_nat(1)) (use k in simp_all)
  qed
  have "\<not> within 0x1000 256 (0x8000 :: u32)" by (simp add: within_nat)
  moreover have "length (concat (map (\<lambda>t. str t @ replicate (16 - length t) 0) session_literals)) = 256"
  proof -
    have "\<forall>b \<in> set (map (\<lambda>t. str t @ replicate (16 - length t) 0) session_literals). length b = 16"
      using short(1) by (auto dest!: bspec)
    from length_blocks [OF this] show ?thesis using short(2) by simp
  qed
  ultimately show "cstr (memory session_state) 0x8000 []"
    by (simp add: cstr_Nil load8_def session_state_def table_memory_def put_bytes_def)
qed

theorem typed_command_is_executed_witness:
  "\<exists>s'. press_keys (keyboard_scancode (\<lambda>_. 0) (user_input 0 (\<lambda>io port. ucast (cmos_index io)) (table_link session_literals) 0) 0x8000)
      [0x1F, 0x23, 0x16, 0x14, 0x20, 0x18, 0x11, 0x31, ENTER] (0, ([], 0), session_state)
    = Some (0, ([Out16 0xB004 0x2000, Out16 0x0604 0x2000, Out16 0x4004 0x3400], 0), s')"
proof -
  let ?ks = "[0x1F, 0x23, 0x16, 0x14, 0x20, 0x18, 0x11, 0x31] :: u8 list"
  have clock: "cmos_device (\<lambda>r. r) (\<lambda>io port. ucast (cmos_index io))"
    by (auto simp: cmos_device_def bit_simps intro!: bit_word_eqI)
  have ks: "length ?ks \<le> 255" "\<forall>k \<in> set ?ks. is_typing k" by (simp_all add: is_typing_def sc_ascii_bytes)
  have line: "str ''shutdown'' = map (\<lambda>k. typed k 0) ?ks" by (simp add: typed_def sc_ascii_bytes str_def)
  show ?thesis
    using typed_command_is_executed [OF session_literals_ok(2) ks line session_literals_ok(1) clock disjI1 [OF refl], of "\<lambda>_. 0" 0 0 "[]" 0] by auto
qed

text \<open>C16: Whatever the order in which ticks, scan codes and mouse bytes arrive, and whatever the shell does with the
  lines: the key buffer always holds a terminated line of at most 255 characters and the mouse stays in its
  range. In every such state a tick and a mouse byte are served, so neither can stop the machine.\<close>

theorem interrupts_keep_buffers:
  assumes "(interrupt_step fuel dev lk after kb)\<^sup>*\<^sup>* q q'" and "interrupts_ok kb q" and "apart kb 256 0xB8000 0x2000"
  shows "interrupts_ok kb q'
    \<and> (\<exists>t s. interrupt_step fuel dev lk after kb q' (q'\<lparr>q_tasking := t, q_kernel := s\<rparr>) \<and> tick (timer t) = tick (timer (q_tasking q')) + 1)
    \<and> (\<exists>io ms m. mouse_callback dev (q_ports q', q_mouse q', memory (q_kernel q')) = Some (io, ms, m)
         \<and> interrupt_step fuel dev lk after kb q' (q'\<lparr>q_ports := io, q_mouse := ms, q_kernel := (q_kernel q')\<lparr>memory := m\<rparr>\<rparr>))"
proof -
  have ok: "interrupts_ok kb q'"
    using assms(1,2) by (induction rule: rtranclp_induct) (use interrupt_step_ok assms(3) in blast)+
  obtain tm t s where t: "timer_callback (\<lambda>st. snd (schedule st)) (timer (q_tasking q'), (q_tasking q', q_kernel q')) = (tm, t, s)"
    by (metis surj_pair)
  then have "tick tm = tick (timer (q_tasking q')) + 1" by (auto simp: timer_callback_def Let_def split: if_splits)
  then have "\<exists>t s. interrupt_step fuel dev lk after kb q' (q'\<lparr>q_tasking := t, q_kernel := s\<rparr>) \<and> tick (timer t) = tick (timer (q_tasking q')) + 1"
    using interrupt_step.on_tick [OF t] by (intro exI [of _ "t\<lparr>timer := tm\<rparr>"] exI [of _ s]) simp
  moreover obtain io ms m where "mouse_callback dev (q_ports q', q_mouse q', memory (q_kernel q')) = Some (io, ms, m)"
    using mouse_callback_served [of "q_mouse q'"] ok unfolding interrupts_ok_def by blast
  ultimately show ?thesis using ok interrupt_step.on_mouse by blast
qed

definition idle_machine :: irq_state where
  "idle_machine = \<lparr>q_keys = 0, q_mode = 0, q_ports = [], q_mouse = \<lparr>m_offset = 0, m_buffer = [0, 0, 0], m_buttons = 0, mouse_x = 12,
     mouse_y = 39, button_state = [0, 0, 0], m_div = 10\<rparr>, q_tasking = \<lparr>cp = 0, ready_queue = 0, lpid = 0, tasking_enabled = 0,
     timer = timer_initial\<rparr>, q_kernel = early_state\<rparr>"

theorem interrupts_keep_buffers_witness:
  "\<exists>q1 q2. interrupt_step 0 (\<lambda>_ _. 0x21) demo_literals (\<lambda>_. 0) 0x1000 idle_machine q1
     \<and> interrupt_step 0 (\<lambda>_ _. 0x21) demo_literals (\<lambda>_. 0) 0x1000 q1 q2 \<and> interrupts_ok 0x1000 q2 \<and> tick (timer (q_tasking q1)) = 1"
proof -
  have ok: "interrupts_ok 0x1000 idle_machine"
    by (auto simp: idle_machine_def interrupts_ok_def early_state_def cstr_Nil load8_def mouse_in_range_def mouse_ok_def intro!: exI [of _ "[]"])
  have ap: "apart 0x1000 256 0xB8000 (0x2000 :: nat)" by (simp add: apart_iff within_nat)
  let ?step = "interrupt_step 0 (\<lambda>_ _. 0x21) demo_literals (\<lambda>_. 0) 0x1000"
  obtain q1 where q1: "?step idle_machine q1" "tick (timer (q_tasking q1)) = tick (timer (q_tasking idle_machine)) + 1"
    using interrupts_keep_buffers [OF rtranclp.rtrancl_refl ok ap, of 0 "\<lambda>_ _. 0x21" demo_literals "\<lambda>_. 0"] by fastforce
  then have s1: "?step\<^sup>*\<^sup>* idle_machine q1" by blast
  obtain q2 where q2: "?step q1 q2" using interrupts_keep_buffers [OF s1 ok ap] by blast
  then have "?step\<^sup>*\<^sup>* idle_machine q2" using s1 by (rule rtranclp.rtrancl_into_rtrancl [rotated])
  then have "interrupts_ok 0x1000 q2" using interrupts_keep_buffers [OF _ ok ap] by blast
  moreover have "tick (timer (q_tasking q1)) = 1" using q1(2) by (simp add: idle_machine_def timer_initial_def)
  ultimately show ?thesis using q1(1) q2 by blast
qed

end
