(* ===== verification/Directory_Contract.thy ===== *)
theory Directory_Contract
  imports File_System
begin

text \<open>
  The contract of a directory, for the code that goes through it with \<open>readdir_fs\<close>, \<open>finddir_fs\<close> and \<open>read_fs\<close>
  of \<open>fs.c\<close>: entry by entry a name in the \<open>dirent\<close> at \<open>entry\<close>, found again as the node \<open>node k\<close>, which is
  a directory or a file with contents, read into the 256 bytes at \<open>buf\<close>. \<open>ok m\<close> says that memory \<open>m\<close> holds it.
\<close>

locale directory =
  fixes c :: fs_code and root :: u32 and entry :: u32 and buf :: u32
    and es :: "(u8 list \<times> u8 list option) list" and node :: "nat \<Rightarrow> u32" and ok :: "mem \<Rightarrow> bool"
  assumes entry_nonzero: "ok m \<Longrightarrow> entry \<noteq> 0"
    and few_entries: "ok m \<Longrightarrow> length es < 4294967296"
    and name_short: "ok m \<Longrightarrow> k < length es \<Longrightarrow> length (fst (es ! k)) < 64"
    and buffer_apart_entry: "ok m \<Longrightarrow> apart buf 256 entry 132"
    and ok_keeps: "ok m \<Longrightarrow> (\<And>a. \<not> within buf 256 a \<Longrightarrow> m' a = m a) \<Longrightarrow> ok m'"
    and entry_read: "ok m \<Longrightarrow> k < length es \<Longrightarrow>
      \<exists>m'. readdir_fs c root (of_nat k) m = Some (entry, m') \<and> cstr m' entry (fst (es ! k)) \<and> ok m'"
    and entries_end: "ok m \<Longrightarrow> readdir_fs c root (of_nat (length es)) m = Some (0, m)"
    and entry_found: "ok m \<Longrightarrow> k < length es \<Longrightarrow> cstr m entry (fst (es ! k)) \<Longrightarrow> finddir_fs c root entry m = Some (node k, m)"
    and node_kind: "ok m \<Longrightarrow> k < length es \<Longrightarrow>
      load32 m (node_flags (node k)) AND 0x7 = FS_DIRECTORY \<longleftrightarrow> snd (es ! k) = None"
    and file_read: "ok m \<Longrightarrow> k < length es \<Longrightarrow> snd (es ! k) = Some d \<Longrightarrow>
      \<exists>m'. read_fs c (node k) 0 256 buf m = Some (of_nat (min 256 (length d)), m')
        \<and> bytes m' buf (min 256 (length d)) = take 256 d \<and> (\<forall>a. \<not> within buf (min 256 (length d)) a \<longrightarrow> m' a = m a)"

end
