(* ===== verification/Initrd_Directory.thy ===== *)
theory Initrd_Directory
  imports Directory_Contract Initrd
begin

text \<open>
  The ramdisk is a directory in the sense of \<open>Directory_Contract\<close>: its entries are \<open>dev\<close> and the files in their order, as long
  as the names differ and the buffer that is read into overlaps nothing of the ramdisk.
\<close>

text \<open>The local array \<open>buf\<close> overlaps nothing the ramdisk is made of, nor the static \<open>dirent\<close>.\<close>

definition buffer_apart :: "initrd_link \<Rightarrow> initrd_vars \<Rightarrow> mem \<Rightarrow> ramfile list \<Rightarrow> u32 \<Rightarrow> bool" where
  "buffer_apart lk v m files buf \<longleftrightarrow>
     (\<forall>a. within buf 256 a \<longrightarrow> \<not> initrd_byte lk v m files a \<and> \<not> within (at_dirent lk) 132 a)"

definition listing_ok :: "initrd_link \<Rightarrow> initrd_vars \<Rightarrow> ramfile list \<Rightarrow> u32 \<Rightarrow> mem \<Rightarrow> bool" where
  "listing_ok lk v files buf m \<longleftrightarrow> initrd_ok lk v m files \<and> dirent_apart lk v m files
     \<and> buffer_apart lk v m files buf \<and> at_dirent lk \<noteq> 0
     \<and> distinct (map fst files) \<and> dev_name \<notin> fst ` set files"

lemma initrd_byte_frame:
  assumes same: "\<And>a. initrd_byte lk v m files a \<Longrightarrow> m' a = m a"
  shows "initrd_byte lk v m' files a \<longleftrightarrow> initrd_byte lk v m files a"
proof -
  have "load32 m' (fh_offset (fh_at (file_headers v) (of_nat i))) = load32 m (fh_offset (fh_at (file_headers v) (of_nat i)))"
    if "i < length files" for i
    unfolding fh_offset_def
    using load32_field [of "fh_at (file_headers v) (of_nat i)" 76 m' m 68] same that by (auto simp: initrd_byte_def)
  then show ?thesis by (auto simp: initrd_byte_def)
qed

lemma listing_ok_frame:
  assumes "listing_ok lk v files buf m" and same: "\<And>a. \<not> within (at_dirent lk) 132 a \<Longrightarrow> \<not> within buf 256 a \<Longrightarrow> m' a = m a"
  shows "listing_ok lk v files buf m'"
proof -
  have s: "m' a = m a" if "initrd_byte lk v m files a" for a
    using assms that by (auto simp: listing_ok_def dirent_apart_def buffer_apart_def)
  show ?thesis
    using assms(1) initrd_ok_frame [OF _ s] initrd_byte_frame [OF s]
    by (simp add: listing_ok_def dirent_apart_def buffer_apart_def)
qed

lemma readdir_first:
  assumes ok: "initrd_ok lk v m files" and free: "dirent_apart lk v m files"
  shows "\<exists>m'. readdir_fs (initrd_code lk v) (initrd_root v) 0 m = Some (at_dirent lk, m')
    \<and> cstr m' (at_dirent lk) dev_name \<and> (\<forall>a. \<not> within (at_dirent lk) 132 a \<longrightarrow> m' a = m a)"
proof -
  let ?d = "at_dirent lk"
  have lit: "cstr m (lit_dev lk) dev_name" and root: "load32 m (node_flags (initrd_root v)) = FS_DIRECTORY"
    "load32 m (node_readdir (initrd_root v)) = fn_readdir lk" "fn_readdir lk \<noteq> 0"
    using ok by (simp_all add: initrd_ok_def directory_ok_def)
  have dl: "length dev_name = 3" by (simp add: dev_name_def)
  have "apart ?d 132 (lit_dev lk) 4" by (rule apartI) (use free in \<open>auto simp: dirent_apart_def initrd_byte_def\<close>)
  then have ap: "apart ?d (length dev_name) (lit_dev lk) (length dev_name)" by (rule apart_mono) (simp_all add: dl)
  let ?m3 = "store32 (store8 (copy_bytes ?d (lit_dev lk) (length dev_name) m) (?d + of_nat (length dev_name)) 0) (dirent_ino ?d) 0"
  have m3: "?m3 a = m a" if "\<not> within ?d 132 a" for a using dirent_frame(3) [of "length dev_name" ?d a] that by (simp add: dl)
  have "cstr ?m3 ?d dev_name" by (rule dirent_name [OF lit ap]) (simp add: dl)
  moreover have "readdir_fs (initrd_code lk v) (initrd_root v) 0 m = Some (?d, ?m3)"
    using root strcpy_cstr [OF lit ap]
    by (simp add: readdir_fs_def initrd_code_def initrd_readdir_def FS_DIRECTORY_def dl Let_def)
  ultimately show ?thesis using m3 by blast
qed

text \<open>The entries, with the contents of those that are files, and their nodes.\<close>

definition listed :: "ramfile list \<Rightarrow> (u8 list \<times> u8 list option) list" where
  "listed files = (dev_name, None) # map (\<lambda>(nm, d). (nm, Some d)) files"

definition listed_node :: "initrd_vars \<Rightarrow> nat \<Rightarrow> u32" where
  "listed_node v k = (if k = 0 then initrd_dev v else node_at (root_nodes v) (of_nat (k - 1)))"

lemma listed_cases:
  assumes "k < length (listed files)"
  obtains "k = 0" "listed files ! k = (dev_name, None)" "listed_node v k = initrd_dev v"
  | j where "k = Suc j" "j < length files" "listed files ! k = (fst (files ! j), Some (snd (files ! j)))"
      "listed_node v k = node_at (root_nodes v) (of_nat j)"
  using assms by (cases k) (auto simp: listed_def listed_node_def split_beta)

lemma listed_read:
  assumes ok: "listing_ok lk v files buf m" and k: "k < length (listed files)"
  shows "\<exists>m'. readdir_fs (initrd_code lk v) (initrd_root v) (of_nat k) m = Some (at_dirent lk, m')
    \<and> cstr m' (at_dirent lk) (fst (listed files ! k)) \<and> listing_ok lk v files buf m'"
proof -
  have ini: "initrd_ok lk v m files" "dirent_apart lk v m files" using ok by (simp_all add: listing_ok_def)
  have "\<exists>m'. readdir_fs (initrd_code lk v) (initrd_root v) (of_nat k) m = Some (at_dirent lk, m')
    \<and> cstr m' (at_dirent lk) (fst (listed files ! k)) \<and> (\<forall>a. \<not> within (at_dirent lk) 132 a \<longrightarrow> m' a = m a)"
    using k
  proof (cases rule: listed_cases [where v = v])
    case 1
    then show ?thesis using readdir_first [OF ini] by simp
  next
    case (2 j)
    then show ?thesis using readdir_entry [OF ini 2(2)] by (auto simp del: of_nat_Suc)
  qed
  then show ?thesis using listing_ok_frame [OF ok] by blast
qed

lemma listed_found:
  assumes ok: "listing_ok lk v files buf m" and k: "k < length (listed files)" and nm: "cstr m (at_dirent lk) (fst (listed files ! k))"
  shows "finddir_fs (initrd_code lk v) (initrd_root v) (at_dirent lk) m = Some (listed_node v k, m)"
proof -
  have ini: "initrd_ok lk v m files" and names: "distinct (map fst files)" "dev_name \<notin> fst ` set files"
    using ok by (simp_all add: listing_ok_def)
  show ?thesis
    using k
  proof (cases rule: listed_cases [where v = v])
    case 1
    then show ?thesis using finddir_fs_first [OF ini nm] by simp
  next
    case (2 j)
    then have "fst (files ! j) \<noteq> dev_name" using names(2) by (metis image_eqI nth_mem)
    then show ?thesis using finddir_fs_first [OF ini nm] name_index_distinct [OF names(1) 2(2)] 2 by simp
  qed
qed

lemma listed_kind:
  assumes ok: "listing_ok lk v files buf m" and k: "k < length (listed files)"
  shows "load32 m (node_flags (listed_node v k)) AND 0x7 = FS_DIRECTORY \<longleftrightarrow> snd (listed files ! k) = None"
proof -
  have ini: "initrd_ok lk v m files" using ok by (simp add: listing_ok_def)
  then have dev: "load32 m (node_flags (initrd_dev v)) = FS_DIRECTORY" by (simp add: initrd_ok_def directory_ok_def)
  show ?thesis
    using k by (cases rule: listed_cases [where v = v]) (simp_all add: dev file_okD(7) [OF ini] FS_DIRECTORY_def FS_FILE_def)
qed

lemma listed_contents:
  assumes ok: "listing_ok lk v files buf m" and k: "k < length (listed files)" and d: "snd (listed files ! k) = Some d"
  shows "\<exists>m'. read_fs (initrd_code lk v) (listed_node v k) 0 256 buf m = Some (of_nat (min 256 (length d)), m')
    \<and> bytes m' buf (min 256 (length d)) = take 256 d \<and> (\<forall>a. \<not> within buf (min 256 (length d)) a \<longrightarrow> m' a = m a)"
  using k
proof (cases rule: listed_cases [where v = v])
  case (2 j)
  let ?k = "min 256 (length d)"
  have dj: "d = snd (files ! j)" using 2 d by simp
  have ini: "initrd_ok lk v m files" and ba: "buffer_apart lk v m files buf" using ok by (simp_all add: listing_ok_def)
  have "apart buf 256 (load32 m (fh_offset (fh_at (file_headers v) (of_nat j)))) (length d)"
    by (rule apartI) (use ba 2 dj in \<open>auto simp: buffer_apart_def initrd_byte_def\<close>)
  then have ap: "apart buf ?k (load32 m (fh_offset (fh_at (file_headers v) (of_nat j))) + 0) ?k"
    unfolding add_0_right by (rule apart_mono) simp_all
  have "take ?k d = take 256 d" by (simp add: min_def)
  then show ?thesis using read_fs_file [OF ini 2(2), of 0 256 ?k buf] ap dj 2(4) by simp
qed (use d in simp)

interpretation ramdisk: directory "initrd_code lk v" "initrd_root v" "at_dirent lk" buf "listed files" "listed_node v"
    "listing_ok lk v files buf" for lk v files buf
proof (unfold_locales, goal_cases)
  case (1 m)
  then show ?case by (simp add: listing_ok_def)
next
  case (2 m)
  then show ?case by (simp add: listing_ok_def initrd_ok_def listed_def)
next
  case (3 m k)
  then have ini: "initrd_ok lk v m files" by (simp add: listing_ok_def)
  show ?case
    using 3(2) by (cases rule: listed_cases [where v = v]) (simp_all add: dev_name_def file_okD(2) [OF ini])
next
  case (4 m)
  then show ?case by (intro apartI) (auto simp: listing_ok_def buffer_apart_def)
next
  case (5 m m')
  then show ?case by (intro listing_ok_frame [OF 5(1)]) simp
next
  case (7 m)
  then have "initrd_ok lk v m files" "length files < 2147483648" by (simp_all add: listing_ok_def initrd_ok_def)
  moreover from this have "unat (of_nat (length (listed files)) :: u32) = Suc (length files)"
    by (subst unat_of_nat_small) (simp_all add: listed_def)
  ultimately show ?case by (intro readdir_behind [of lk v m files]) simp_all
qed (fact listed_read listed_found listed_kind listed_contents)+

end
