(* ===== verification/Kernel_Listing.thy ===== *)
theory Kernel_Listing
  imports Kernel_Main Initrd_Properties Initrd_Directory
begin

text \<open>
  The first process, \<open>kernel_task\<close> of \<open>kernel.c\<close>, in front of any directory: its loop ends and shows every entry
  once. \<open>Initrd_Directory\<close> makes the ramdisk one.
\<close>

text \<open>What a round leaves behind.\<close>

definition shown :: "u32 \<Rightarrow> u32 \<Rightarrow> u8 list \<times> u8 list option \<Rightarrow> kstate \<Rightarrow> kstate \<Rightarrow> bool" where
  "shown entry buf e s s' \<longleftrightarrow> cstr (memory s') entry (fst e)
     \<and> (case snd e of
          None \<Rightarrow> console s' = console s @ [Printf ''Found file %s'' [entry], Printf '': (directory)\<newline>'' []]
        | Some d \<Rightarrow> console s' = console s @ [Printf ''Found file %s'' [entry],
              Printf ('', contents: '' @ CHR 0x22 # ''%s'' @ CHR 0x22 # ''\<newline>'') [buf]]
            \<and> bytes (memory s') buf 256 = take 256 d @ replicate (256 - length d) 0)"

text \<open>Round \<open>k\<close> of the loop takes \<open>s\<close> to \<open>s'\<close> and shows entry \<open>k\<close>.\<close>

definition listing_round :: "fs_code \<Rightarrow> u32 \<Rightarrow> u32 \<Rightarrow> u32 \<Rightarrow> (u8 list \<times> u8 list option) list \<Rightarrow> nat \<Rightarrow> kstate \<Rightarrow> kstate \<Rightarrow> bool" where
  "listing_round c root entry buf es k s s' \<longleftrightarrow>
     (\<exists>m. readdir_fs c root (of_nat k) (memory s) = Some (entry, m)
        \<and> visit_entry c root buf entry (s\<lparr>memory := m\<rparr>) = Some s') \<and> shown entry buf (es ! k) s s'"

lemma bytes_cleared:
  assumes "bytes m buf (min 256 n) = take 256 d" "n = length d" "\<And>a. \<not> within buf (min 256 n) a \<Longrightarrow> m a = fill_bytes buf 256 0 m0 a"
  shows "bytes m buf 256 = take 256 d @ replicate (256 - n) 0"
proof (rule nth_equalityI)
  show "length (bytes m buf 256) = length (take 256 d @ replicate (256 - n) 0)" using assms(2) by simp
  fix j assume j: "j < length (bytes m buf 256)"
  show "bytes m buf 256 ! j = (take 256 d @ replicate (256 - n) 0) ! j"
  proof (cases "j < min 256 n")
    case True
    then have "bytes m buf 256 ! j = bytes m buf (min 256 n) ! j" by (simp add: bytes_def)
    then show ?thesis using True assms(1,2) by (simp add: nth_append)
  next
    case False
    have "unat (of_nat j :: u32) = j" using j by (intro unat_of_nat_small) simp
    then have "\<not> within buf (min 256 n) (buf + of_nat j)" "within buf 256 (buf + of_nat j)"
      using False j by (simp_all only: within_def add_diff_cancel_left' length_bytes not_less)
    then have "m (buf + of_nat j) = 0" using assms(3) [of "buf + of_nat j"] by (simp only: fill_bytes_def if_True simp_thms)
    then show ?thesis using False j assms(2) by (simp add: bytes_def load8_def nth_append)
  qed
qed

context directory
begin

lemma show_file_contents:
  assumes ok: "ok (memory s)" and k: "k < length es" "snd (es ! k) = Some d" and nm: "cstr (memory s) entry (fst (es ! k))"
  shows "\<exists>s'. show_file c buf (node k) s = Some s' \<and> cstr (memory s') entry (fst (es ! k)) \<and> ok (memory s')
    \<and> console s' = console s @ [Printf ('', contents: '' @ CHR 0x22 # ''%s'' @ CHR 0x22 # ''\<newline>'') [buf]]
    \<and> bytes (memory s') buf 256 = take 256 d @ replicate (256 - length d) 0"
proof -
  let ?m = "fill_bytes buf 256 0 (memory s)" and ?k = "min 256 (length d)"
  have m: "?m a = memory s a" if "\<not> within buf 256 a" for a using that by (simp add: fill_bytes_def)
  obtain m' where m': "read_fs c (node k) 0 256 buf ?m = Some (of_nat ?k, m')"
      "bytes m' buf ?k = take 256 d" "\<And>a. \<not> within buf ?k a \<Longrightarrow> m' a = ?m a"
    using file_read [OF ok_keeps [OF ok m] k] by auto
  have same: "m' a = memory s a" if "\<not> within buf 256 a" for a
    using m'(3) [of a] m [OF that] that within_mono [of buf ?k a 256] by auto
  have "cstr m' entry (fst (es ! k))"
  proof (rule cstr_cong_within [OF nm, of 132])
    fix a assume "within entry 132 a"
    then show "m' a = memory s a" using apart_within [OF apart_sym [THEN iffD1, OF buffer_apart_entry [OF ok]]] same by blast
  qed (use name_short [OF ok k(1)] in simp_all)
  moreover have "bytes m' buf 256 = take 256 d @ replicate (256 - length d) 0" by (rule bytes_cleared [OF m'(2) refl m'(3)])
  moreover have "load32 (memory s) (node_flags (node k)) AND 0x7 \<noteq> FS_DIRECTORY" using node_kind [OF ok k(1)] k(2) by simp
  ultimately show ?thesis using m'(1) ok_keeps [OF ok same]
    by (simp add: show_file_def memset_zero_fills printf_s_def)
qed

lemma visit_entry_shows:
  assumes ok: "ok (memory s)" and k: "k < length es" and nm: "cstr (memory s) entry (fst (es ! k))"
  shows "\<exists>s'. visit_entry c root buf entry s = Some s' \<and> shown entry buf (es ! k) s s' \<and> ok (memory s')"
proof -
  let ?s = "printf_s ''Found file %s'' [entry] s"
  have s: "memory ?s = memory s" "console ?s = console s @ [Printf ''Found file %s'' [entry]]" "?s\<lparr>memory := memory s\<rparr> = ?s"
    by (simp_all add: printf_s_def)
  have v: "visit_entry c root buf entry s = show_file c buf (node k) ?s"
    using entry_found [OF ok k nm] by (simp add: visit_entry_def s)
  show ?thesis
  proof (cases "snd (es ! k)")
    case None
    then have "show_file c buf (node k) ?s = Some (printf_s '': (directory)\<newline>'' [] ?s)"
      using node_kind [OF ok k] by (simp add: show_file_def s)
    then show ?thesis using v None nm ok by (simp add: shown_def printf_s_def)
  next
    case (Some d)
    have "ok (memory ?s)" "cstr (memory ?s) entry (fst (es ! k))" using ok nm by (simp_all only: s)
    from show_file_contents [OF this(1) k Some this(2)] show ?thesis by (auto simp: v Some shown_def s)
  qed
qed

lemma round_runs:
  assumes ok: "ok (memory s)" and k: "k < length es"
  shows "\<exists>s'. listing_round c root entry buf es k s s' \<and> ok (memory s')"
proof -
  obtain m where m: "readdir_fs c root (of_nat k) (memory s) = Some (entry, m)" "cstr m entry (fst (es ! k))" "ok m"
    using entry_read [OF ok k] by blast
  from visit_entry_shows [of "s\<lparr>memory := m\<rparr>" k] m k obtain s' where
    "visit_entry c root buf entry (s\<lparr>memory := m\<rparr>) = Some s'" "shown entry buf (es ! k) (s\<lparr>memory := m\<rparr>) s'" "ok (memory s')"
    by auto
  then show ?thesis using m(1) by (auto simp: listing_round_def shown_def split: option.splits)
qed

text \<open>The states at the heads of the rounds, from round \<open>i\<close> on.\<close>

lemma traverse_rounds:
  assumes "ok (memory s)" "i \<le> length es"
  shows "\<exists>ss. ss i = s \<and> traverse c root buf (of_nat i) s = Some (ss (length es))
    \<and> (\<forall>k. i \<le> k \<longrightarrow> k < length es \<longrightarrow> listing_round c root entry buf es k (ss k) (ss (Suc k)))"
  using assms
proof (induction "length es - i" arbitrary: i s)
  case 0
  then have "i = length es" by simp
  then show ?case using entries_end [OF 0(2)] by (intro exI [of _ "\<lambda>_. s"]) (subst traverse.simps, simp)
next
  case (Suc d)
  then have i: "i < length es" by simp
  obtain s1 where r: "listing_round c root entry buf es i s s1" "ok (memory s1)" using round_runs [OF Suc.prems(1) i] by blast
  have step: "traverse c root buf (of_nat i) s = traverse c root buf (of_nat (Suc i)) s1"
    using r(1) entry_nonzero [OF Suc.prems(1)] by (subst traverse.simps) (auto simp: listing_round_def add.commute)
  have "d = length es - Suc i" "Suc i \<le> length es" using Suc.hyps(2) i by simp_all
  from Suc.hyps(1) [OF this(1) r(2) this(2)] obtain ss where ss: "ss (Suc i) = s1"
    "traverse c root buf (of_nat (Suc i)) s1 = Some (ss (length es))"
    "\<forall>k. Suc i \<le> k \<longrightarrow> k < length es \<longrightarrow> listing_round c root entry buf es k (ss k) (ss (Suc k))" by blast
  show ?case
  proof (intro exI [of _ "ss(i := s)"] conjI allI impI)
    show "(ss(i := s)) i = s" by simp
    show "traverse c root buf (of_nat i) s = Some ((ss(i := s)) (length es))" using i ss(2) by (simp add: step del: of_nat_Suc)
    fix k assume "i \<le> k" "k < length es"
    then show "listing_round c root entry buf es k ((ss(i := s)) k) ((ss(i := s)) (Suc k))"
      using ss(1) ss(3) [rule_format, of k] r(1) by (cases "k = i") auto
  qed
qed

lemma kernel_task_lists:
  assumes "ok (memory s)"
  shows "\<exists>ss. ss 0 = printf_s ''Traversing the initial ramdisk:\<newline>'' [] s
    \<and> (\<forall>k<length es. listing_round c root entry buf es k (ss k) (ss (Suc k)))
    \<and> kernel_task c root buf (t, s)
      = kill_current (t, printf_s (''Type '' @ CHR 0x27 # ''help'' @ CHR 0x27 # '' for help!\<newline>> '') [] (ss (length es)))"
proof -
  let ?s = "printf_s ''Traversing the initial ramdisk:\<newline>'' [] s"
  have "ok (memory ?s)" using assms by (simp add: printf_s_def)
  from traverse_rounds [OF this, of 0] obtain ss where ss: "ss 0 = ?s" "traverse c root buf 0 ?s = Some (ss (length es))"
    "\<forall>k<length es. listing_round c root entry buf es k (ss k) (ss (Suc k))" by auto
  then have "kernel_task c root buf (t, s)
      = kill_current (t, printf_s (''Type '' @ CHR 0x27 # ''help'' @ CHR 0x27 # '' for help!\<newline>> '') [] (ss (length es)))"
    by (simp add: kernel_task_def)
  then show ?thesis using ss by blast
qed

end

subsection \<open>Properties\<close>

text \<open>C13: The first process lists the ramdisk and ends: it goes through a sequence of states, one for each of \<open>dev\<close>
  and the files in their order; in each round \<open>readdir_fs\<close> delivers the entry, its name is printed from the static
  entry, and for a file the buffer that is printed holds its first 256 bytes and zeros behind them. After the last file
  it prints the prompt and goes to \<open>_kill\<close>, for the files of any ramdisk whose names differ from each other and from
  \<open>dev\<close>.\<close>

theorem kernel_task_lists_ramdisk:
  assumes "initrd_ok lk v (memory s) files" "dirent_apart lk v (memory s) files" "buffer_apart lk v (memory s) files buf" "at_dirent lk \<noteq> 0"
    and "distinct (map fst files)" "dev_name \<notin> fst ` set files"
  shows "\<exists>ss. ss 0 = printf_s ''Traversing the initial ramdisk:\<newline>'' [] s
    \<and> (\<forall>k\<le>length files. listing_round (initrd_code lk v) (initrd_root v) (at_dirent lk) buf (listed files) k (ss k) (ss (Suc k)))
    \<and> kernel_task (initrd_code lk v) (initrd_root v) buf (t, s)
      = kill_current (t, printf_s (''Type '' @ CHR 0x27 # ''help'' @ CHR 0x27 # '' for help!\<newline>> '') [] (ss (Suc (length files))))"
proof -
  have "listing_ok lk v files buf (memory s)" using assms by (simp add: listing_ok_def)
  moreover have "length (listed files) = Suc (length files)" by (simp add: listed_def)
  ultimately show ?thesis using ramdisk.kernel_task_lists [of lk v files buf s t] by (simp add: less_Suc_eq_le)
qed

theorem kernel_task_lists_ramdisk_witness:
  "\<exists>v s ss. kernel_task (initrd_code demo_link v) (initrd_root v) 0x6000 (two_tasks, s)
      = kill_current (two_tasks, printf_s (''Type '' @ CHR 0x27 # ''help'' @ CHR 0x27 # '' for help!\<newline>> '') [] (ss 2))
    \<and> cstr (memory (ss 1)) 0x5000 dev_name \<and> cstr (memory (ss (2 :: nat))) 0x5000 [0x61]
    \<and> bytes (memory (ss 2)) 0x6000 256 = [0x68, 0x69] @ replicate 254 0"
proof -
  let ?files = "[([0x61], [0x68, 0x69])] :: ramfile list"
  obtain v and s' :: kstate where ini: "initrd_ok demo_link v (memory s') ?files" and free: "dirent_apart demo_link v (memory s') ?files"
    and buf: "\<forall>a. initrd_byte demo_link v (memory s') ?files a \<longrightarrow> \<not> within 0x6000 256 a"
    by (rule demo_initialised) blast
  have at: "at_dirent demo_link = 0x5000" "at_dirent demo_link \<noteq> 0" by (simp_all add: demo_link_def)
  have ap: "buffer_apart demo_link v (memory s') ?files 0x6000"
    using buf by (auto simp: buffer_apart_def demo_link_def within_nat)
  have names: "distinct (map fst ?files)" "dev_name \<notin> fst ` set ?files" by (simp_all add: dev_name_def)
  have n: "Suc (length ?files) = 2" by simp
  from kernel_task_lists_ramdisk [OF ini free ap at(2) names, of two_tasks, unfolded n] obtain ss where
    r: "\<forall>k\<le>length ?files. listing_round (initrd_code demo_link v) (initrd_root v) (at_dirent demo_link) 0x6000 (listed ?files) k (ss k) (ss (Suc k))" and
    run: "kernel_task (initrd_code demo_link v) (initrd_root v) 0x6000 (two_tasks, s')
      = kill_current (two_tasks, printf_s (''Type '' @ CHR 0x27 # ''help'' @ CHR 0x27 # '' for help!\<newline>> '') [] (ss 2))" by blast
  have "shown 0x5000 0x6000 (dev_name, None) (ss 0) (ss 1)" "shown 0x5000 0x6000 ([0x61], Some [0x68, 0x69]) (ss 1) (ss 2)"
    using r [rule_format, of 0] r [rule_format, of 1] by (simp_all add: listing_round_def listed_def at(1) numeral_2_eq_2)
  then show ?thesis using run by (auto simp: shown_def)
qed

end
