(* ===== verification/Kernel_Startup.thy ===== *)
theory Kernel_Startup
  imports Paging_Enabled Initrd_Properties
begin

text \<open>
  The part of \<open>kernel_main\<close> that brings up memory and files: \<open>initialise_paging\<close>, then \<open>initialise_initrd\<close> with
  \<open>kmalloc\<close> on the image that the boot loader has left below \<open>free_mem_addr\<close>. The heap that paging leaves is one the
  allocator contract holds for, and nothing below \<open>free_mem_addr\<close> has changed.
\<close>

subsection \<open>After paging\<close>

lemma paging_leaves_heap_ready:
  assumes "kheap s = 0" "unat (free_mem_addr s) mod 4096 \<le> 3584" "unat (free_mem_addr s) \<le> 0xC00000"
    and zero: "\<forall>a. free_mem_addr s \<le> a \<longrightarrow> a < 0x1000000 \<longrightarrow> memory s a = 0" and "fn \<noteq> 0"
  obtains cr3 s1 where "initialise_paging (Suc fuel) fn cb hs s = Some (hs[14 := Some cb], cr3, s1)"
    and "heap_ready 511988 (\<lambda>a. a < free_mem_addr s) s1" and "\<And>a. a < free_mem_addr s \<Longrightarrow> memory s1 a = memory s a"
proof -
  have rest: "\<forall>a. within (free_mem_addr s + 128) 384 a \<longrightarrow> memory s a = 0"
  proof (intro allI impI)
    fix a assume a: "within (free_mem_addr s + 128) 384 a"
    have "unat (free_mem_addr s + 128) = unat (free_mem_addr s) + 128"
      using assms(3) by (intro unat_add_numeral_nowrap) simp
    then have "free_mem_addr s \<le> a" "a < 0x1000000"
      using a assms(3) by (simp_all add: within_nat word_le_nat_alt word_less_nat_alt)
    then show "memory s a = 0" using zero by blast
  qed
  let ?bs = "[(4084, True), (8216, False), (511988, True)]"
  obtain D n s0 m s1 where b: "built D (free_mem_addr s) (memory s) n s0"
    and run: "initialise_paging (Suc fuel) fn cb hs s = Some (hs[14 := Some cb], free_mem_addr s0 + 0x83000, s1)"
    and s1: "kheap s1 = free_mem_addr s0" "memory s1 = m" "kernel_directory s1 = D" "current_directory s1 = 0xC0081000"
    and inv: "heap_inv s1 (free_mem_addr s0) ?bs"
    and low: "\<forall>a < free_mem_addr s0. m a = memory s0 a"
    and tables: "\<forall>k<1024. dir_table m 0xC0081000 (of_nat k) = tbl D s0 k
      \<and> (tbl D s0 k \<noteq> 0 \<longrightarrow> dir_table_phys m 0xC0081000 (of_nat k) = dir_table_phys (memory s0) D (of_nat k))"
    and at: "heap_start m (free_mem_addr s0) = 0xC0080000" "oa_array_at m (free_mem_addr s0) = KHEAP_START"
      "oa_max_size_at m (free_mem_addr s0) = 0x20000"
    and z: "\<forall>a. free_mem_addr s \<le> a \<longrightarrow> a < 0x1000000 \<longrightarrow> memory s a = 0 \<Longrightarrow> zeroed m 0xC0080000 ?bs"
    by (rule initialise_paging_runs [OF assms(1-3) rest assms(5), of fuel cb hs], rule that)
  let ?F = "free_mem_addr s" and ?H = "free_mem_addr s0"
  note bb = built_bounds [OF b]
  have FH: "unat ?F \<le> unat ?H" using dir_okD(6,7) [OF bb(6)] by linarith
  have "\<not> heap_own (memory s1) (kheap s1) ?bs c" if "c < ?F" for c
    using that FH bb(1) by (auto simp: heap_own_def s1 at KHEAP_START_def within_nat word_less_nat_alt)
  moreover have "kheap s1 \<noteq> 0" using bb(2) by (auto simp: s1)
  moreover have "\<exists>n. (n, True) \<in> set ?bs \<and> (511988 :: nat) \<le> n" by (rule exI [of _ 511988]) simp
  ultimately have "heap_ready 511988 (\<lambda>a. a < ?F) s1"
    using inv z [OF zero] unfolding heap_ready_def s1 at(1) by blast
  moreover have "memory s1 a = memory s a" if "a < ?F" for a
  proof -
    have "a < ?H" using that FH by (simp add: word_less_nat_alt)
    moreover have "memory s0 a = memory s a" using dir_okD(14) [OF bb(6)] that unfolding kept_def by blast
    ultimately show ?thesis using low by (simp add: s1)
  qed
  ultimately show thesis using run by (rule that [rotated])
qed

subsection \<open>Properties\<close>

text \<open>C8: The kernel mounts the ramdisk it is booted with. If the boot loader leaves an image of at most 2779 files
  below \<open>free_mem_addr\<close>, where the kernel's literals are as well, and the memory behind it up to 16
  megabytes is zero, then \<open>initialise_paging\<close> followed by \<open>initialise_initrd\<close> with \<open>kmalloc\<close>, as \<open>kernel_main\<close>
  calls them, returns; the nodes it has built in the heap behind paging describe exactly the files of the image; and
  nothing below \<open>free_mem_addr\<close> has changed but the image's headers, whose offsets have become addresses.\<close>

theorem startup_mounts_ramdisk:
  assumes "kheap s = 0" and "unat (free_mem_addr s) mod 4096 \<le> 3584" and "unat (free_mem_addr s) \<le> 0xC00000"
    and "\<forall>a. free_mem_addr s \<le> a \<longrightarrow> a < 0x1000000 \<longrightarrow> memory s a = 0" and "fn \<noteq> 0"
    and "image_ok location (memory s) files" and "488 + 184 * length files \<le> 511988"
    and "\<forall>a. within location (4 + 76 * length files) a \<or> data_byte location (memory s) files a
      \<or> within (lit_initrd lk) (Suc (length ini)) a \<or> within (lit_dev lk) 4 a \<longrightarrow> a < free_mem_addr s"
    and "cstr (memory s) (lit_initrd lk) ini" "length ini < 128" "cstr (memory s) (lit_dev lk) dev_name"
    and "\<forall>a. within (lit_dev lk) 4 a \<longrightarrow> \<not> within location (4 + 76 * length files) a"
    and "fn_read lk \<noteq> 0" "fn_readdir lk \<noteq> 0" "fn_finddir lk \<noteq> 0"
  shows "\<exists>v s'. Option.bind (initialise_paging (Suc fuel) fn cb hs s)
      (\<lambda>(hs, cr3, s). initialise_initrd (kmalloc (Suc fuel)) lk location s) = Some (initrd_root v, v, s')
    \<and> initrd_ok lk v (memory s') files
    \<and> (\<forall>a < free_mem_addr s. \<not> within location (4 + 76 * length files) a \<longrightarrow> memory s' a = memory s a)"
proof -
  obtain cr3 s1 where paging: "initialise_paging (Suc fuel) fn cb hs s = Some (hs[14 := Some cb], cr3, s1)"
    and rd: "heap_ready 511988 (\<lambda>a. a < free_mem_addr s) s1" and same: "\<And>a. a < free_mem_addr s \<Longrightarrow> memory s1 a = memory s a"
    by (rule paging_leaves_heap_ready [OF assms(1-5), of fuel cb hs], rule that)
  note used = assms(8) [rule_format]
  have eq: "memory s1 a = memory s a" if "within location (4 + 76 * length files) a \<or> data_byte location (memory s) files a" for a
    using that used same by blast
  note image = image_ok_cong [OF assms(6), of "memory s1", OF eq]
  have lits: "cstr (memory s1) (lit_initrd lk) ini" "cstr (memory s1) (lit_dev lk) dev_name"
    by (rule cstr_cong_within [OF assms(9), of "Suc (length ini)"], use assms(9,10) used same in auto)
      (rule cstr_cong_within [OF assms(11), of 4], use used same in \<open>auto simp: dev_name_def\<close>)
  have "\<exists>v s'. initialise_initrd (kmalloc (Suc fuel)) lk location s1 = Some (initrd_root v, v, s') \<and> initrd_ok lk v (memory s') files
    \<and> (\<forall>a. a < free_mem_addr s \<longrightarrow> \<not> within location (4 + 76 * length files) a \<longrightarrow> memory s' a = memory s1 a)"
    using heap.initialise_builds [OF rd assms(7) _ image(1), of lk ini fuel] assms(7,10,12-15) used lits by (auto simp: image(2))
  then show ?thesis using paging same by auto
qed

theorem startup_mounts_ramdisk_witness:
  "\<exists>v s'. Option.bind (initialise_paging 1 1 (\<lambda>r u. u) (replicate 256 (None :: unit isr_t option)) (demo_state\<lparr>free_mem_addr := 0x31400\<rparr>))
      (\<lambda>(hs, cr3, s). initialise_initrd (kmalloc 1) demo_link 0x30000 s) = Some (initrd_root v, v, s')
    \<and> initrd_ok demo_link v (memory s') [([0x61], [0x68, 0x69])]"
proof -
  let ?s = "demo_state\<lparr>free_mem_addr := 0x31400\<rparr>" and ?files = "[([0x61], [0x68, 0x69])] :: ramfile list"
  have zero: "\<forall>a. free_mem_addr ?s \<le> a \<longrightarrow> a < 0x1000000 \<longrightarrow> memory ?s a = 0"
    by (auto simp: demo_state_def put_bytes_out demo_creator(2) dev_name_def within_nat word_le_nat_alt word_less_nat_alt)
  have used: "\<forall>a. within 0x30000 (4 + 76 * length ?files) a \<or> data_byte 0x30000 (memory ?s) ?files a
      \<or> within (lit_initrd demo_link) (Suc (length [0x69 :: u8])) a \<or> within (lit_dev demo_link) 4 a \<longrightarrow> a < free_mem_addr ?s"
    using demo_data_byte by (fastforce simp: demo_link_def within_nat word_less_nat_alt)
  have apart: "\<forall>a. within (lit_dev demo_link) 4 a \<longrightarrow> \<not> within 0x30000 (4 + 76 * length ?files) a"
    by (simp add: demo_link_def within_nat)
  have image: "image_ok 0x30000 (memory ?s) ?files" using demo_image_ok by simp
  show ?thesis
    using startup_mounts_ramdisk [OF _ _ _ zero _ image _ used _ _ _ apart,
        where fn = 1 and fuel = 0 and cb = "\<lambda>r u. u" and hs = "replicate 256 (None :: unit isr_t option)"]
      demo_memory by (auto simp: demo_link_def demo_state_def early_state_def simp del: replicate.simps)
qed

end
