(* ===== verification/Spec2Isabelle.thy ===== *)
theory Spec2Isabelle
  imports Heap_Free Paging_Enabled Process_Exit Timer Libc_Stdio Initrd_Properties Ata Kernel_Main Bindump Initrd_Reader
    Kernel_Session Kernel_Listing Kernel_Startup
begin

text \<open>
  A verification library for HackOS, a 32-bit x86 kernel in C with the host tools that make its ramdisk. All of
  its C files (\<open>src/kernel\<close>, \<open>src/tools\<close>) are modelled function by function; every definition that
  translates code keeps the name of its function, macro or structure, and the loops, branches and blocks of a longer
  function are definitions of their own next to it.

  \<^bold>\<open>The program.\<close> \<open>kernel_main\<close> clears the screen, installs the segment and interrupt descriptor tables,
  registers the handlers of timer, mouse and keyboard, builds the page directory and the kernel heap, turns the image
  that the boot loader left in memory into the nodes of the initial ramdisk, and starts tasking with the idle process
  and \<open>kernel_task\<close>, which lists the ramdisk and ends. From then on everything happens in interrupts: a tick
  may switch processes, a key edits a line, a finished line goes to \<open>user_input\<close> and on to the shell, a mouse
  byte moves the text cursor of the mouse. The ramdisk is written by \<open>init_rd_creator\<close> on the host, and
  \<open>init_rd_reader\<close> and \<open>bindump\<close> print files there.

  \<^bold>\<open>Machine and conventions.\<close> \<open>Kernel_Prelude\<close> has the integers (\<open>8\<close> to \<open>64\<close> bit words, on
  which \<open>+\<close> wraps as in C), \<open>ASSERT\<close> and the console events; \<open>Machine_Memory\<close> one flat
  little-endian memory \<open>u32 \<Rightarrow> u8\<close>, with \<open>within\<close> and \<open>apart\<close> for regions; \<open>Word_Array\<close> and
  \<open>Memory_Strings\<close> arrays and C strings in it; \<open>Kernel_State\<close> the record \<open>kstate\<close> of the global
  variables that the memory manager shares. Structures live in memory at the offsets of the i386 ABI, so aliasing is
  what it is in C. A port instruction is an event in a trace (\<open>Port_Io\<close>), and what a device answers is a function of the
  trace. \<open>printf\<close> is modelled character by character in \<open>Libc_Stdio\<close>; elsewhere a call of it is a
  console event with its format and arguments. \<open>None\<close> is a run that has no defined result or does not end:
  an unbounded loop is a \<open>partial_function (option)\<close>, and that it ends is part of the properties about it.

  \<^bold>\<open>Theories and code.\<close>
  \<^item> \<open>Libc_Memory\<close>, \<open>Libc_String\<close>, \<open>Libc_Stdio\<close>: \<open>libc/memory.c\<close> (\<open>memcpy\<close>, \<open>memset\<close>),
    \<open>libc/string.c\<close>, \<open>libc/stdio.c\<close>.
  \<^item> \<open>Ordered_Array\<close>: \<open>libc/data_structures/ordered_array.c\<close>, the index of the heap.
  \<^item> \<open>Kernel_Heap\<close>: the heap of \<open>libc/memory.c\<close>. \<open>Heap_Blocks\<close> has its invariant \<open>heap_inv\<close> (the area is
    tiled by blocks, the index holds exactly the holes), \<open>Heap_Create\<close>, \<open>Heap_Alloc\<close>,
    \<open>Heap_Aligned\<close> and \<open>Heap_Free\<close> what \<open>create_heap\<close>, \<open>alloc\<close> without and with page
    alignment and \<open>free\<close> do to the blocks, \<open>Block_Source\<close> and \<open>Heap_Source\<close> the contract of
    \<open>kmalloc\<close>.
  \<^item> \<open>Frame_Allocator\<close>, \<open>Page_Table\<close>, \<open>Paging\<close>: \<open>cpu/paging/paging.c\<close>; \<open>Paging_Maps\<close> and
    \<open>Paging_Build\<close> what \<open>initialise_paging\<close> builds, under the processor's translation of addresses, and
    \<open>Paging_Enabled\<close> what it has achieved when it returns.
  \<^item> \<open>Descriptor_Tables\<close>, \<open>Port_Io\<close>, \<open>Interrupts\<close>, \<open>Timer\<close>, \<open>Tasking\<close>: \<open>cpu/gdt.c\<close>, \<open>cpu/idt.c\<close>,
    \<open>cpu/ports.c\<close>, \<open>cpu/isr.c\<close>, \<open>cpu/timer.c\<close>, \<open>cpu/tasking/task.c\<close>; \<open>Process_Exit\<close> what \<open>_kill\<close> does to the
    processes and to the heap they lie in.
  \<^item> \<open>Screen\<close>, \<open>Keyboard\<close>, \<open>Mouse\<close>, \<open>Rtc\<close>, \<open>Ata\<close>: the drivers of \<open>drivers/\<close>.
  \<^item> \<open>File_System\<close>: \<open>filesystem/fs.c\<close> and the code of \<open>filesystem/initrd.c\<close>; \<open>Initrd\<close>,
    \<open>Initrd_Directory\<close>, \<open>Initrd_Properties\<close> what the ramdisk promises; \<open>Directory_Contract\<close> what a
    directory is for the code that lists it.
  \<^item> \<open>Initrd_Image\<close>, \<open>Initrd_Reader\<close>, \<open>Bindump\<close>: the tools of \<open>src/tools\<close>, with their output in \<open>Host_Output\<close>.
  \<^item> \<open>Shell\<close>, \<open>Kernel_Main\<close>: \<open>shell/shell.c\<close>, \<open>kernel.c\<close>, \<open>irq_install\<close> of \<open>isr.c\<close> and the second stage
    loader; \<open>Kernel_Startup\<close>, \<open>Kernel_Listing\<close> and \<open>Kernel_Session\<close> have the properties that span the
    components: from paging to the mounted ramdisk, the listing of \<open>kernel_task\<close>, and the work done in interrupts.

  \<^bold>\<open>Interfaces.\<close> Four contracts are locales. \<open>block_source\<close> is an allocator that hands out fresh zeroed bytes, interpreted
  for \<open>kmalloc\<close> before the heap exists (\<open>early\<close>) and after (\<open>heap\<close>); \<open>initialise_initrd\<close> is verified
  against it once. \<open>character_sink\<close> is the display of \<open>printf\<close>, interpreted for the text screen
  (\<open>console\<close>). \<open>ordered_index\<close> is a sorted list with insertion and deletion, interpreted for the ordered array
  (\<open>oa\<close>) and used by the heap. \<open>directory\<close> is what \<open>kernel_task\<close> goes through, interpreted for the
  ramdisk (\<open>ramdisk\<close>).
\<close>

text \<open>
  \<^bold>\<open>What is shown.\<close>
  \<^item> Heap: \<open>create_heap\<close> establishes the invariant; an unaligned \<open>alloc\<close> is best-fit, keeps it
    and touches nothing else; a page-aligned one returns an address on a page boundary and keeps it where the
    remainders can hold a header and a footer; \<open>kmalloc\<close> returns bytes that nobody uses; \<open>free\<close> unites a
    block with the holes beside it, and the one word by which it misses the invariant is stated. The ordered array keeps
    its order and its elements.
  \<^item> Paging: \<open>alloc_frame\<close> takes the lowest free frame; the directory in force when paging is switched on
    maps all memory in use to itself and the heap to frames of its own, although the loop that builds it allocates tables
    while it runs; \<open>initialise_paging\<close> as a whole ends with a well-formed heap behind paging and a clone of the directory in
    \<open>cr3\<close> that shares every table and translates every address in use as before; the effect of the error in \<open>free_frame\<close>.
  \<^item> Ramdisk: \<open>initialise_initrd\<close> builds the nodes of exactly the files of an image; reading gives the requested
    slice; listed names are found again; what the creator packs, the kernel reads back, and the reader lists it when every file has a zero byte; the creator fails
    exactly when a file is missing; the image that the boot loader leaves below the allocator is mounted by
    \<open>initialise_initrd\<close> in the heap that \<open>initialise_paging\<close> has built; \<open>kernel_task\<close> ends and shows each file.
  \<^item> Input: the keyboard refines a line editor of 255 characters; a typed command is executed (power-off ports, or the
    shell's answer and its next mode); the console after any line of the shell is given in full; whatever the order of ticks, keys and mouse bytes, key buffer and mouse stay in
    their bounds and ticks and mouse bytes are served. The mouse cursor restores what it covered.
  \<^item> Output: \<open>put_char\<close> refines a terminal of 25 by 80 cells with scrolling; \<open>printf\<close> on the screen shows the
    rendered text; \<open>itoa\<close> writes what reads back as the number.
  \<^item> Processor tables and devices: gates decode to what was encoded and reach their stubs; interrupts are
    acknowledged once; the timer's divisor; a disk read, against a disk with its registers, busy and data request
    bits, sends the command for the addressed sectors, delivers them and keeps to the protocol; a write repeats its first
    kilobyte.
  \<^item> Tasking: the scheduler returns to every process within a round; \<open>addProcess\<close> and \<open>_kill\<close> change the list
    by exactly one process, and \<open>_kill\<close> gives its structure and page directory back to the heap.

  \<^bold>\<open>Bounds and fuel.\<close> \<open>alloc\<close> calls \<open>expand\<close>, which may call \<open>kmalloc\<close> for a page table, which calls \<open>alloc\<close>:
  the fuel of \<open>alloc\<close> and of all that allocates bounds the depth of these calls, and where a hole fits one unit is
  enough, as the theorems say with \<open>Suc fuel\<close>. After paging is enabled \<open>memory\<close> is what the directory shows at that
  moment, and tables are found in it at their physical addresses, which is right for them because they lie in memory that
  is mapped to itself. Identity mapping is shown for an allocator that starts at or below
  \<open>0xC00000\<close>, so that tables and bitmap stay below 16 megabytes, and whose bitmap does not reach the directory. Strings are
  shorter than \<open>2 ^ 31\<close> bytes, images have at most 64 files, names at most 63 characters, as the code assumes.

  \<^bold>\<open>Parameters.\<close> Not in the C code, and arguments of the definitions that use them: the devices behind the ports, the
  addresses the linker gives to literals, handlers, stubs and static data, the registers that a process switch
  saves, the contents of uninitialised locals, what lies behind a table that is indexed out of range, and the files of the host.

  \<^bold>\<open>Not modelled.\<close> The boot sector, the protected-mode entry and the interrupt stubs are assembly (of assembly
  only \<open>copy_page_physical\<close> and the port instructions are translated); \<open>lgdt\<close>, \<open>lidt\<close>, \<open>cli\<close> and the jump into a
  process are outcomes, not effects. The Hungarian keyboard tables are not compiled. Of the multiboot structure only
  \<open>mods_addr\<close> is read. \<open>init_display\<close> allocates the display structure, but its contents are a record beside the memory.
  \<open>init_rd_creator\<close> is taken to open its image, which is none of its inputs. Headers hold prototypes. Modelled without a property of their own are the growth and contraction
  of the heap, which break the invariant in the ways listed below, the copies that \<open>clone_directory\<close> makes of tables
  that are not the kernel's (\<open>copy_page_physical\<close> copies in the flat memory, so it is faithful for frames that
  are mapped to themselves), \<open>createProcess\<close>, \<open>move_stack\<close> and the clock's calendar.

  \<^bold>\<open>What the code does not do as meant.\<close> Among others: \<open>free_frame\<close> releases frame 0 instead of its own; a hole
  united with its right neighbour keeps the neighbour's footer; \<open>expand\<close> and \<open>contract\<close> round sizes by a mask that binds
  wrongly, and \<open>contract\<close> can cut the heap below blocks in use; \<open>memset\<close> with a nonzero value
  stores an \<open>int\<close> and not its low byte; negative numbers are printed as unsigned ones; \<open>write_sectors_ATA_PIO\<close>
  never advances its pointer; the list of processes is searched as if it were a ring; the states of the mouse buttons
  are those of the packet before; \<open>split\<close> returns empty pieces; a ramdisk file of 256 bytes or more is printed
  without its end; \<open>init_rd_reader\<close> prints behind the block that holds a file.
\<close>

end
